(* ===== verification/Prelude.thy ===== *)
theory Prelude
  imports Main "HOL-Library.Word"
begin

text \<open>
  Shared vocabulary of the development.

  The program's strings are \<^verbatim>\<open>std::string\<close>s of bytes, so they are HOL strings (one
  \<open>char\<close> per byte).  This theory models what the sources use of the C and C++ standard
  library on such strings (\<^verbatim>\<open>tolower\<close>, \<^verbatim>\<open>isspace\<close>, \<^verbatim>\<open>find\<close>, \<^verbatim>\<open>rfind\<close>, \<^verbatim>\<open>strtoul\<close>,
  \<^verbatim>\<open>to_string\<close>, \<^verbatim>\<open>getline\<close> and the \<^verbatim>\<open>>>\<close> extraction of words and integers), proves the
  generic facts the components share, and states the reachability interface (a step system with
  an inductive invariant) that the state machines of the proxy are interpreted in.
\<close>

named_theorems cxx_simps \<open>evaluation of the C++ library models\<close>

section \<open>Characters\<close>

abbreviation CR :: char where "CR \<equiv> CHR 0x0D"
abbreviation LF :: char where "LF \<equiv> CHR 0x0A"
abbreviation HT :: char where "HT \<equiv> CHR 0x09"
abbreviation SP :: char where "SP \<equiv> CHR 0x20"
abbreviation CRLF :: string where "CRLF \<equiv> [CR, LF]"
abbreviation CRLF2 :: string where "CRLF2 \<equiv> [CR, LF, CR, LF]"

definition isspace :: "char \<Rightarrow> bool" where
  "isspace c \<longleftrightarrow> c \<in> {SP, HT, LF, CHR 0x0B, CHR 0x0C, CR}"

definition tolower :: "char \<Rightarrow> char" where
  "tolower c = (let n = (of_char c :: nat) in
     if 65 \<le> n \<and> n \<le> 90 then char_of (n + 32) else c)"

definition lower :: "string \<Rightarrow> string" where
  "lower s = map tolower s"

definition digit_val :: "char \<Rightarrow> nat option" where
  "digit_val c = (let n = (of_char c :: nat) in
     if 48 \<le> n \<and> n \<le> 57 then Some (n - 48)
     else if 97 \<le> n \<and> n \<le> 122 then Some (n - 87)
     else if 65 \<le> n \<and> n \<le> 90 then Some (n - 55)
     else None)"

section \<open>Searching strings\<close>

fun find_char :: "char \<Rightarrow> string \<Rightarrow> nat option" where
  "find_char c [] = None"
| "find_char c (x # xs) = (if x = c then Some 0 else map_option Suc (find_char c xs))"

definition rfind_char :: "char \<Rightarrow> string \<Rightarrow> nat option" where
  "rfind_char c s = map_option (\<lambda>i. length s - 1 - i) (find_char c (rev s))"

definition starts_with :: "string \<Rightarrow> string \<Rightarrow> bool" where
  "starts_with p s \<longleftrightarrow> take (length p) s = p"

fun find_str :: "string \<Rightarrow> string \<Rightarrow> nat option" where
  "find_str p [] = (if p = [] then Some 0 else None)"
| "find_str p (x # xs) =
     (if starts_with p (x # xs) then Some 0 else map_option Suc (find_str p xs))"

definition contains :: "string \<Rightarrow> string \<Rightarrow> bool" where
  "contains p s \<longleftrightarrow> find_str p s \<noteq> None"

text \<open>\<^verbatim>\<open>val.find_first_not_of(" \t")\<close>, then \<^verbatim>\<open>substr\<close> when it is not \<^verbatim>\<open>npos\<close>: an
  all-blank value is left as it is.\<close>

definition trim_leading :: "string \<Rightarrow> string" where
  "trim_leading v = (let t = dropWhile (\<lambda>c. c = SP \<or> c = HT) v in if t = [] then v else t)"

definition pop_cr :: "string \<Rightarrow> string" where
  "pop_cr line = (if line \<noteq> [] \<and> last line = CR then butlast line else line)"

section \<open>Numbers in strings\<close>

abbreviation ULONG_MAX :: nat where "ULONG_MAX \<equiv> 2 ^ 64 - 1"
abbreviation LONG_MAX :: int where "LONG_MAX \<equiv> 2 ^ 63 - 1"
abbreviation INT_MAX :: int where "INT_MAX \<equiv> 2 ^ 31 - 1"

fun strto_digits :: "nat \<Rightarrow> nat \<Rightarrow> string \<Rightarrow> nat \<times> nat" where
  "strto_digits base acc [] = (acc, 0)"
| "strto_digits base acc (c # cs) =
     (case digit_val c of
        Some d \<Rightarrow> if d < base
                  then (let (v, n) = strto_digits base (acc * base + d) cs in (v, Suc n))
                  else (acc, 0)
      | None \<Rightarrow> (acc, 0))"

definition split_sign :: "string \<Rightarrow> bool \<times> nat \<times> string" where
  "split_sign s = (case s of
      [] \<Rightarrow> (False, 0, [])
    | c # cs \<Rightarrow> if c = CHR ''-'' then (True, 1, cs)
               else if c = CHR ''+'' then (False, 1, cs) else (False, 0, s))"

definition hex_prefix :: "nat \<Rightarrow> string \<Rightarrow> nat" where
  "hex_prefix base s = (case s of
      z # x # h # _ \<Rightarrow>
        if base = 16 \<and> z = CHR ''0'' \<and> (x = CHR ''x'' \<or> x = CHR ''X'')
           \<and> (case digit_val h of Some d \<Rightarrow> d < 16 | None \<Rightarrow> False)
        then 2 else 0
    | _ \<Rightarrow> 0)"

text \<open>\<^verbatim>\<open>strtoul(s, &end, base)\<close>: the value and the offset of \<^verbatim>\<open>end\<close> (0 when nothing was
  converted).  Overflow saturates at \<open>ULONG_MAX\<close>, a minus sign negates modulo \<open>2 ^ 64\<close>.\<close>

definition strtoul :: "string \<Rightarrow> nat \<Rightarrow> nat \<times> nat" where
  "strtoul s base =
     (let ws = length (takeWhile isspace s);
          (neg, sg, s2) = split_sign (dropWhile isspace s);
          pre = hex_prefix base s2;
          (v, n) = strto_digits base 0 (drop pre s2)
      in if n = 0 then (0, 0)
         else (if v > ULONG_MAX then ULONG_MAX else if neg then (2 ^ 64 - v) mod 2 ^ 64 else v,
               ws + sg + pre + n))"

text \<open>\<^verbatim>\<open>strtol(s, &end, 10)\<close>: saturates at both ends of \<^verbatim>\<open>long\<close>.\<close>

definition strtol10 :: "string \<Rightarrow> int" where
  "strtol10 s =
     (let (neg, sg, s2) = split_sign (dropWhile isspace s);
          (v, n) = strto_digits 10 0 s2
      in if n = 0 then 0
         else if neg then max (- LONG_MAX - 1) (- int v) else min LONG_MAX (int v))"

text \<open>\<^verbatim>\<open>static_cast<int>\<close> of a wider integer: two's complement truncation.\<close>

definition to_int32 :: "int \<Rightarrow> int" where
  "to_int32 v = (v + 2 ^ 31) mod 2 ^ 32 - 2 ^ 31"

definition show_digit :: "nat \<Rightarrow> char" where
  "show_digit d = char_of (48 + d)"

fun show_nat :: "nat \<Rightarrow> string" where
  "show_nat n = (if n < 10 then [show_digit n] else show_nat (n div 10) @ [show_digit (n mod 10)])"

declare show_nat.simps [simp del]

definition show_int :: "int \<Rightarrow> string" where
  "show_int i = (if i < 0 then CHR ''-'' # show_nat (nat (- i)) else show_nat (nat i))"

section \<open>Input streams over strings\<close>

text \<open>\<^verbatim>\<open>std::getline(iss, line)\<close>: \<open>None\<close> when nothing is left; the newline is consumed and
  dropped.\<close>

definition getline :: "string \<Rightarrow> (string \<times> string) option" where
  "getline s = (if s = [] then None
     else Some (takeWhile (\<lambda>c. c \<noteq> LF) s, drop 1 (dropWhile (\<lambda>c. c \<noteq> LF) s)))"

text \<open>\<^verbatim>\<open>iss >> word\<close>: skip blanks, take the word, leave the rest.  An empty word is a failed
  extraction, after which every further extraction of the same stream fails.\<close>

definition extract_word :: "string \<Rightarrow> string \<times> string" where
  "extract_word s = (let t = dropWhile isspace s in
     (takeWhile (\<lambda>c. \<not> isspace c) t, dropWhile (\<lambda>c. \<not> isspace c) t))"

text \<open>\<^verbatim>\<open>iss >> int_value\<close>: the value stored, whether the stream is still good, and the rest.
  No digits stores 0 and fails; a value outside \<^verbatim>\<open>int\<close> stores the nearest bound and fails.\<close>

definition extract_int :: "string \<Rightarrow> int \<times> bool \<times> string" where
  "extract_int s =
     (let (neg, sg, s2) = split_sign (dropWhile isspace s);
          (v, n) = strto_digits 10 0 s2;
          i = (if neg then - int v else int v)
      in if n = 0 then (0, False, s2)
         else if i > INT_MAX then (INT_MAX, False, drop n s2)
         else if i < - INT_MAX - 1 then (- INT_MAX - 1, False, drop n s2)
         else (i, True, drop n s2))"

section \<open>Step systems\<close>

inductive reachable :: "('s \<Rightarrow> bool) \<Rightarrow> ('s \<Rightarrow> 's \<Rightarrow> bool) \<Rightarrow> 's \<Rightarrow> bool"
  for init :: "'s \<Rightarrow> bool" and step :: "'s \<Rightarrow> 's \<Rightarrow> bool" where
  reach_init: "init s \<Longrightarrow> reachable init step s"
| reach_step: "reachable init step s \<Longrightarrow> step s t \<Longrightarrow> reachable init step t"

locale step_system =
  fixes init :: "'s \<Rightarrow> bool" and step :: "'s \<Rightarrow> 's \<Rightarrow> bool" and inv :: "'s \<Rightarrow> bool"
  assumes init_inv: "init s \<Longrightarrow> inv s"
    and step_inv: "inv s \<Longrightarrow> step s t \<Longrightarrow> inv t"
begin

lemma reachable_inv: "reachable init step s \<Longrightarrow> inv s"
  by (induction rule: reachable.induct) (auto intro: init_inv step_inv)

end

section \<open>Facts about the string library\<close>

lemma isspace_simps [simp]:
  "isspace SP" "isspace HT" "isspace LF" "isspace CR"
  by (simp_all add: isspace_def)

lemma length_lower [simp]: "length (lower s) = length s"
  by (simp add: lower_def)

lemma lower_append: "lower (s @ t) = lower s @ lower t"
  by (simp add: lower_def)

lemma of_char_tolower:
  "(of_char (tolower c) :: nat) =
     (if 65 \<le> (of_char c :: nat) \<and> (of_char c :: nat) \<le> 90 then of_char c + 32 else of_char c)"
  by (auto simp: tolower_def Let_def of_char_of)

lemma tolower_idem [simp]: "tolower (tolower c) = tolower c"
proof -
  have "\<not> (65 \<le> (of_char (tolower c) :: nat) \<and> (of_char (tolower c) :: nat) \<le> 90)"
    by (simp add: of_char_tolower)
  then show ?thesis by (simp only: tolower_def [of "tolower c"] Let_def if_False)
qed

lemma lower_idem [simp]: "lower (lower s) = lower s"
  by (simp add: lower_def)

lemma take_drop_append: "take n (drop p xs) @ drop (p + n) xs = drop p xs"
  by (metis append_take_drop_id drop_drop add.commute)

lemma append_prefix_split:
  assumes "xs @ ys = bs @ zs" "length bs \<le> length xs"
  shows "xs = bs @ drop (length bs) xs" "zs = drop (length bs) xs @ ys"
proof -
  from assms have "take (length bs) xs = bs" "drop (length bs) xs @ ys = zs"
    by (auto simp: append_eq_append_conv_if split: if_splits)
  then show "xs = bs @ drop (length bs) xs" "zs = drop (length bs) xs @ ys"
    by (metis append_take_drop_id, simp)
qed

lemma find_char_None_iff: "find_char c s = None \<longleftrightarrow> c \<notin> set s"
  by (induction s) auto

lemma find_char_append: "c \<notin> set s \<Longrightarrow> find_char c (s @ c # t) = Some (length s)"
  by (induction s) auto

lemma find_char_Some:
  "find_char c s = Some i \<Longrightarrow> i < length s \<and> s ! i = c \<and> c \<notin> set (take i s)"
proof (induction s arbitrary: i)
  case (Cons x s)
  then show ?case by (cases i) (auto split: if_splits)
qed simp

lemma find_str_Some:
  "find_str p s = Some i \<Longrightarrow>
     starts_with p (drop i s) \<and> i \<le> length s \<and> (\<forall>j < i. \<not> starts_with p (drop j s))"
proof (induction s arbitrary: i)
  case Nil
  then show ?case by (auto simp: starts_with_def split: if_splits)
next
  case (Cons x s)
  show ?case
  proof (cases "starts_with p (x # s)")
    case True
    with Cons.prems show ?thesis by simp
  next
    case False
    with Cons.prems obtain k where k: "find_str p s = Some k" "i = Suc k" by auto
    with Cons.IH [of k] False show ?thesis
      by (auto simp: less_Suc_eq_0_disj)
  qed
qed

lemma find_str_None:
  "find_str p s = None \<Longrightarrow> j \<le> length s \<Longrightarrow> \<not> starts_with p (drop j s)"
proof (induction s arbitrary: j)
  case Nil
  then show ?case by (auto simp: starts_with_def split: if_splits)
next
  case (Cons x s)
  then show ?case by (cases j) (auto split: if_splits)
qed

lemma starts_with_lengthD: "starts_with p s \<Longrightarrow> length p \<le> length s"
  by (metis starts_with_def length_take min.cobounded1)

lemma starts_with_append [simp]: "starts_with p (p @ s)"
  by (simp add: starts_with_def)

lemma find_strI:
  assumes "i \<le> length s" "starts_with p (drop i s)" "\<forall>j < i. \<not> starts_with p (drop j s)"
  shows "find_str p s = Some i"
  using assms
proof (induction s arbitrary: i)
  case Nil
  then show ?case by (simp add: starts_with_def)
next
  case (Cons x s)
  show ?case
  proof (cases i)
    case 0
    with Cons.prems show ?thesis by simp
  next
    case (Suc k)
    from Cons.prems(3) Suc have "\<not> starts_with p (x # s)" by auto
    moreover have "find_str p s = Some k"
      using Cons.prems Suc by (intro Cons.IH) auto
    ultimately show ?thesis using Suc by simp
  qed
qed

lemma find_str_append_left:
  assumes "find_str p s = Some i"
  shows "find_str p (s @ t) = Some i"
proof (rule find_strI)
  from find_str_Some [OF assms]
  have i: "i \<le> length s" "starts_with p (drop i s)" and lt: "\<forall>j < i. \<not> starts_with p (drop j s)"
    by auto
  from i starts_with_lengthD [OF i(2)] have len: "i + length p \<le> length s" by simp
  from i show "i \<le> length (s @ t)" by simp
  from i len show "starts_with p (drop i (s @ t))"
    by (simp add: starts_with_def)
  show "\<forall>j < i. \<not> starts_with p (drop j (s @ t))"
  proof (intro allI impI)
    fix j assume "j < i"
    with lt len show "\<not> starts_with p (drop j (s @ t))"
      by (auto simp: starts_with_def)
  qed
qed

lemma length_getline:
  "getline s = Some (line, rest) \<Longrightarrow> length rest < length s"
proof -
  assume "getline s = Some (line, rest)"
  then have s: "s \<noteq> []" and rest: "rest = drop 1 (dropWhile (\<lambda>c. c \<noteq> LF) s)"
    by (auto simp: getline_def split: if_splits)
  have "length (dropWhile (\<lambda>c. c \<noteq> LF) s) \<le> length s"
    by (rule length_dropWhile_le)
  with s rest show ?thesis by (cases "dropWhile (\<lambda>c. c \<noteq> LF) s") auto
qed

lemma takeWhile_neq_append [simp]: "c \<notin> set l \<Longrightarrow> takeWhile (\<lambda>x. x \<noteq> c) (l @ c # t) = l"
  by (induction l) auto

lemma dropWhile_neq_append [simp]: "c \<notin> set l \<Longrightarrow> dropWhile (\<lambda>x. x \<noteq> c) (l @ c # t) = c # t"
  by (induction l) auto

lemma getline_append: "LF \<notin> set l \<Longrightarrow> getline (l @ LF # t) = Some (l, t)"
  by (simp add: getline_def)

lemma pop_cr_snoc [simp]: "pop_cr (l @ [CR]) = l"
  by (simp add: pop_cr_def)

lemma extract_word_append:
  assumes "w \<noteq> []" "\<forall>c \<in> set w. \<not> isspace c"
  shows "extract_word (w @ SP # t) = (w, SP # t)" "extract_word w = (w, [])"
    "extract_word (SP # w @ SP # t) = (w, SP # t)" "extract_word (SP # w) = (w, [])"
proof -
  have hd: "\<not> isspace (hd w)" using assms by (cases w) auto
  have dw: "dropWhile isspace (w @ u) = w @ u" for u
    using assms(1) hd by (cases w) auto
  have tw: "takeWhile (\<lambda>c. \<not> isspace c) (w @ SP # t) = w"
    "dropWhile (\<lambda>c. \<not> isspace c) (w @ SP # t) = SP # t"
    using assms(2) by (auto simp: takeWhile_append dropWhile_append)
  have tw0: "takeWhile (\<lambda>c. \<not> isspace c) w = w" "dropWhile (\<lambda>c. \<not> isspace c) w = []"
    using assms(2) by auto
  show "extract_word (w @ SP # t) = (w, SP # t)" "extract_word w = (w, [])"
    "extract_word (SP # w @ SP # t) = (w, SP # t)" "extract_word (SP # w) = (w, [])"
    using dw [of "SP # t"] dw [of "[]"] tw tw0 by (simp_all add: extract_word_def Let_def)
qed

lemma digit_val_show_digit: "d < 10 \<Longrightarrow> digit_val (show_digit d) = Some d"
  by (simp add: digit_val_def show_digit_def Let_def of_char_of)

lemma strto_digits_append:
  "(\<forall>c \<in> set s. \<exists>d. digit_val c = Some d \<and> d < base) \<Longrightarrow>
   strto_digits base acc (s @ t) =
     (let (v, n) = strto_digits base acc s; (v', n') = strto_digits base v t in (v', n + n'))"
  by (induction s arbitrary: acc) (auto split: prod.splits)

lemma show_nat_digits: "c \<in> set (show_nat n) \<Longrightarrow> \<exists>d < 10. c = show_digit d"
proof (induction n rule: show_nat.induct)
  case (1 n)
  have "n mod 10 < 10" by simp
  with 1 show ?case
    by (cases "n < 10") (auto simp: show_nat.simps [of n] intro: exI [of _ "n mod 10"])
qed

lemma show_nat_nonempty [simp]: "show_nat n \<noteq> []"
  by (simp add: show_nat.simps [of n])

lemma strto_digits_show_nat: "strto_digits 10 0 (show_nat n) = (n, length (show_nat n))"
proof (induction n rule: show_nat.induct)
  case (1 n)
  show ?case
  proof (cases "n < 10")
    case True
    then show ?thesis by (simp add: show_nat.simps [of n] digit_val_show_digit)
  next
    case False
    have all: "\<forall>c \<in> set (show_nat (n div 10)). \<exists>d. digit_val c = Some d \<and> d < 10"
      using show_nat_digits digit_val_show_digit by blast
    show ?thesis
      using False 1 strto_digits_append [OF all, of 0 "[show_digit (n mod 10)]"]
      by (simp add: show_nat.simps [of n] digit_val_show_digit)
  qed
qed

lemma show_digit_props:
  "d < 10 \<Longrightarrow> \<not> isspace (show_digit d) \<and> show_digit d \<noteq> CHR ''-'' \<and> show_digit d \<noteq> CHR ''+''
     \<and> show_digit d \<noteq> LF \<and> show_digit d \<noteq> CR \<and> show_digit d \<noteq> CHR '':''"
proof -
  assume "d < 10"
  then have "d = 0 \<or> d = 1 \<or> d = 2 \<or> d = 3 \<or> d = 4 \<or> d = 5 \<or> d = 6 \<or> d = 7 \<or> d = 8 \<or> d = 9"
    by auto
  then show ?thesis
    by (auto simp: show_digit_def isspace_def char_of_def)
qed

lemma show_nat_hd:
  "\<not> isspace (hd (show_nat n))" "hd (show_nat n) \<noteq> CHR ''-''" "hd (show_nat n) \<noteq> CHR ''+''"
proof -
  have "hd (show_nat n) \<in> set (show_nat n)" by simp
  from show_nat_digits [OF this] obtain d where d: "d < 10" "hd (show_nat n) = show_digit d"
    by auto
  show "\<not> isspace (hd (show_nat n))" "hd (show_nat n) \<noteq> CHR ''-''" "hd (show_nat n) \<noteq> CHR ''+''"
    using show_digit_props [OF d(1)] by (simp_all add: d(2))
qed

lemma split_sign_show_nat [simp]:
  "split_sign (show_nat n) = (False, 0, show_nat n)"
  "dropWhile isspace (show_nat n) = show_nat n" "takeWhile isspace (show_nat n) = []"
  using show_nat_hd [of n] show_nat_nonempty [of n]
  by (cases "show_nat n"; simp add: split_sign_def)+

text \<open>Printing a length and reading it back with \<^verbatim>\<open>strtoul\<close>, which is how a Content-Length
  travels.\<close>

lemma strtoul_show_nat: "n \<le> ULONG_MAX \<Longrightarrow> strtoul (show_nat n) 10 = (n, length (show_nat n))"
proof -
  have h: "hex_prefix 10 (show_nat n) = 0"
    by (simp add: hex_prefix_def split: list.splits)
  assume "n \<le> ULONG_MAX"
  with h show ?thesis
    by (simp add: strtoul_def strto_digits_show_nat)
qed

lemma strtoul_bound: "fst (strtoul s base) \<le> ULONG_MAX"
proof -
  have "(2 ^ 64 - v) mod 2 ^ 64 \<le> ULONG_MAX" for v :: nat
    using mod_less_divisor [of "2 ^ 64" "2 ^ 64 - v"] by simp
  then show ?thesis
    by (auto simp: strtoul_def Let_def split: prod.splits)
qed

end
