(* ===== verification/Transport.thy ===== *)
theory Transport
  imports Prelude
begin

text \<open>
  The byte-stream interface \<^verbatim>\<open>ITransportStream\<close> (\<^verbatim>\<open>src/transport/itransport_stream.h\<close>) and its
  TCP implementation (\<^verbatim>\<open>src/transport/tcp_transport.cpp\<close>).

  A stream is the record of what its environment will do and of what has been done to it: the
  outcomes of the successive socket reads still to come, the outcomes of the writes still to
  come, the bytes written so far, whether the write side was shut down, the decoded header list
  the transport will hand out (HTTP/3 only) and the header blocks sent.  An asynchronous operation
  whose callback never fires (the peer stays silent) is \<open>None\<close>.
\<close>

section \<open>Error codes and read/write outcomes\<close>

datatype asio_error =
    Eof | Connection_reset | Broken_pipe | Not_connected | Invalid_argument
  | Operation_not_supported | Not_found | Host_unreachable | Message_size
  | Operation_aborted | Other_error nat

text \<open>\<^verbatim>\<open>asio::error_code\<close>: \<open>None\<close> is success.\<close>

type_synonym error_code = "asio_error option"
type_synonym header_list = "(string \<times> string) list"

text \<open>One completed socket read: some bytes (\<open>RdData []\<close> is a successful read of 0 bytes, the
  end of a QUIC stream) or an error.\<close>

datatype rd = RdData string | RdErr asio_error

text \<open>One completed composed write: everything, or an error after some bytes.\<close>

datatype wr = WrOk | WrErr asio_error nat

datatype take_outcome = TakeErr asio_error | TakeHeaders header_list | TakeNever

record tstream =
  ts_in :: "rd list"
  ts_wr :: "wr list"
  ts_out :: string
  ts_shut :: bool
  ts_take :: "take_outcome option"
  ts_hdr_ok :: "error_code option"
  ts_hdrs :: "header_list list"

definition fresh_stream :: "rd list \<Rightarrow> tstream" where
  "fresh_stream q = \<lparr>ts_in = q, ts_wr = [], ts_out = [], ts_shut = False, ts_take = None,
     ts_hdr_ok = None, ts_hdrs = []\<rparr>"

datatype transport_protocol = TCP | QUIC

section \<open>Operations\<close>

text \<open>\<^verbatim>\<open>async_read_some\<close> with a buffer of \<open>cap\<close> bytes: what does not fit stays readable.\<close>

definition async_read_some :: "nat \<Rightarrow> tstream \<Rightarrow> ((error_code \<times> string) \<times> tstream) option" where
  "async_read_some cap s = (case ts_in s of
      [] \<Rightarrow> None
    | RdErr e # q \<Rightarrow> Some ((Some e, []), s\<lparr>ts_in := q\<rparr>)
    | RdData bs # q \<Rightarrow>
        Some ((None, take cap bs),
              s\<lparr>ts_in := (if length bs \<le> cap then q else RdData (drop cap bs) # q)\<rparr>))"

text \<open>\<^verbatim>\<open>async_write_some\<close> is \<^verbatim>\<open>asio::async_write\<close>: it completes when the whole buffer is out.
  A socket whose write side is shut down refuses with a broken pipe.\<close>

definition async_write_some :: "string \<Rightarrow> tstream \<Rightarrow> (error_code \<times> nat) \<times> tstream" where
  "async_write_some bs s =
     (if ts_shut s then ((Some Broken_pipe, 0), s)
      else case ts_wr s of
        WrErr e n # q \<Rightarrow>
          ((Some e, min n (length bs)), s\<lparr>ts_wr := q, ts_out := ts_out s @ take n bs\<rparr>)
      | WrOk # q \<Rightarrow> ((None, length bs), s\<lparr>ts_wr := q, ts_out := ts_out s @ bs\<rparr>)
      | [] \<Rightarrow> ((None, length bs), s\<lparr>ts_out := ts_out s @ bs\<rparr>))"

text \<open>\<^verbatim>\<open>TcpTransportStream::async_shutdown\<close>: \<open>sys\<close> is what \<^verbatim>\<open>shutdown(2)\<close> reported.\<close>

definition async_shutdown :: "error_code \<Rightarrow> tstream \<Rightarrow> error_code \<times> tstream" where
  "async_shutdown sys s =
     (if sys = Some Not_connected then None else sys, s\<lparr>ts_shut := True\<rparr>)"

text \<open>\<^verbatim>\<open>async_take_headers\<close>: \<open>None\<close> is the base implementation's \<^verbatim>\<open>return false\<close>.\<close>

definition async_take_headers :: "tstream \<Rightarrow> take_outcome option" where
  "async_take_headers s = ts_take s"

text \<open>\<^verbatim>\<open>async_send_headers\<close>: \<open>None\<close> is \<^verbatim>\<open>return false\<close>; otherwise the callback's error code.\<close>

definition async_send_headers :: "header_list \<Rightarrow> tstream \<Rightarrow> (error_code \<times> tstream) option" where
  "async_send_headers hs s = (case ts_hdr_ok s of
      None \<Rightarrow> None
    | Some None \<Rightarrow> Some (None, s\<lparr>ts_hdrs := ts_hdrs s @ [hs]\<rparr>)
    | Some (Some e) \<Rightarrow> Some (Some e, s))"

section \<open>What a stream still delivers\<close>

text \<open>The bytes that arrive before the first error or zero-length read, and whether everything
  that will arrive is data.\<close>

fun in_bytes :: "rd list \<Rightarrow> string" where
  "in_bytes [] = []"
| "in_bytes (RdData bs # q) = (if bs = [] then [] else bs @ in_bytes q)"
| "in_bytes (RdErr e # q) = []"

text \<open>Every fragmentation of a byte string into non-empty reads, followed by \<open>tail\<close>.\<close>

definition fragments :: "string list \<Rightarrow> rd list" where
  "fragments fs = map RdData fs"

fun rd_size :: "rd \<Rightarrow> nat" where
  "rd_size (RdData bs) = Suc (length bs)"
| "rd_size (RdErr e) = 1"

definition in_size :: "tstream \<Rightarrow> nat" where
  "in_size s = sum_list (map rd_size (ts_in s))"

definition writable :: "tstream \<Rightarrow> bool" where
  "writable s \<longleftrightarrow> ts_wr s = [] \<and> \<not> ts_shut s"

section \<open>Facts\<close>

lemma async_read_some_in_size:
  "async_read_some cap s = Some (r, s') \<Longrightarrow> 0 < cap \<Longrightarrow> in_size s' < in_size s"
  by (auto simp: async_read_some_def in_size_def split: list.splits rd.splits if_splits)

lemma async_read_some_frame:
  "async_read_some cap s = Some (r, s') \<Longrightarrow> \<exists>q. s' = s\<lparr>ts_in := q\<rparr>"
  by (auto simp: async_read_some_def split: list.splits rd.splits)

lemma async_read_some_length:
  "async_read_some cap s = Some ((ec, bs), s') \<Longrightarrow> length bs \<le> cap"
  by (auto simp: async_read_some_def split: list.splits rd.splits)

lemma async_read_some_data:
  assumes "in_bytes (ts_in s) \<noteq> []" "0 < cap"
  shows "\<exists>bs s'. async_read_some cap s = Some ((None, bs), s') \<and> bs \<noteq> [] \<and> length bs \<le> cap
           \<and> in_bytes (ts_in s) = bs @ in_bytes (ts_in s')"
proof (cases "ts_in s")
  case Nil
  with assms show ?thesis by simp
next
  case (Cons x q)
  show ?thesis
  proof (cases x)
    case (RdData bs)
    with assms Cons have "bs \<noteq> []" by (auto split: if_splits)
    moreover have "drop cap bs \<noteq> []" if "\<not> length bs \<le> cap" using that by simp
    ultimately show ?thesis
      using assms(2) Cons RdData by (auto simp: async_read_some_def)
  next
    case (RdErr e)
    with assms Cons show ?thesis by simp
  qed
qed

lemma in_bytes_fragments:
  "[] \<notin> set fs \<Longrightarrow> in_bytes (fragments fs @ q) = concat fs @ in_bytes q"
  by (induction fs) (auto simp: fragments_def)

lemma async_write_some_writable:
  "writable s \<Longrightarrow> async_write_some bs s = ((None, length bs), s\<lparr>ts_out := ts_out s @ bs\<rparr>)"
  by (simp add: async_write_some_def writable_def)

lemma writable_upd [simp]: "writable (s\<lparr>ts_out := x\<rparr>) = writable s"
  by (simp add: writable_def)

text \<open>Whatever the outcome, a write only appends a prefix of its buffer, and all of it exactly
  when no error is reported.\<close>

lemma async_write_some_prefix:
  assumes "async_write_some bs s = ((ec, n), s')"
  shows "\<exists>k. ts_out s' = ts_out s @ take k bs \<and> (ec = None \<longrightarrow> take k bs = bs)"
proof (cases "ts_shut s")
  case True
  with assms have "ts_out s' = ts_out s @ take 0 bs" "ec \<noteq> None"
    by (auto simp: async_write_some_def)
  then show ?thesis by blast
next
  case False
  show ?thesis
  proof (cases "ts_wr s")
    case Nil
    with assms False have "ts_out s' = ts_out s @ take (length bs) bs"
      by (auto simp: async_write_some_def)
    then show ?thesis by (metis order_refl take_all)
  next
    case (Cons w q)
    show ?thesis
    proof (cases w)
      case WrOk
      with assms False Cons have "ts_out s' = ts_out s @ take (length bs) bs"
        by (auto simp: async_write_some_def)
      then show ?thesis by (metis order_refl take_all)
    next
      case (WrErr e m)
      with assms False Cons show ?thesis
        by (auto simp: async_write_some_def)
    qed
  qed
qed

end
