(* ===== verification/Http_Message.thy ===== *)
theory Http_Message
  imports Transport
begin

text \<open>
  The protocol-independent HTTP representation of \<^verbatim>\<open>src/codec/http_message.{h,cpp}\<close>: the
  case-insensitive ordered header map, the request and response heads, the three general body
  sources and the pump that copies a body source into a stream.

  The header map's laws are the locale \<open>header_store\<close> and the contract of a body source is
  the locale \<open>body_source_contract\<close>; both are interpreted on the definitions below.  The pump is
  verified once, inside \<open>body_source_contract\<close>, for every source that meets the contract.
\<close>

section \<open>HeaderMap\<close>

text \<open>The state of a \<^verbatim>\<open>HeaderMap\<close> is its insertion-ordered entry list.\<close>

type_synonym header_map = "(string \<times> string) list"

definition hm_add :: "string \<Rightarrow> string \<Rightarrow> header_map \<Rightarrow> header_map" where
  "hm_add k v h = h @ [(k, v)]"

definition hm_remove :: "string \<Rightarrow> header_map \<Rightarrow> header_map" where
  "hm_remove k h = filter (\<lambda>e. lower (fst e) \<noteq> lower k) h"

definition hm_set :: "string \<Rightarrow> string \<Rightarrow> header_map \<Rightarrow> header_map" where
  "hm_set k v h = hm_add k v (hm_remove k h)"

fun hm_get :: "string \<Rightarrow> header_map \<Rightarrow> string option" where
  "hm_get k [] = None"
| "hm_get k ((k', v) # h) = (if lower k' = lower k then Some v else hm_get k h)"

definition hm_get_all :: "string \<Rightarrow> header_map \<Rightarrow> string list" where
  "hm_get_all k h = map snd (filter (\<lambda>e. lower (fst e) = lower k) h)"

definition wire_line :: "string \<times> string \<Rightarrow> string" where
  "wire_line e = fst e @ '': '' @ snd e @ CRLF"

definition hm_to_wire :: "header_map \<Rightarrow> string" where
  "hm_to_wire h = concat (map wire_line h)"

section \<open>Heads and status codes\<close>

datatype http_status = OK | BadRequest | NotFound | BadGateway | ServiceUnavailable

fun status_code :: "http_status \<Rightarrow> int" where
  "status_code OK = 200"
| "status_code BadRequest = 400"
| "status_code NotFound = 404"
| "status_code BadGateway = 502"
| "status_code ServiceUnavailable = 503"

fun status_reason :: "http_status \<Rightarrow> string" where
  "status_reason OK = ''OK''"
| "status_reason BadRequest = ''Bad Request''"
| "status_reason NotFound = ''Not Found''"
| "status_reason BadGateway = ''Bad Gateway''"
| "status_reason ServiceUnavailable = ''Service Unavailable''"

definition make_error_response :: "http_status \<Rightarrow> string \<Rightarrow> string" where
  "make_error_response st body =
     ''HTTP/1.1 '' @ show_int (status_code st) @ '' '' @ status_reason st
     @ CRLF @ ''Content-Type: text/plain'' @ CRLF @ ''Content-Length: ''
     @ show_nat (length body) @ CRLF2 @ body"

record request_head =
  rq_method :: string
  rq_version :: string
  rq_path :: string
  rq_scheme :: string
  rq_authority :: string
  rq_absolute_target :: bool
  rq_headers :: header_map
  rq_content_length :: "nat option"

definition empty_request_head :: request_head where
  "empty_request_head = \<lparr>rq_method = [], rq_version = ''HTTP/1.1'', rq_path = [], rq_scheme = [],
     rq_authority = [], rq_absolute_target = False, rq_headers = [], rq_content_length = None\<rparr>"

record response_head =
  rs_status :: int
  rs_reason :: string
  rs_version :: string
  rs_headers :: header_map
  rs_content_length :: "nat option"

definition empty_response_head :: response_head where
  "empty_response_head = \<lparr>rs_status = 0, rs_reason = [], rs_version = ''HTTP/1.1'',
     rs_headers = [], rs_content_length = None\<rparr>"

definition to_h1_head :: "response_head \<Rightarrow> string" where
  "to_h1_head h = ''HTTP/1.1 '' @ show_int (rs_status h) @ '' '' @ rs_reason h @ CRLF
     @ hm_to_wire (rs_headers h) @ CRLF"

section \<open>Body sources\<close>

text \<open>\<^verbatim>\<open>StreamBodySource\<close>: the state is \<^verbatim>\<open>remaining_\<close> and the stream it reads.\<close>

definition stream_body_read ::
  "nat \<Rightarrow> nat \<times> tstream \<Rightarrow> ((error_code \<times> string) \<times> (nat \<times> tstream)) option" where
  "stream_body_read cap st = (case st of (remaining, s) \<Rightarrow>
     if remaining = 0 then Some ((None, []), (remaining, s))
     else case async_read_some (min cap remaining) s of
       None \<Rightarrow> None
     | Some ((Some e, bs), s') \<Rightarrow> Some ((Some e, bs), (remaining, s'))
     | Some ((None, bs), s') \<Rightarrow>
         (let n = min (length bs) remaining in
          Some ((None, take n bs), (remaining - n, s'))))"

text \<open>\<^verbatim>\<open>BufferBodySource\<close>: the state is \<^verbatim>\<open>data_\<close> and \<^verbatim>\<open>read_pos_\<close>.\<close>

definition buffer_body_read ::
  "nat \<Rightarrow> string \<times> nat \<Rightarrow> ((error_code \<times> string) \<times> (string \<times> nat)) option" where
  "buffer_body_read cap st = (case st of (dat, pos) \<Rightarrow>
     (let n = min cap (length dat - pos) in
      Some ((None, take n (drop pos dat)), (dat, pos + n))))"

text \<open>\<^verbatim>\<open>StreamEofBodySource\<close>: the state is the stream.\<close>

definition stream_eof_body_read ::
  "nat \<Rightarrow> tstream \<Rightarrow> ((error_code \<times> string) \<times> tstream) option" where
  "stream_eof_body_read cap s = (case async_read_some cap s of
       None \<Rightarrow> None
     | Some ((ec, bs), s') \<Rightarrow>
         if ec = Some Eof then Some ((None, []), s')
         else if ec \<noteq> None then Some ((ec, []), s')
         else Some ((None, bs), s'))"

text \<open>A \<^verbatim>\<open>BodySourcePtr\<close> to one of them; the stream a source reads is passed beside it.\<close>

datatype body_source =
    StreamBodySource nat
  | BufferBodySource string nat
  | StreamEofBodySource

fun bs_content_length :: "body_source \<Rightarrow> nat option" where
  "bs_content_length (StreamBodySource remaining) = Some remaining"
| "bs_content_length (BufferBodySource dat pos) = Some (length dat)"
| "bs_content_length StreamEofBodySource = None"

fun body_read ::
  "nat \<Rightarrow> body_source \<times> tstream \<Rightarrow> ((error_code \<times> string) \<times> (body_source \<times> tstream)) option"
where
  "body_read cap (StreamBodySource r, s) =
     map_option (\<lambda>(res, (r', s')). (res, (StreamBodySource r', s'))) (stream_body_read cap (r, s))"
| "body_read cap (BufferBodySource d p, s) =
     map_option (\<lambda>(res, (d', p')). (res, (BufferBodySource d' p', s))) (buffer_body_read cap (d, p))"
| "body_read cap (StreamEofBodySource, s) =
     map_option (\<lambda>(res, s'). (res, (StreamEofBodySource, s'))) (stream_eof_body_read cap s)"

section \<open>The pump\<close>

text \<open>\<^verbatim>\<open>pump_body_to_stream\<close>: read up to 8192 bytes, write them, repeat until the source reports
  an error or 0 bytes.  \<open>rd\<close> is the source's virtual \<^verbatim>\<open>async_read_some\<close>; \<open>None\<close> is a pump
  whose callback never fires.\<close>

partial_function (option) pump_body ::
  "(nat \<Rightarrow> 's \<Rightarrow> ((error_code \<times> string) \<times> 's) option) \<Rightarrow> 's \<Rightarrow> tstream
     \<Rightarrow> (error_code \<times> 's \<times> tstream) option" where
  "pump_body rd src dst = (case rd 8192 src of
       None \<Rightarrow> None
     | Some ((ec, bs), src') \<Rightarrow>
         if ec \<noteq> None \<or> bs = [] then Some (ec, src', dst)
         else (case async_write_some bs dst of ((wec, n), dst') \<Rightarrow>
                 if wec \<noteq> None then Some (wec, src', dst')
                 else pump_body rd src' dst'))"

section \<open>The header map's contract\<close>

locale header_store =
  fixes get :: "string \<Rightarrow> 'h \<Rightarrow> string option"
    and add :: "string \<Rightarrow> string \<Rightarrow> 'h \<Rightarrow> 'h"
    and remove :: "string \<Rightarrow> 'h \<Rightarrow> 'h"
    and put :: "string \<Rightarrow> string \<Rightarrow> 'h \<Rightarrow> 'h"
    and norm :: "string \<Rightarrow> string"
  assumes get_add: "get k (add k' v h) =
      (case get k h of Some x \<Rightarrow> Some x | None \<Rightarrow> if norm k' = norm k then Some v else None)"
    and get_remove: "get k (remove k' h) = (if norm k' = norm k then None else get k h)"
    and put_add: "put k v h = add k v (remove k h)"
begin

lemma get_put: "get k (put k' v h) = (if norm k' = norm k then Some v else get k h)"
  by (simp add: put_add get_add get_remove split: option.splits)

lemma get_put_put: "get k (put k' v (put k' w h)) = get k (put k' v h)"
  by (simp add: get_put)

lemma get_cong: "norm k = norm k' \<Longrightarrow> get k (put k2 v h) = get k' (put k2 v h) \<longleftrightarrow>
    norm k2 = norm k \<or> get k h = get k' h"
  by (auto simp: get_put)

end

lemma hm_get_add:
  "hm_get k (hm_add k' v h) =
     (case hm_get k h of Some x \<Rightarrow> Some x | None \<Rightarrow> if lower k' = lower k then Some v else None)"
  by (induction h) (auto simp: hm_add_def)

lemma hm_get_remove:
  "hm_get k (hm_remove k' h) = (if lower k' = lower k then None else hm_get k h)"
  by (induction h) (auto simp: hm_remove_def)

interpretation hm: header_store hm_get hm_add hm_remove hm_set lower
  by unfold_locales (auto simp: hm_get_add hm_get_remove hm_set_def)

lemma hm_get_lower: "lower k = lower k' \<Longrightarrow> hm_get k h = hm_get k' h"
  by (induction h) auto

lemma hm_get_all_hd: "hm_get k h = (case hm_get_all k h of [] \<Rightarrow> None | v # _ \<Rightarrow> Some v)"
  by (induction h) (auto simp: hm_get_all_def)

section \<open>The contract of a body source\<close>

text \<open>\<open>owes s content rest\<close> says that a source in state \<open>s\<close> still has to deliver \<open>content\<close> and
  that \<open>rest\<close> follows the body on its stream; \<open>left s\<close> is what its stream still holds.  A read
  returns a prefix of the content, 0 bytes only when the content is exhausted, and then the stream
  is left exactly at \<open>rest\<close>.\<close>

locale body_source_contract =
  fixes rd :: "nat \<Rightarrow> 's \<Rightarrow> ((error_code \<times> string) \<times> 's) option"
    and owes :: "'s \<Rightarrow> string \<Rightarrow> string \<Rightarrow> bool"
    and left :: "'s \<Rightarrow> string"
  assumes rd_owes: "owes s content rest \<Longrightarrow> 0 < cap \<Longrightarrow>
      \<exists>bs s'. rd cap s = Some ((None, bs), s') \<and> length bs \<le> cap \<and>
        (if bs = [] then content = [] \<and> left s' = rest
         else \<exists>content'. content = bs @ content' \<and> owes s' content' rest)"
begin

lemma pump_content:
  assumes "owes s content rest" "writable dst"
  shows "\<exists>s'. pump_body rd s dst = Some (None, s', dst\<lparr>ts_out := ts_out dst @ content\<rparr>)
           \<and> left s' = rest"
  using assms
proof (induction "length content" arbitrary: content s dst rule: less_induct)
  case less
  from rd_owes [OF less.prems(1), of 8192] obtain bs s' where
    rd: "rd 8192 s = Some ((None, bs), s')" and
    bs: "if bs = [] then content = [] \<and> left s' = rest
         else \<exists>content'. content = bs @ content' \<and> owes s' content' rest"
    by auto
  show ?case
  proof (cases "bs = []")
    case True
    with rd bs show ?thesis by (subst pump_body.simps) simp
  next
    case False
    with bs obtain content' where s': "content = bs @ content'" "owes s' content' rest" by auto
    let ?dst = "dst\<lparr>ts_out := ts_out dst @ bs\<rparr>"
    have "\<exists>s''. pump_body rd s' ?dst = Some (None, s'', ?dst\<lparr>ts_out := ts_out ?dst @ content'\<rparr>)
        \<and> left s'' = rest"
      using s' False less.prems(2) by (intro less.hyps) auto
    moreover have "pump_body rd s dst = pump_body rd s' ?dst"
      using rd False less.prems(2)
      by (subst pump_body.simps) (simp add: async_write_some_writable)
    ultimately show ?thesis using s'(1) by auto
  qed
qed

text \<open>Whatever the destination does, what reaches it is a prefix of the body, and the whole body
  unless an error is reported.\<close>

lemma pump_prefix:
  assumes "owes s content rest"
  shows "\<exists>ec s' dst' k. pump_body rd s dst = Some (ec, s', dst') \<and>
           ts_out dst' = ts_out dst @ take k content \<and> (ec = None \<longrightarrow> length content \<le> k)"
  using assms
proof (induction "length content" arbitrary: content s dst rule: less_induct)
  case less
  from rd_owes [OF less.prems, of 8192] obtain bs s' where
    rd: "rd 8192 s = Some ((None, bs), s')" and
    bs: "if bs = [] then content = [] \<and> left s' = rest
         else \<exists>content'. content = bs @ content' \<and> owes s' content' rest"
    by auto
  show ?case
  proof (cases "bs = []")
    case True
    with rd have "pump_body rd s dst = Some (None, s', dst)"
      by (subst pump_body.simps) simp
    moreover from True bs have "content = []" by simp
    ultimately show ?thesis by simp
  next
    case False
    with bs obtain content' where s': "content = bs @ content'" "owes s' content' rest" by auto
    obtain wec n dst1 where w: "async_write_some bs dst = ((wec, n), dst1)"
      by (metis prod.exhaust)
    from async_write_some_prefix [OF w] obtain k where
      k: "ts_out dst1 = ts_out dst @ take k bs" "wec = None \<Longrightarrow> take k bs = bs" by auto
    have p: "pump_body rd s dst = (if wec \<noteq> None then Some (wec, s', dst1) else pump_body rd s' dst1)"
      using rd False w by (subst pump_body.simps) simp
    show ?thesis
    proof (cases wec)
      case (Some e)
      have "take k bs = take (min k (length bs)) content"
        by (simp add: s'(1) min_def)
      with Some k(1) p show ?thesis by auto
    next
      case None
      have "\<exists>ec s'' dst' j. pump_body rd s' dst1 = Some (ec, s'', dst') \<and>
          ts_out dst' = ts_out dst1 @ take j content' \<and> (ec = None \<longrightarrow> length content' \<le> j)"
        using s' False by (intro less.hyps) auto
      then obtain ec s'' dst' j where j: "pump_body rd s' dst1 = Some (ec, s'', dst')"
        "ts_out dst' = ts_out dst1 @ take j content'" "ec = None \<longrightarrow> length content' \<le> j"
        by blast
      have "ts_out dst' = ts_out dst @ take (length bs + j) content"
        using k None j(2) s'(1) by simp
      moreover from j(3) have "ec = None \<longrightarrow> length content \<le> length bs + j"
        by (simp add: s'(1))
      moreover from p None j(1) have "pump_body rd s dst = Some (ec, s'', dst')" by simp
      ultimately show ?thesis by blast
    qed
  qed
qed

end

section \<open>The three sources meet the contract\<close>

fun buffer_owes :: "string \<times> nat \<Rightarrow> string \<Rightarrow> string \<Rightarrow> bool" where
  "buffer_owes (dat, pos) content rest \<longleftrightarrow> pos \<le> length dat \<and> content = drop pos dat \<and> rest = []"

fun stream_owes :: "nat \<times> tstream \<Rightarrow> string \<Rightarrow> string \<Rightarrow> bool" where
  "stream_owes (remaining, s) content rest \<longleftrightarrow>
     in_bytes (ts_in s) = content @ rest \<and> remaining = length content"

fun ends_clean :: "rd list \<Rightarrow> bool" where
  "ends_clean [] = False"
| "ends_clean (RdData bs # q) = (bs = [] \<or> ends_clean q)"
| "ends_clean (RdErr e # q) = (e = Eof)"

fun after_end :: "rd list \<Rightarrow> rd list" where
  "after_end [] = []"
| "after_end (RdData bs # q) = (if bs = [] then q else after_end q)"
| "after_end (RdErr e # q) = q"

definition eof_owes :: "tstream \<Rightarrow> string \<Rightarrow> string \<Rightarrow> bool" where
  "eof_owes s content rest \<longleftrightarrow> ends_clean (ts_in s) \<and> content = in_bytes (ts_in s)
     \<and> rest = in_bytes (after_end (ts_in s))"

interpretation buffer_src: body_source_contract buffer_body_read buffer_owes "\<lambda>_. []"
proof
  fix s :: "string \<times> nat" and content rest :: string and cap :: nat
  assume "buffer_owes s content rest" "0 < cap"
  then show "\<exists>bs s'. buffer_body_read cap s = Some ((None, bs), s') \<and> length bs \<le> cap \<and>
      (if bs = [] then content = [] \<and> [] = rest
       else \<exists>content'. content = bs @ content' \<and> buffer_owes s' content' rest)"
    by (cases s) (auto simp: buffer_body_read_def Let_def min_def take_drop_append)
qed

interpretation stream_src:
  body_source_contract stream_body_read stream_owes "\<lambda>st. in_bytes (ts_in (snd st))"
proof
  fix st :: "nat \<times> tstream" and content rest :: string and cap :: nat
  assume owes: "stream_owes st content rest" and cap: "0 < cap"
  obtain r s where st: "st = (r, s)" by (cases st)
  with owes have in_s: "in_bytes (ts_in s) = content @ rest" and r: "r = length content" by auto
  show "\<exists>bs s'. stream_body_read cap st = Some ((None, bs), s') \<and> length bs \<le> cap \<and>
      (if bs = [] then content = [] \<and> in_bytes (ts_in (snd s')) = rest
       else \<exists>content'. content = bs @ content' \<and> stream_owes s' content' rest)"
  proof (cases "content = []")
    case True
    then show ?thesis using in_s by (simp add: st r stream_body_read_def)
  next
    case False
    with in_s have "in_bytes (ts_in s) \<noteq> []" by simp
    from async_read_some_data [OF this, of "min cap r"] cap False r obtain bs s' where
      rd: "async_read_some (min cap r) s = Some ((None, bs), s')" "bs \<noteq> []" "length bs \<le> min cap r"
        "in_bytes (ts_in s) = bs @ in_bytes (ts_in s')"
      by auto
    have c: "content = bs @ drop (length bs) content"
      "in_bytes (ts_in s') = drop (length bs) content @ rest"
      using append_prefix_split [of content rest bs "in_bytes (ts_in s')"] rd(3,4) in_s r by auto
    have "min (length bs) r = length bs" using rd(3) by simp
    then have "stream_body_read cap st = Some ((None, bs), (r - length bs, s'))"
      using rd(1) False r by (simp add: st stream_body_read_def Let_def)
    then show ?thesis using rd(2,3) c r by auto
  qed
qed

interpretation eof_src:
  body_source_contract stream_eof_body_read eof_owes "\<lambda>s. in_bytes (ts_in s)"
proof
  fix s :: tstream and content rest :: string and cap :: nat
  assume owes: "eof_owes s content rest" and cap: "0 < cap"
  then obtain x q where q: "ts_in s = x # q" by (cases "ts_in s") (auto simp: eof_owes_def)
  show "\<exists>bs s'. stream_eof_body_read cap s = Some ((None, bs), s') \<and> length bs \<le> cap \<and>
      (if bs = [] then content = [] \<and> in_bytes (ts_in s') = rest
       else \<exists>content'. content = bs @ content' \<and> eof_owes s' content' rest)"
    using owes cap q
    by (cases x) (auto simp: eof_owes_def stream_eof_body_read_def async_read_some_def)
qed

section \<open>Properties\<close>

text \<open>A header map is a case-insensitive map under \<^verbatim>\<open>set\<close> and \<^verbatim>\<open>get\<close>: after
  \<^verbatim>\<open>set(k', v)\<close> every spelling of \<open>k'\<close> reads \<open>v\<close>, every other key is untouched, exactly one
  entry of that name is left and \<^verbatim>\<open>remove\<close> takes all of them away.\<close>

theorem header_map_set_get:
  "hm_get k (hm_set k' v h) = (if lower k' = lower k then Some v else hm_get k h) \<and>
   hm_get_all k (hm_set k' v h) = (if lower k' = lower k then [v] else hm_get_all k h) \<and>
   hm_get_all k' (hm_remove k' h) = []"
proof (intro conjI)
  show "hm_get k (hm_set k' v h) = (if lower k' = lower k then Some v else hm_get k h)"
    by (rule hm.get_put)
  have "filter (\<lambda>e. lower (fst e) = lower k) (filter (\<lambda>e. lower (fst e) \<noteq> lower k') h) =
      (if lower k' = lower k then [] else filter (\<lambda>e. lower (fst e) = lower k) h)"
    by (induction h) auto
  then show "hm_get_all k (hm_set k' v h) = (if lower k' = lower k then [v] else hm_get_all k h)"
    by (auto simp: hm_get_all_def hm_set_def hm_add_def hm_remove_def)
  show "hm_get_all k' (hm_remove k' h) = []"
    by (induction h) (auto simp: hm_get_all_def hm_remove_def)
qed

end
