(* ===== verification/H1_Codec.thy ===== *)
theory H1_Codec
  imports Http_Message
begin

text \<open>
  The HTTP/1.1 codec, \<^verbatim>\<open>src/codec/h1_codec.{h,cpp}\<close>: the chunked transfer decoder, the
  keep-alive decision, the request and response header parsers with the selection of the body
  source, and the two serialisers.

  One point of the source needs a parameter.  \<^verbatim>\<open>ChunkedBodySource::read_line_byte\<close> reads into a
  local array but its completion handler examines a copy of that array captured before the read
  was started, so the byte it looks at is indeterminate.  \<open>seen s c\<close> stands for that byte, when
  the read was made in stream state \<open>s\<close> (different for every call, since reading consumes) and
  delivered \<open>c\<close>.  The handler would see what was received exactly if \<open>seen s c = c\<close>.
\<close>

type_synonym seen_byte = "tstream \<Rightarrow> char \<Rightarrow> char"

section \<open>Chunked transfer coding\<close>

record chunked =
  ck_remaining :: nat
  ck_finished :: bool

definition new_chunked :: chunked where
  "new_chunked = \<lparr>ck_remaining = 0, ck_finished = False\<rparr>"

function read_line_byte :: "seen_byte \<Rightarrow> string \<Rightarrow> tstream \<Rightarrow> (bool \<times> string \<times> tstream) option" where
  "read_line_byte seen line s = (case async_read_some 1 s of
       None \<Rightarrow> None
     | Some ((ec, bs), s') \<Rightarrow>
         if ec \<noteq> None \<or> bs = [] then Some (False, line, s')
         else (let b = seen s (hd bs) in
               if b = LF then Some (True, line, s')
               else read_line_byte seen (if b \<noteq> CR then line @ [b] else line) s'))"
  by pat_completeness auto
termination
  by (relation "measure (\<lambda>(seen, line, s). in_size s)") (auto dest: async_read_some_in_size)

declare read_line_byte.simps [simp del]

definition read_line :: "seen_byte \<Rightarrow> tstream \<Rightarrow> (bool \<times> string \<times> tstream) option" where
  "read_line seen s = read_line_byte seen [] s"

lemma read_line_byte_in_size:
  "read_line_byte seen line s = Some (True, l, s') \<Longrightarrow> in_size s' < in_size s"
proof (induction seen line s rule: read_line_byte.induct)
  case (1 seen line s)
  from "1.prems" obtain ec bs s1 where rd: "async_read_some 1 s = Some ((ec, bs), s1)"
    by (subst (asm) read_line_byte.simps) (auto split: option.splits)
  then have lt: "in_size s1 < in_size s"
    by (rule async_read_some_in_size) simp
  show ?case
    using "1.prems" "1.IH" [OF rd refl refl _ refl] rd lt
    by (fastforce simp: read_line_byte.simps [of seen line s] Let_def split: if_splits)
qed

function read_trailers :: "seen_byte \<Rightarrow> tstream \<Rightarrow> (bool \<times> tstream) option" where
  "read_trailers seen s = (case read_line seen s of
       None \<Rightarrow> None
     | Some (ok, line, s') \<Rightarrow>
         if \<not> ok then Some (False, s')
         else if line = [] then Some (True, s')
         else read_trailers seen s')"
  by pat_completeness auto
termination
  by (relation "measure (\<lambda>(seen, s). in_size s)")
    (auto simp: read_line_def dest: read_line_byte_in_size)

declare read_trailers.simps [simp del]

function read_exact :: "nat \<Rightarrow> tstream \<Rightarrow> (bool \<times> tstream) option" where
  "read_exact count s = (case async_read_some (min count 64) s of
       None \<Rightarrow> None
     | Some ((ec, bs), s') \<Rightarrow>
         if ec \<noteq> None \<or> bs = [] then Some (False, s')
         else if length bs \<ge> count then Some (True, s')
         else read_exact (count - length bs) s')"
  by pat_completeness auto
termination
  by (relation "measure (\<lambda>(count, s). count)") auto

declare read_exact.simps [simp del]

definition skip_crlf :: "tstream \<Rightarrow> (bool \<times> tstream) option" where
  "skip_crlf s = read_exact 2 s"

type_synonym 'a body_result = "((error_code \<times> string) \<times> 'a) option"

definition read_chunk_payload :: "nat \<Rightarrow> chunked \<times> tstream \<Rightarrow> (chunked \<times> tstream) body_result" where
  "read_chunk_payload cap st = (case st of (c, s) \<Rightarrow>
     (case async_read_some (min cap (ck_remaining c)) s of
        None \<Rightarrow> None
      | Some ((ec, bs), s') \<Rightarrow>
          if ec \<noteq> None then Some ((ec, []), (c\<lparr>ck_finished := True\<rparr>, s'))
          else (let c' = c\<lparr>ck_remaining := ck_remaining c - length bs\<rparr> in
                if ck_remaining c' = 0 then
                  (case skip_crlf s' of
                     None \<Rightarrow> None
                   | Some (ok, s'') \<Rightarrow>
                       if \<not> ok then Some ((Some Eof, []), (c'\<lparr>ck_finished := True\<rparr>, s''))
                       else Some ((None, bs), (c', s'')))
                else Some ((None, bs), (c', s')))))"

definition cut_extension :: "string \<Rightarrow> string" where
  "cut_extension line = (case find_char (CHR '';'') line of
      Some semi \<Rightarrow> take semi line | None \<Rightarrow> line)"

definition read_size_line ::
  "seen_byte \<Rightarrow> nat \<Rightarrow> chunked \<times> tstream \<Rightarrow> (chunked \<times> tstream) body_result" where
  "read_size_line seen cap st = (case st of (c, s) \<Rightarrow>
     (case read_line seen s of
        None \<Rightarrow> None
      | Some (ok, line, s') \<Rightarrow>
          if \<not> ok then Some ((Some Eof, []), (c\<lparr>ck_finished := True\<rparr>, s'))
          else (let (sz, endp) = strtoul (cut_extension line) 16 in
                if endp = 0 then Some ((Some Invalid_argument, []), (c\<lparr>ck_finished := True\<rparr>, s'))
                else if sz = 0 then
                  (case read_trailers seen s' of
                     None \<Rightarrow> None
                   | Some (ok', s'') \<Rightarrow>
                       Some ((if ok' then None else Some Eof, []),
                             (c\<lparr>ck_remaining := 0, ck_finished := True\<rparr>, s'')))
                else read_chunk_payload cap (c\<lparr>ck_remaining := sz\<rparr>, s'))))"

definition chunked_read ::
  "seen_byte \<Rightarrow> nat \<Rightarrow> chunked \<times> tstream \<Rightarrow> (chunked \<times> tstream) body_result" where
  "chunked_read seen cap st =
     (if ck_finished (fst st) then Some ((None, []), st)
      else if ck_remaining (fst st) = 0 then read_size_line seen cap st
      else read_chunk_payload cap st)"

text \<open>A \<^verbatim>\<open>BodySourcePtr\<close> produced by this codec.\<close>

datatype h1_body = Basic body_source | ChunkedBodySource chunked

fun h1_body_read ::
  "seen_byte \<Rightarrow> nat \<Rightarrow> h1_body \<times> tstream \<Rightarrow> (h1_body \<times> tstream) body_result" where
  "h1_body_read seen cap (Basic b, s) =
     map_option (\<lambda>(res, (b', s')). (res, (Basic b', s'))) (body_read cap (b, s))"
| "h1_body_read seen cap (ChunkedBodySource c, s) =
     map_option (\<lambda>(res, (c', s')). (res, (ChunkedBodySource c', s'))) (chunked_read seen cap (c, s))"

section \<open>Keep-alive\<close>

definition version_keeps_alive :: "string \<Rightarrow> bool" where
  "version_keeps_alive version \<longleftrightarrow> \<not> starts_with ''HTTP/1.0'' version"

definition header_says_close :: "header_map \<Rightarrow> bool" where
  "header_says_close hdrs = (case hm_get ''connection'' hdrs of
      Some c \<Rightarrow> contains ''close'' c | None \<Rightarrow> False)"

definition header_says_keep_alive :: "header_map \<Rightarrow> bool" where
  "header_says_keep_alive hdrs = (case hm_get ''connection'' hdrs of
      Some c \<Rightarrow> contains ''keep-alive'' c | None \<Rightarrow> False)"

definition compute_keep_alive :: "header_map \<Rightarrow> string \<Rightarrow> bool" where
  "compute_keep_alive hdrs version =
     (let ka = version_keeps_alive version in
      if header_says_close hdrs then False
      else if header_says_keep_alive hdrs then True else ka)"

definition wire_h1_version :: "string \<Rightarrow> string" where
  "wire_h1_version v = (if starts_with ''HTTP/1.'' v then v else ''HTTP/1.1'')"

section \<open>Parsing a header block\<close>

text \<open>The header loop, the same text in \<^verbatim>\<open>parse_header_block\<close> and \<^verbatim>\<open>parse_response_block\<close>.\<close>

function parse_headers :: "string \<Rightarrow> header_map \<Rightarrow> header_map" where
  "parse_headers iss hdrs = (case getline iss of
       None \<Rightarrow> hdrs
     | Some (line0, iss') \<Rightarrow>
         (let line = pop_cr line0 in
          if line = [] then hdrs
          else case find_char (CHR '':'') line of
            None \<Rightarrow> parse_headers iss' hdrs
          | Some colon \<Rightarrow>
              parse_headers iss'
                (hm_add (take colon line) (trim_leading (drop (colon + 1) line)) hdrs)))"
  by pat_completeness auto
termination
  by (relation "measure (\<lambda>(iss, hdrs). length iss)") (auto dest: length_getline)

declare parse_headers.simps [simp del]

definition content_length_of :: "header_map \<Rightarrow> nat option" where
  "content_length_of hdrs =
     map_option (\<lambda>cl. fst (strtoul cl 10)) (hm_get ''content-length'' hdrs)"

text \<open>An absolute-form request target, split into scheme, authority and origin-form path.\<close>

definition split_absolute :: "string \<Rightarrow> (string \<times> string \<times> string) option" where
  "split_absolute path = (case find_str ''://'' path of
       None \<Rightarrow> None
     | Some p \<Rightarrow>
         if p = 0 then None
         else (let scheme = take p path; rest = drop (p + 3) path in
               case find_char (CHR ''/'') rest of
                 None \<Rightarrow> Some (lower scheme, rest, ''/'')
               | Some slash \<Rightarrow> Some (lower scheme, take slash rest, drop slash rest)))"

definition parse_header_block :: "string \<Rightarrow> string + request_head" where
  "parse_header_block raw = (case getline raw of
       None \<Rightarrow> Inl ''empty request''
     | Some (line0, iss) \<Rightarrow>
         if line0 = [] then Inl ''empty request''
         else
           (let line = pop_cr line0;
                (meth, rl1) = extract_word line;
                (path, rl2) = extract_word rl1;
                (version, _) = extract_word rl2 in
            if meth = [] \<or> path = [] then Inl (''bad request line: '' @ line)
            else
              (let hdrs = parse_headers iss [] in
               case split_absolute path of
                 Some (scheme, authority, p) \<Rightarrow>
                   Inr \<lparr>rq_method = meth, rq_version = version, rq_path = p, rq_scheme = scheme,
                     rq_authority = authority, rq_absolute_target = True, rq_headers = hdrs,
                     rq_content_length = content_length_of hdrs\<rparr>
               | None \<Rightarrow>
                   Inr \<lparr>rq_method = meth, rq_version = version, rq_path = path,
                     rq_scheme = ''http'',
                     rq_authority = (case hm_get ''host'' hdrs of Some h \<Rightarrow> h | None \<Rightarrow> []),
                     rq_absolute_target = False, rq_headers = hdrs,
                     rq_content_length = content_length_of hdrs\<rparr>)))"

text \<open>A failed extraction of the status code leaves the line stream failed, so the reason stays
  empty.\<close>

definition parse_response_block :: "string \<Rightarrow> string + response_head" where
  "parse_response_block raw = (case getline raw of
       None \<Rightarrow> Inl ''empty response''
     | Some (line0, iss) \<Rightarrow>
         if line0 = [] then Inl ''empty response''
         else
           (let line = pop_cr line0;
                (version, rl1) = extract_word line;
                (status, good, rl2) =
                  (if version = [] then (0, False, []) else extract_int rl1) in
            if status \<le> 0 then Inl (''bad status line: '' @ line)
            else
              (let reason = (if good then
                               (case getline rl2 of Some (r, _) \<Rightarrow> trim_leading r | None \<Rightarrow> [])
                             else []);
                   hdrs = parse_headers iss [] in
               Inr \<lparr>rs_status = status, rs_reason = reason, rs_version = version,
                 rs_headers = hdrs, rs_content_length = content_length_of hdrs\<rparr>)))"

section \<open>Reading a head from a stream\<close>

text \<open>The read loop of \<^verbatim>\<open>read_header_block\<close> and \<^verbatim>\<open>read_response_header\<close>: 4096 bytes at a time
  until the buffer holds a blank line.\<close>

function fill_header_buf ::
  "string \<Rightarrow> tstream \<Rightarrow> ((asio_error + string \<times> nat) \<times> tstream) option" where
  "fill_header_buf buf s = (case async_read_some 4096 s of
       None \<Rightarrow> None
     | Some ((Some e, bs), s') \<Rightarrow> Some (Inl e, s')
     | Some ((None, bs), s') \<Rightarrow>
         if bs = [] then Some (Inl Eof, s')
         else (case find_str CRLF2 (buf @ bs) of
                 None \<Rightarrow> fill_header_buf (buf @ bs) s'
               | Some pos \<Rightarrow> Some (Inr (buf @ bs, pos), s')))"
  by pat_completeness auto
termination
  by (relation "measure (\<lambda>(buf, s). in_size s)") (auto dest: async_read_some_in_size)

declare fill_header_buf.simps [simp del]

type_synonym 'h parsed = "asio_error + 'h \<times> h1_body option \<times> bool"

text \<open>The Content-Length branch, the same text in both readers.\<close>

definition sized_body :: "nat \<Rightarrow> string \<Rightarrow> h1_body option" where
  "sized_body len body_prefix =
     (if body_prefix \<noteq> [] then
        (let prefix_len = min (length body_prefix) len; remaining = len - prefix_len in
         if remaining = 0 then Some (Basic (BufferBodySource (take prefix_len body_prefix) 0))
         else Some (Basic (StreamBodySource remaining)))
      else if len > 0 then Some (Basic (StreamBodySource len))
      else None)"

definition read_header_block ::
  "string \<Rightarrow> tstream \<Rightarrow> (request_head parsed \<times> tstream) option" where
  "read_header_block buf0 s = (case fill_header_buf buf0 s of
       None \<Rightarrow> None
     | Some (Inl e, s') \<Rightarrow> Some (Inl e, s')
     | Some (Inr (buf, pos), s') \<Rightarrow>
         (let raw = take (pos + 4) buf; body_prefix = drop (pos + 4) buf in
          case parse_header_block raw of
            Inl err \<Rightarrow> Some (Inl Invalid_argument, s')
          | Inr head \<Rightarrow>
              (let body_src = (case rq_content_length head of
                                 Some len \<Rightarrow> sized_body len body_prefix | None \<Rightarrow> None);
                   keep_alive = compute_keep_alive (rq_headers head) (rq_version head) in
               Some (Inr (head, body_src, keep_alive), s'))))"

definition h1_parse_request :: "tstream \<Rightarrow> (request_head parsed \<times> tstream) option" where
  "h1_parse_request s = read_header_block [] s"

definition read_response_header ::
  "string \<Rightarrow> tstream \<Rightarrow> (response_head parsed \<times> tstream) option" where
  "read_response_header buf0 s = (case fill_header_buf buf0 s of
       None \<Rightarrow> None
     | Some (Inl e, s') \<Rightarrow> Some (Inl e, s')
     | Some (Inr (buf, pos), s') \<Rightarrow>
         (let raw = take (pos + 4) buf; body_prefix = drop (pos + 4) buf in
          case parse_response_block raw of
            Inl err \<Rightarrow> Some (Inl Invalid_argument, s')
          | Inr head \<Rightarrow>
              (let (body_src, close_delimited) =
                 (if rs_status head div 100 = 1 \<or> rs_status head = 204 \<or> rs_status head = 304
                  then (None, False)
                  else if (case hm_get ''transfer-encoding'' (rs_headers head) of
                             Some te \<Rightarrow> contains ''chunked'' te | None \<Rightarrow> False)
                  then (Some (ChunkedBodySource new_chunked), False)
                  else case rs_content_length head of
                    Some len \<Rightarrow> (sized_body len body_prefix, False)
                  | None \<Rightarrow> (Some (Basic StreamEofBodySource), True));
                   keep_alive = compute_keep_alive (rs_headers head) (rs_version head) in
               Some (Inr (head, body_src, keep_alive \<and> \<not> close_delimited), s'))))"

definition h1_parse_response :: "tstream \<Rightarrow> (response_head parsed \<times> tstream) option" where
  "h1_parse_response s = read_response_header [] s"

section \<open>Writing\<close>

definition request_wire :: "request_head \<Rightarrow> string" where
  "request_wire head = rq_method head @ '' '' @ rq_path head @ '' ''
     @ wire_h1_version (rq_version head) @ CRLF @ hm_to_wire (rq_headers head) @ CRLF"

definition response_wire :: "response_head \<Rightarrow> string" where
  "response_wire head = wire_h1_version (rs_version head) @ '' '' @ show_int (rs_status head) @ '' ''
     @ rs_reason head @ CRLF @ hm_to_wire (rs_headers head) @ CRLF"

text \<open>Write the head in one composed write, then pump the body when there is one.  The body source
  reads \<open>src\<close>, the head and body go to \<open>dst\<close>.\<close>

definition write_message ::
  "seen_byte \<Rightarrow> string \<Rightarrow> h1_body option \<Rightarrow> tstream \<Rightarrow> tstream
     \<Rightarrow> (error_code \<times> tstream \<times> tstream) option" where
  "write_message seen head_wire body src dst =
     (case async_write_some head_wire dst of ((ec, n), dst') \<Rightarrow>
        (case body of
           None \<Rightarrow> Some (ec, src, dst')
         | Some b \<Rightarrow>
             if ec \<noteq> None then Some (ec, src, dst')
             else map_option (\<lambda>(ec', (b', src'), dst''). (ec', src', dst''))
                    (pump_body (h1_body_read seen) (b, src) dst')))"

definition h1_write_request ::
  "seen_byte \<Rightarrow> request_head \<Rightarrow> h1_body option \<Rightarrow> tstream \<Rightarrow> tstream
     \<Rightarrow> (error_code \<times> tstream \<times> tstream) option" where
  "h1_write_request seen head body src dst = write_message seen (request_wire head) body src dst"

definition h1_write_response ::
  "seen_byte \<Rightarrow> response_head \<Rightarrow> h1_body option \<Rightarrow> tstream \<Rightarrow> tstream
     \<Rightarrow> (error_code \<times> tstream \<times> tstream) option" where
  "h1_write_response seen head body src dst = write_message seen (response_wire head) body src dst"

section \<open>Reading a head: any fragmentation\<close>

lemma fill_header_buf_found:
  assumes "find_str CRLF2 (buf @ in_bytes (ts_in s)) = Some pos" "find_str CRLF2 buf = None"
  shows "\<exists>b s'. fill_header_buf buf s = Some (Inr (b, pos), s') \<and> find_str CRLF2 b = Some pos
           \<and> b @ in_bytes (ts_in s') = buf @ in_bytes (ts_in s)"
  using assms
proof (induction "in_size s" arbitrary: buf s rule: less_induct)
  case less
  from less.prems have "in_bytes (ts_in s) \<noteq> []" by auto
  from async_read_some_data [OF this, of 4096] obtain bs s' where
    rd: "async_read_some 4096 s = Some ((None, bs), s')" "bs \<noteq> []"
      "in_bytes (ts_in s) = bs @ in_bytes (ts_in s')"
    by auto
  have step: "fill_header_buf buf s = (case find_str CRLF2 (buf @ bs) of
      None \<Rightarrow> fill_header_buf (buf @ bs) s' | Some pos \<Rightarrow> Some (Inr (buf @ bs, pos), s'))"
    using rd by (simp add: fill_header_buf.simps [of buf s])
  show ?case
  proof (cases "find_str CRLF2 (buf @ bs)")
    case None
    moreover from rd(1) have "in_size s' < in_size s"
      by (rule async_read_some_in_size) simp
    ultimately show ?thesis
      using less.hyps [of s' "buf @ bs"] less.prems(1) rd(3) step by simp
  next
    case (Some p)
    from find_str_append_left [OF this, of "in_bytes (ts_in s')"] less.prems(1) rd(3)
    have "p = pos" by simp
    with Some step rd(3) show ?thesis by simp
  qed
qed

lemma fill_header_buf_error:
  assumes "[] \<notin> set fs" "find_str CRLF2 (buf @ concat fs) = None" "ts_in s = fragments fs @ RdErr e # q"
  shows "\<exists>s'. fill_header_buf buf s = Some (Inl e, s') \<and> ts_in s' = q"
  using assms
proof (induction "in_size s" arbitrary: buf fs s rule: less_induct)
  case less
  show ?case
  proof (cases fs)
    case Nil
    with less.prems show ?thesis
      by (simp add: fragments_def fill_header_buf.simps [of buf s] async_read_some_def)
  next
    case (Cons f fs')
    let ?bs = "take 4096 f"
    let ?fs = "if length f \<le> 4096 then fs' else drop 4096 f # fs'"
    obtain s' where rd: "async_read_some 4096 s = Some ((None, ?bs), s')"
      and s': "ts_in s' = fragments ?fs @ RdErr e # q"
      using less.prems Cons by (simp add: fragments_def async_read_some_def)
    have fs: "[] \<notin> set ?fs" "concat fs = ?bs @ concat ?fs" "?bs \<noteq> []"
      using less.prems(1) Cons by auto
    have none: "find_str CRLF2 (buf @ ?bs) = None"
    proof (rule ccontr)
      assume "find_str CRLF2 (buf @ ?bs) \<noteq> None"
      then obtain p where "find_str CRLF2 (buf @ ?bs) = Some p" by auto
      from find_str_append_left [OF this, of "concat ?fs"] fs(2) less.prems(2)
      show False by simp
    qed
    have "fill_header_buf buf s = fill_header_buf (buf @ ?bs) s'"
      using rd none fs(3) by (simp add: fill_header_buf.simps [of buf s])
    moreover from rd have "in_size s' < in_size s" by (rule async_read_some_in_size) simp
    then have "\<exists>s''. fill_header_buf (buf @ ?bs) s' = Some (Inl e, s'') \<and> ts_in s'' = q"
      using less.prems(2) fs(2) by (intro less.hyps [OF _ fs(1) _ s']) auto
    ultimately show ?thesis by simp
  qed
qed

section \<open>The chunked grammar\<close>

text \<open>What a chunked body looks like on the wire (RFC 9112 section 7.1, as far as the decoder reads
  it): size lines with optional extensions, data of that size, and a trailer section.\<close>

definition size_line :: "string \<Rightarrow> nat \<Rightarrow> bool" where
  "size_line l n \<longleftrightarrow> LF \<notin> set l \<and> CR \<notin> set l \<and> fst (strtoul (cut_extension l) 16) = n
     \<and> snd (strtoul (cut_extension l) 16) \<noteq> 0"

inductive trailer_section :: "string \<Rightarrow> bool" where
  trailer_end: "trailer_section CRLF"
| trailer_line: "LF \<notin> set l \<Longrightarrow> CR \<notin> set l \<Longrightarrow> l \<noteq> [] \<Longrightarrow> trailer_section t
     \<Longrightarrow> trailer_section (l @ CRLF @ t)"

inductive chunked_wire :: "string \<Rightarrow> string \<Rightarrow> bool" where
  last_chunk: "size_line l 0 \<Longrightarrow> trailer_section t \<Longrightarrow> chunked_wire (l @ CRLF @ t) []"
| data_chunk: "size_line l (length d) \<Longrightarrow> d \<noteq> [] \<Longrightarrow> chunked_wire w c
     \<Longrightarrow> chunked_wire (l @ CRLF @ d @ CRLF @ w) (d @ c)"

fun chunked_owes :: "chunked \<times> tstream \<Rightarrow> string \<Rightarrow> string \<Rightarrow> bool" where
  "chunked_owes (c, s) content rest \<longleftrightarrow>
     (if ck_finished c then content = [] \<and> in_bytes (ts_in s) = rest
      else if ck_remaining c = 0 then
        (\<exists>w. in_bytes (ts_in s) = w @ rest \<and> chunked_wire w content)
      else (\<exists>d w content'. length d = ck_remaining c \<and> content = d @ content'
              \<and> in_bytes (ts_in s) = d @ CRLF @ w @ rest \<and> chunked_wire w content'))"

definition faithful :: "seen_byte \<Rightarrow> bool" where
  "faithful seen \<longleftrightarrow> (\<forall>s c. seen s c = c)"

lemma faithfulD: "faithful seen \<Longrightarrow> seen s c = c"
  by (simp add: faithful_def)

lemma read_line_byte_line:
  assumes "faithful seen" "in_bytes (ts_in s) = l @ LF # t" "LF \<notin> set l"
  shows "\<exists>s'. read_line_byte seen acc s = Some (True, acc @ filter (\<lambda>c. c \<noteq> CR) l, s')
           \<and> in_bytes (ts_in s') = t"
  using assms
proof (induction l arbitrary: acc s)
  case Nil
  from async_read_some_data [of s 1] Nil.prems obtain bs s' where
    rd: "async_read_some 1 s = Some ((None, bs), s')" "bs \<noteq> []" "length bs \<le> 1"
      "in_bytes (ts_in s) = bs @ in_bytes (ts_in s')"
    by auto
  then have "bs = [LF]" "in_bytes (ts_in s') = t"
    using Nil.prems by (cases bs; simp)+
  with rd faithfulD [OF Nil.prems(1), of s LF] show ?case
    by (simp add: read_line_byte.simps [of seen acc s])
next
  case (Cons x l)
  from async_read_some_data [of s 1] Cons.prems obtain bs s' where
    rd: "async_read_some 1 s = Some ((None, bs), s')" "bs \<noteq> []" "length bs \<le> 1"
      "in_bytes (ts_in s) = bs @ in_bytes (ts_in s')"
    by auto
  then have bs: "bs = [x]" "in_bytes (ts_in s') = l @ LF # t"
    using Cons.prems by (cases bs; simp)+
  have "read_line_byte seen acc s = read_line_byte seen (if x \<noteq> CR then acc @ [x] else acc) s'"
    using rd bs Cons.prems(3) faithfulD [OF Cons.prems(1), of s x]
    by (auto simp: read_line_byte.simps [of seen acc s])
  with Cons.IH [OF Cons.prems(1) bs(2), of "if x \<noteq> CR then acc @ [x] else acc"] Cons.prems(3)
  show ?case by auto
qed

lemma read_line_crlf:
  assumes "faithful seen" "in_bytes (ts_in s) = l @ CRLF @ t" "LF \<notin> set l" "CR \<notin> set l"
  shows "\<exists>s'. read_line seen s = Some (True, l, s') \<and> in_bytes (ts_in s') = t"
proof -
  have "filter (\<lambda>c. c \<noteq> CR) (l @ [CR]) = l"
    using assms(4) by (induction l) auto
  with read_line_byte_line [OF assms(1), of s "l @ [CR]" t "[]"] assms(2,3)
  show ?thesis by (simp add: read_line_def)
qed

lemma read_exact_drop:
  assumes "0 < count" "count \<le> length (in_bytes (ts_in s))"
  shows "\<exists>s'. read_exact count s = Some (True, s') \<and> in_bytes (ts_in s') = drop count (in_bytes (ts_in s))"
  using assms
proof (induction count arbitrary: s rule: less_induct)
  case (less count)
  from less.prems have "in_bytes (ts_in s) \<noteq> []" by auto
  from async_read_some_data [OF this, of "min count 64"] less.prems obtain bs s' where
    rd: "async_read_some (min count 64) s = Some ((None, bs), s')" "bs \<noteq> []" "length bs \<le> count"
      "in_bytes (ts_in s) = bs @ in_bytes (ts_in s')"
    by auto
  show ?case
  proof (cases "length bs = count")
    case True
    with rd show ?thesis by (auto simp: read_exact.simps [of count s])
  next
    case False
    with rd have "read_exact count s = read_exact (count - length bs) s'"
      by (simp add: read_exact.simps [of count s])
    moreover have "\<exists>s''. read_exact (count - length bs) s' = Some (True, s'')
        \<and> in_bytes (ts_in s'') = drop (count - length bs) (in_bytes (ts_in s'))"
      using less.prems rd False by (intro less.IH) auto
    ultimately show ?thesis using rd(3,4) by simp
  qed
qed

lemma skip_crlf_ok:
  "in_bytes (ts_in s) = CRLF @ t \<Longrightarrow> \<exists>s'. skip_crlf s = Some (True, s') \<and> in_bytes (ts_in s') = t"
  using read_exact_drop [of 2 s] by (simp add: skip_crlf_def)

lemma read_trailers_ok:
  assumes "trailer_section t" "faithful seen" "in_bytes (ts_in s) = t @ rest"
  shows "\<exists>s'. read_trailers seen s = Some (True, s') \<and> in_bytes (ts_in s') = rest"
  using assms
proof (induction arbitrary: s rule: trailer_section.induct)
  case trailer_end
  from read_line_crlf [OF trailer_end(1), of s "[]" rest] trailer_end(2)
  show ?case by (auto simp: read_trailers.simps [of seen s])
next
  case (trailer_line l t)
  from read_line_crlf [OF trailer_line.prems(1), of s l "t @ rest"] trailer_line.prems(2) trailer_line.hyps
  obtain s' where s': "read_line seen s = Some (True, l, s')" "in_bytes (ts_in s') = t @ rest"
    by auto
  from trailer_line.IH [OF trailer_line.prems(1) s'(2)] s'(1) trailer_line.hyps
  show ?case by (simp add: read_trailers.simps [of seen s])
qed

lemma read_chunk_payload_owes:
  assumes "0 < cap" "ck_remaining c \<noteq> 0" "\<not> ck_finished c" "chunked_owes (c, s) content rest"
  shows "\<exists>bs st'. read_chunk_payload cap (c, s) = Some ((None, bs), st') \<and> length bs \<le> cap \<and> bs \<noteq> []
           \<and> (\<exists>content'. content = bs @ content' \<and> chunked_owes st' content' rest)"
proof -
  from assms obtain d w cont where
    d: "length d = ck_remaining c" "content = d @ cont" "in_bytes (ts_in s) = d @ CRLF @ w @ rest"
      "chunked_wire w cont" by auto
  from d assms(2) have "in_bytes (ts_in s) \<noteq> []" by auto
  from async_read_some_data [OF this, of "min cap (ck_remaining c)"] assms(1,2) obtain bs s' where
    rd: "async_read_some (min cap (ck_remaining c)) s = Some ((None, bs), s')" "bs \<noteq> []"
      "length bs \<le> cap" "length bs \<le> ck_remaining c" "in_bytes (ts_in s) = bs @ in_bytes (ts_in s')"
    by auto
  have dd: "d = bs @ drop (length bs) d" "in_bytes (ts_in s') = drop (length bs) d @ CRLF @ w @ rest"
    using append_prefix_split [of d "CRLF @ w @ rest" bs "in_bytes (ts_in s')"] d rd(4,5) by auto
  show ?thesis
  proof (cases "length bs = ck_remaining c")
    case True
    with d(1) dd have "d = bs" "in_bytes (ts_in s') = CRLF @ w @ rest" by auto
    moreover from skip_crlf_ok [OF this(2)] obtain s'' where
      "skip_crlf s' = Some (True, s'')" "in_bytes (ts_in s'') = w @ rest" by auto
    ultimately show ?thesis
      using rd True assms(3) d by (auto simp: read_chunk_payload_def)
  next
    case False
    with rd(4) have lt: "length bs < ck_remaining c" by simp
    let ?c = "c\<lparr>ck_remaining := ck_remaining c - length bs\<rparr>"
    have "read_chunk_payload cap (c, s) = Some ((None, bs), (?c, s'))"
      using rd lt by (simp add: read_chunk_payload_def)
    moreover have "\<exists>d' w' cont'. length d' = ck_remaining ?c \<and> drop (length bs) d @ cont = d' @ cont'
        \<and> in_bytes (ts_in s') = d' @ CRLF @ w' @ rest \<and> chunked_wire w' cont'"
      using lt d(1,4) dd(2)
      by (rule_tac x = "drop (length bs) d" in exI, rule_tac x = w in exI,
          rule_tac x = cont in exI) simp
    then have "chunked_owes (?c, s') (drop (length bs) d @ cont) rest"
      using lt assms(3) by simp
    moreover have "content = bs @ drop (length bs) d @ cont"
      using dd(1) d(2) by (metis append.assoc)
    ultimately show ?thesis using rd(2,3) by blast
  qed
qed

lemma chunked_read_owes:
  assumes "faithful seen" "0 < cap" "chunked_owes st content rest"
  shows "\<exists>bs st'. chunked_read seen cap st = Some ((None, bs), st') \<and> length bs \<le> cap \<and>
      (if bs = [] then content = [] \<and> in_bytes (ts_in (snd st')) = rest
       else \<exists>content'. content = bs @ content' \<and> chunked_owes st' content' rest)"
proof -
  obtain c s where st: "st = (c, s)" by (cases st)
  consider "ck_finished c" | "\<not> ck_finished c" "ck_remaining c \<noteq> 0"
    | "\<not> ck_finished c" "ck_remaining c = 0" by blast
  then show ?thesis
  proof cases
    case 1
    with assms(3) show ?thesis by (simp add: st chunked_read_def)
  next
    case 2
    with read_chunk_payload_owes [OF assms(2) 2(2,1)] assms(3)
    show ?thesis by (fastforce simp: st chunked_read_def simp del: chunked_owes.simps)
  next
    case 3
    with assms(3) obtain w where w: "in_bytes (ts_in s) = w @ rest" "chunked_wire w content"
      by (auto simp: st)
    from w(2) show ?thesis
    proof cases
      case (last_chunk l t)
      with read_line_crlf [OF assms(1), of s l "t @ rest"] w obtain s' where
        s': "read_line seen s = Some (True, l, s')" "in_bytes (ts_in s') = t @ rest"
        by (auto simp: size_line_def)
      from read_trailers_ok [OF last_chunk(4) assms(1) s'(2)] obtain s'' where
        "read_trailers seen s' = Some (True, s'')" "in_bytes (ts_in s'') = rest" by auto
      with s' 3 last_chunk show ?thesis
        by (auto simp: st chunked_read_def read_size_line_def size_line_def split: prod.splits)
    next
      case (data_chunk l d w' c')
      with read_line_crlf [OF assms(1), of s l "d @ CRLF @ w' @ rest"] w obtain s' where
        s': "read_line seen s = Some (True, l, s')" "in_bytes (ts_in s') = d @ CRLF @ w' @ rest"
        by (auto simp: size_line_def)
      let ?c = "c\<lparr>ck_remaining := length d\<rparr>"
      have "chunked_read seen cap st = read_chunk_payload cap (?c, s')"
        using s' 3 data_chunk
        by (auto simp: st chunked_read_def read_size_line_def size_line_def split: prod.splits)
      moreover have "chunked_owes (?c, s') content rest"
        using s' 3 data_chunk by auto
      ultimately show ?thesis
        using read_chunk_payload_owes [OF assms(2), of ?c s' content rest] 3 data_chunk
        by (fastforce simp del: chunked_owes.simps)
    qed
  qed
qed

section \<open>Every body source of the codec meets the contract\<close>

fun h1_owes :: "seen_byte \<Rightarrow> h1_body \<times> tstream \<Rightarrow> string \<Rightarrow> string \<Rightarrow> bool" where
  "h1_owes seen (Basic (StreamBodySource r), s) content rest \<longleftrightarrow> stream_owes (r, s) content rest"
| "h1_owes seen (Basic (BufferBodySource d p), s) content rest \<longleftrightarrow>
     buffer_owes (d, p) content [] \<and> rest = in_bytes (ts_in s)"
| "h1_owes seen (Basic StreamEofBodySource, s) content rest \<longleftrightarrow> eof_owes s content rest"
| "h1_owes seen (ChunkedBodySource c, s) content rest \<longleftrightarrow>
     faithful seen \<and> chunked_owes (c, s) content rest"

interpretation h1_src:
  body_source_contract "h1_body_read seen" "h1_owes seen" "\<lambda>st. in_bytes (ts_in (snd st))"
  for seen :: seen_byte
proof
  fix st :: "h1_body \<times> tstream" and content rest :: string and cap :: nat
  assume owes: "h1_owes seen st content rest" and cap: "0 < cap"
  show "\<exists>bs s'. h1_body_read seen cap st = Some ((None, bs), s') \<and> length bs \<le> cap \<and>
      (if bs = [] then content = [] \<and> in_bytes (ts_in (snd s')) = rest
       else \<exists>content'. content = bs @ content' \<and> h1_owes seen s' content' rest)"
    using owes
  proof (induction seen st content rest rule: h1_owes.induct)
    case (1 seen r s content rest)
    from stream_src.rd_owes [of "(r, s)" content rest cap] 1 cap
    obtain bs r' s' where rd: "stream_body_read cap (r, s) = Some ((None, bs), (r', s'))" "length bs \<le> cap"
      "if bs = [] then content = [] \<and> in_bytes (ts_in s') = rest
       else \<exists>content'. content = bs @ content' \<and> stream_owes (r', s') content' rest"
      by (auto simp del: stream_owes.simps buffer_owes.simps chunked_owes.simps cong: if_cong)
    from rd(3) show ?case
      by (rule_tac x = bs in exI, rule_tac x = "(Basic (StreamBodySource r'), s')" in exI)
        (simp add: rd(1,2) del: stream_owes.simps)
  next
    case (2 seen d p s content rest)
    from buffer_src.rd_owes [of "(d, p)" content "[]" cap] 2 cap
    obtain bs d' p' where rd: "buffer_body_read cap (d, p) = Some ((None, bs), (d', p'))" "length bs \<le> cap"
      "if bs = [] then content = [] else \<exists>content'. content = bs @ content' \<and> buffer_owes (d', p') content' []"
      by (auto simp del: stream_owes.simps buffer_owes.simps chunked_owes.simps cong: if_cong)
    from rd(3) 2 show ?case
      by (rule_tac x = bs in exI, rule_tac x = "(Basic (BufferBodySource d' p'), s)" in exI)
        (simp add: rd(1,2) del: buffer_owes.simps)
  next
    case (3 seen s content rest)
    from eof_src.rd_owes [of s content rest cap] 3 cap
    obtain bs s' where rd: "stream_eof_body_read cap s = Some ((None, bs), s')" "length bs \<le> cap"
      "if bs = [] then content = [] \<and> in_bytes (ts_in s') = rest
       else \<exists>content'. content = bs @ content' \<and> eof_owes s' content' rest"
      by (auto simp del: stream_owes.simps buffer_owes.simps chunked_owes.simps cong: if_cong)
    from rd(3) show ?case
      by (rule_tac x = bs in exI, rule_tac x = "(Basic StreamEofBodySource, s')" in exI)
        (simp add: rd(1,2))
  next
    case (4 seen c s content rest)
    from 4 have f: "faithful seen" by simp
    from chunked_read_owes [OF f cap, of "(c, s)" content rest] 4
    obtain bs c' s' where rd: "chunked_read seen cap (c, s) = Some ((None, bs), (c', s'))" "length bs \<le> cap"
      "if bs = [] then content = [] \<and> in_bytes (ts_in s') = rest
       else \<exists>content'. content = bs @ content' \<and> chunked_owes (c', s') content' rest"
      by (auto simp del: stream_owes.simps buffer_owes.simps chunked_owes.simps cong: if_cong)
    from rd(3) f show ?case
      by (rule_tac x = bs in exI, rule_tac x = "(ChunkedBodySource c', s')" in exI)
        (simp add: rd(1,2) del: chunked_owes.simps)
  qed
qed

lemma write_message_body:
  assumes "h1_owes seen (b, src) content rest" "writable dst"
  shows "\<exists>src'. write_message seen wire (Some b) src dst =
            Some (None, src', dst\<lparr>ts_out := ts_out dst @ wire @ content\<rparr>) \<and> in_bytes (ts_in src') = rest"
proof -
  let ?dst = "dst\<lparr>ts_out := ts_out dst @ wire\<rparr>"
  from h1_src.pump_content [OF assms(1), of ?dst] assms(2) obtain st' where
    "pump_body (h1_body_read seen) (b, src) ?dst = Some (None, st', ?dst\<lparr>ts_out := ts_out ?dst @ content\<rparr>)"
    "in_bytes (ts_in (snd st')) = rest"
    by auto
  then show ?thesis
    using assms(2)
    by (cases st') (simp add: write_message_def async_write_some_writable)
qed

end
