(* ===== verification/H1_Properties.thy ===== *)
theory H1_Properties
  imports H1_Codec
begin

text \<open>
  What the HTTP/1.1 codec guarantees.  The interface \<open>head_syntax\<close> states the two laws a message
  syntax must have for the reader loop to work: printing and parsing a head round-trip, and the
  printed head contains its terminating blank line exactly at the end.  The reader is verified once
  against those laws, and both message kinds of the codec are shown to satisfy them.
\<close>

section \<open>Blank lines end a head exactly once\<close>

lemma starts_with_CRLF2_line:
  assumes "LF \<notin> set l" "j < length l"
  shows "\<not> starts_with CRLF2 (drop j (l @ CRLF @ w))"
proof (cases "Suc j < length l")
  case True
  then have "drop j l = l ! j # l ! Suc j # drop (Suc (Suc j)) l"
    by (simp add: Cons_nth_drop_Suc)
  moreover from True assms(1) have "l ! Suc j \<noteq> LF" by (metis nth_mem)
  ultimately show ?thesis using assms(2) by (simp add: starts_with_def)
next
  case False
  with assms(2) have "drop j l = [l ! j]"
    by (metis Cons_nth_drop_Suc Suc_lessI drop_all le_refl)
  then show ?thesis using assms(2) by (simp add: starts_with_def)
qed

lemma find_CRLF2_line:
  assumes "LF \<notin> set l" "\<not> starts_with CRLF w" "find_str CRLF2 w = Some p"
  shows "find_str CRLF2 (l @ CRLF @ w) = Some (length l + 2 + p)"
proof (rule find_strI)
  from find_str_Some [OF assms(3)] have p: "starts_with CRLF2 (drop p w)" "p \<le> length w"
    "\<forall>j < p. \<not> starts_with CRLF2 (drop j w)" by auto
  show "length l + 2 + p \<le> length (l @ CRLF @ w)" using p(2) by simp
  show "starts_with CRLF2 (drop (length l + 2 + p) (l @ CRLF @ w))" using p(1) by simp
  show "\<forall>j < length l + 2 + p. \<not> starts_with CRLF2 (drop j (l @ CRLF @ w))"
  proof (intro allI impI)
    fix j assume j: "j < length l + 2 + p"
    consider "j < length l" | "j = length l" | "j = length l + 1" | "length l + 2 \<le> j" by linarith
    then show "\<not> starts_with CRLF2 (drop j (l @ CRLF @ w))"
    proof cases
      case 1
      with assms(1) show ?thesis by (rule starts_with_CRLF2_line)
    next
      case 2
      with assms(2) show ?thesis by (simp add: starts_with_def)
    next
      case 3
      then show ?thesis by (simp add: starts_with_def)
    next
      case 4
      then obtain i where "j = length l + 2 + i" by (metis le_add_diff_inverse)
      with j p(3) show ?thesis by simp
    qed
  qed
qed

lemma find_CRLF2_last:
  assumes "LF \<notin> set l"
  shows "find_str CRLF2 (l @ CRLF2) = Some (length l)"
proof (rule find_strI)
  show "\<forall>j < length l. \<not> starts_with CRLF2 (drop j (l @ CRLF2))"
    using starts_with_CRLF2_line [OF assms, of _ CRLF] by simp
qed (simp_all add: starts_with_def)

lemma not_starts_CRLF: "l \<noteq> [] \<Longrightarrow> LF \<notin> set l \<Longrightarrow> \<not> starts_with CRLF (l @ CRLF @ w)"
  by (cases l; cases "tl l") (auto simp: starts_with_def)

definition lines_wire :: "string list \<Rightarrow> string" where
  "lines_wire ls = concat (map (\<lambda>l. l @ CRLF) ls) @ CRLF"

lemma find_CRLF2_lines:
  assumes "ls \<noteq> []" "\<forall>l \<in> set ls. l \<noteq> [] \<and> LF \<notin> set l"
  shows "find_str CRLF2 (lines_wire ls) = Some (length (lines_wire ls) - 4)"
  using assms
proof (induction ls)
  case (Cons l ls)
  show ?case
  proof (cases ls)
    case Nil
    with Cons.prems find_CRLF2_last [of l] show ?thesis by (simp add: lines_wire_def)
  next
    case (Cons l' ls')
    have "find_str CRLF2 (lines_wire ls) = Some (length (lines_wire ls) - 4)"
      using Cons.IH Cons Cons.prems by simp
    moreover have "\<not> starts_with CRLF (lines_wire ls)"
      using not_starts_CRLF [of l'] Cons Cons.prems by (simp add: lines_wire_def)
    ultimately have "find_str CRLF2 (l @ CRLF @ lines_wire ls) =
        Some (length l + 2 + (length (lines_wire ls) - 4))"
      using Cons.prems by (intro find_CRLF2_line) auto
    moreover have "4 \<le> length (lines_wire ls)"
      using Cons by (simp add: lines_wire_def)
    ultimately show ?thesis by (simp add: lines_wire_def)
  qed
qed simp

section \<open>Well-formed heads\<close>

definition wf_token :: "string \<Rightarrow> bool" where
  "wf_token w \<longleftrightarrow> w \<noteq> [] \<and> (\<forall>c \<in> set w. \<not> isspace c)"

definition wf_text :: "string \<Rightarrow> bool" where
  "wf_text v \<longleftrightarrow> v \<noteq> [] \<and> hd v \<noteq> SP \<and> hd v \<noteq> HT \<and> LF \<notin> set v"

definition wf_field :: "string \<times> string \<Rightarrow> bool" where
  "wf_field f \<longleftrightarrow> CHR '':'' \<notin> set (fst f) \<and> LF \<notin> set (fst f) \<and> wf_text (snd f)"

definition wf_request :: "request_head \<Rightarrow> bool" where
  "wf_request h \<longleftrightarrow> wf_token (rq_method h) \<and> wf_token (rq_path h) \<and> wf_token (rq_version h)
     \<and> starts_with ''HTTP/1.'' (rq_version h) \<and> list_all wf_field (rq_headers h)
     \<and> split_absolute (rq_path h) = None \<and> rq_scheme h = ''http''
     \<and> rq_authority h = (case hm_get ''host'' (rq_headers h) of Some a \<Rightarrow> a | None \<Rightarrow> [])
     \<and> \<not> rq_absolute_target h \<and> rq_content_length h = content_length_of (rq_headers h)"

definition wf_response :: "response_head \<Rightarrow> bool" where
  "wf_response h \<longleftrightarrow> wf_token (rs_version h) \<and> starts_with ''HTTP/1.'' (rs_version h)
     \<and> 0 < rs_status h \<and> rs_status h \<le> INT_MAX \<and> wf_text (rs_reason h)
     \<and> list_all wf_field (rs_headers h) \<and> rs_content_length h = content_length_of (rs_headers h)"

lemma wf_token_LF: "wf_token w \<Longrightarrow> LF \<notin> set w"
  by (auto simp: wf_token_def)

lemma trim_leading_wf: "wf_text v \<Longrightarrow> trim_leading (SP # v) = v"
  by (cases v) (auto simp: wf_text_def trim_leading_def)

section \<open>Header lines\<close>

lemma getline_all:
  assumes "l \<noteq> []" "LF \<notin> set l"
  shows "getline l = Some (l, [])"
proof -
  have "length (dropWhile (\<lambda>c. c \<noteq> LF) l) = 0"
    using assms(2) by (induction l) auto
  moreover have "takeWhile (\<lambda>c. c \<noteq> LF) l = l"
    using assms(2) by (induction l) auto
  ultimately show ?thesis using assms(1) by (simp add: getline_def del: length_0_conv)
qed

lemma getline_CRLF: "LF \<notin> set l \<Longrightarrow> getline (l @ CRLF @ w) = Some (l @ [CR], w)"
  using getline_append [of "l @ [CR]" w] by simp

lemma parse_headers_wire:
  "list_all wf_field h \<Longrightarrow> parse_headers (hm_to_wire h @ CRLF) acc = acc @ h"
proof (induction h arbitrary: acc)
  case Nil
  then show ?case
    by (simp add: hm_to_wire_def parse_headers.simps getline_CRLF [of "[]" "[]", simplified] pop_cr_def)
next
  case (Cons f h)
  obtain k v where f: "f = (k, v)" by (cases f)
  from Cons.prems f have wf: "CHR '':'' \<notin> set k" "LF \<notin> set (k @ '': '' @ v)" "wf_text v"
    by (auto simp: wf_field_def wf_text_def)
  have "find_char (CHR '':'') (k @ '': '' @ v) = Some (length k)"
    using wf(1) by (simp add: find_char_append)
  moreover have "getline (hm_to_wire (f # h) @ CRLF) =
      Some ((k @ '': '' @ v) @ [CR], hm_to_wire h @ CRLF)"
    using getline_CRLF [OF wf(2), of "hm_to_wire h @ CRLF"]
    by (simp add: hm_to_wire_def wire_line_def f)
  moreover have "pop_cr ((k @ '': '' @ v) @ [CR]) = k @ '': '' @ v" by (rule pop_cr_snoc)
  ultimately show ?case
    using Cons.IH [of "acc @ [f]"] Cons.prems trim_leading_wf [OF wf(3)]
    by (simp add: parse_headers.simps [of "hm_to_wire ((k, v) # h) @ CRLF"] hm_add_def f)
qed

definition field_line :: "string \<times> string \<Rightarrow> string" where
  "field_line f = fst f @ '': '' @ snd f"

lemma hm_to_wire_lines: "first @ CRLF @ hm_to_wire h @ CRLF = lines_wire (first # map field_line h)"
  by (induction h) (simp_all add: hm_to_wire_def wire_line_def lines_wire_def field_line_def)

lemma field_lines_ok:
  "list_all wf_field h \<Longrightarrow> \<forall>l \<in> set (map field_line h). l \<noteq> [] \<and> LF \<notin> set l"
  by (auto simp: list_all_iff wf_field_def wf_text_def field_line_def)

lemma head_boundary:
  assumes "first \<noteq> []" "LF \<notin> set first" "list_all wf_field h"
  shows "find_str CRLF2 (first @ CRLF @ hm_to_wire h @ CRLF) =
           Some (length (first @ CRLF @ hm_to_wire h @ CRLF) - 4)"
  unfolding hm_to_wire_lines
  using assms field_lines_ok [OF assms(3)] by (intro find_CRLF2_lines) auto

section \<open>Request heads\<close>

definition request_line :: "request_head \<Rightarrow> string" where
  "request_line h = rq_method h @ '' '' @ rq_path h @ '' '' @ rq_version h"

lemma request_wire_line:
  "wf_request h \<Longrightarrow>
   request_wire h = request_line h @ CRLF @ hm_to_wire (rq_headers h) @ CRLF"
  by (simp add: wf_request_def request_wire_def request_line_def wire_h1_version_def)

lemma request_line_ok: "wf_request h \<Longrightarrow> request_line h \<noteq> [] \<and> LF \<notin> set (request_line h)"
  by (auto simp: wf_request_def request_line_def dest: wf_token_LF)

lemma extract_words3:
  assumes "wf_token a" "wf_token b" "wf_token c"
  shows "extract_word (a @ '' '' @ b @ '' '' @ c) = (a, SP # b @ SP # c)"
    "extract_word (SP # b @ SP # c) = (b, SP # c)" "extract_word (SP # c) = (c, [])"
  using assms extract_word_append(1) [of a "b @ SP # c"] extract_word_append(3) [of b c]
    extract_word_append(4) [of c]
  by (simp_all add: wf_token_def)

lemma parse_request_wire:
  assumes "wf_request h"
  shows "parse_header_block (request_wire h) = Inr h"
proof -
  from assms have wf: "wf_token (rq_method h)" "wf_token (rq_path h)" "wf_token (rq_version h)"
    "list_all wf_field (rq_headers h)" "split_absolute (rq_path h) = None"
    by (auto simp: wf_request_def)
  have "getline (request_wire h) = Some (request_line h @ [CR], hm_to_wire (rq_headers h) @ CRLF)"
    using getline_CRLF request_line_ok [OF assms] request_wire_line [OF assms] by simp
  moreover have "extract_word (request_line h) = (rq_method h, SP # rq_path h @ SP # rq_version h)"
    using extract_words3(1) [OF wf(1-3)] by (simp add: request_line_def)
  ultimately show ?thesis
    using assms wf extract_words3(2,3) [OF wf(1-3)] parse_headers_wire [OF wf(4), of "[]"]
    by (simp add: parse_header_block_def wf_request_def wf_token_def Let_def)
qed

section \<open>Response heads\<close>

definition status_line :: "response_head \<Rightarrow> string" where
  "status_line h = rs_version h @ '' '' @ show_int (rs_status h) @ '' '' @ rs_reason h"

lemma response_wire_line:
  "wf_response h \<Longrightarrow>
   response_wire h = status_line h @ CRLF @ hm_to_wire (rs_headers h) @ CRLF"
  by (simp add: wf_response_def response_wire_def status_line_def wire_h1_version_def)

lemma show_nat_no_LF: "LF \<notin> set (show_nat n)"
  using show_nat_digits [of LF n] show_digit_props by metis

lemma status_line_ok: "wf_response h \<Longrightarrow> status_line h \<noteq> [] \<and> LF \<notin> set (status_line h)"
  by (auto simp: wf_response_def status_line_def wf_text_def show_int_def show_nat_no_LF
      dest: wf_token_LF)

lemma extract_int_show:
  assumes "0 < i" "i \<le> INT_MAX"
  shows "extract_int (SP # show_int i @ SP # t) = (i, True, SP # t)"
proof -
  let ?d = "show_nat (nat i)"
  have "strto_digits 10 0 (?d @ SP # t) = (nat i, length ?d)"
    using show_nat_digits [of _ "nat i"] digit_val_show_digit
    by (subst strto_digits_append) (fastforce simp: strto_digits_show_nat digit_val_def)+
  moreover have "split_sign (dropWhile isspace (SP # ?d @ SP # t)) = (False, 0, ?d @ SP # t)"
    using show_nat_hd [of "nat i"] by (cases ?d) (simp_all add: split_sign_def)
  ultimately show ?thesis
    using assms by (simp add: extract_int_def show_int_def)
qed

lemma parse_response_wire:
  assumes "wf_response h"
  shows "parse_response_block (response_wire h) = Inr h"
proof -
  from assms have wf: "wf_token (rs_version h)" "0 < rs_status h" "rs_status h \<le> INT_MAX"
    "wf_text (rs_reason h)" "list_all wf_field (rs_headers h)"
    by (auto simp: wf_response_def)
  let ?st = "show_int (rs_status h)"
  have "getline (response_wire h) = Some (status_line h @ [CR], hm_to_wire (rs_headers h) @ CRLF)"
    using getline_CRLF status_line_ok [OF assms] response_wire_line [OF assms] by simp
  moreover have "extract_word (status_line h) = (rs_version h, SP # ?st @ SP # rs_reason h)"
    using extract_word_append(1) [of "rs_version h" "?st @ SP # rs_reason h"] wf(1)
    by (simp add: status_line_def wf_token_def)
  moreover have "getline (SP # rs_reason h) = Some (SP # rs_reason h, [])"
    using wf(4) by (intro getline_all) (auto simp: wf_text_def)
  ultimately show ?thesis
    using assms wf(1,2) trim_leading_wf [OF wf(4)] extract_int_show [OF wf(2,3)]
      parse_headers_wire [OF wf(5), of "[]"]
    by (simp add: parse_response_block_def wf_response_def wf_token_def Let_def)
qed

section \<open>Reading a printed head\<close>

locale head_syntax =
  fixes wf :: "'h \<Rightarrow> bool" and print :: "'h \<Rightarrow> string" and parse :: "string \<Rightarrow> string + 'h"
  assumes parse_print: "wf h \<Longrightarrow> parse (print h) = Inr h"
    and blank_line: "wf h \<Longrightarrow> find_str CRLF2 (print h) = Some (length (print h) - 4)"
begin

lemma print_long: "wf h \<Longrightarrow> 4 \<le> length (print h)"
  using find_str_Some [OF blank_line] starts_with_lengthD by fastforce

lemma read_printed:
  assumes "wf h" "in_bytes (ts_in s) = print h @ rest"
  shows "\<exists>buf s'. fill_header_buf [] s = Some (Inr (buf, length (print h) - 4), s')
           \<and> take (length (print h)) buf = print h \<and> parse (take (length (print h)) buf) = Inr h
           \<and> drop (length (print h)) buf @ in_bytes (ts_in s') = rest"
proof -
  from find_str_append_left [OF blank_line [OF assms(1)], of rest] assms(2)
  have "find_str CRLF2 ([] @ in_bytes (ts_in s)) = Some (length (print h) - 4)" by simp
  from fill_header_buf_found [OF this] obtain buf s' where
    fill: "fill_header_buf [] s = Some (Inr (buf, length (print h) - 4), s')"
      "find_str CRLF2 buf = Some (length (print h) - 4)" "buf @ in_bytes (ts_in s') = print h @ rest"
    using assms(2) by (auto simp: find_str_None)
  have "length (print h) \<le> length buf"
    using find_str_Some [OF fill(2)] starts_with_lengthD print_long [OF assms(1)] by fastforce
  with fill(3) have "take (length (print h)) buf = print h"
    "drop (length (print h)) buf @ in_bytes (ts_in s') = rest"
    by (auto simp: append_eq_append_conv_if split: if_splits)
  with fill(1) parse_print [OF assms(1)] show ?thesis by auto
qed

end

interpretation rq_syntax: head_syntax wf_request request_wire parse_header_block
proof
  fix h assume wf: "wf_request h"
  then show "parse_header_block (request_wire h) = Inr h" by (rule parse_request_wire)
  show "find_str CRLF2 (request_wire h) = Some (length (request_wire h) - 4)"
    unfolding request_wire_line [OF wf]
    using request_line_ok [OF wf] wf by (intro head_boundary) (auto simp: wf_request_def)
qed

interpretation rs_syntax: head_syntax wf_response response_wire parse_response_block
proof
  fix h assume wf: "wf_response h"
  then show "parse_response_block (response_wire h) = Inr h" by (rule parse_response_wire)
  show "find_str CRLF2 (response_wire h) = Some (length (response_wire h) - 4)"
    unfolding response_wire_line [OF wf]
    using status_line_ok [OF wf] wf by (intro head_boundary) (auto simp: wf_response_def)
qed

section \<open>Body sources chosen by the readers\<close>

text \<open>\<open>pre\<close> is what the head reader happened to fetch beyond the blank line.  The source returned for
  a Content-Length body serves all of the body when nothing or everything of it was prefetched;
  otherwise it serves only what is still on the stream.\<close>

lemma sized_body_owes:
  assumes "pre @ in_bytes (ts_in s) = body @ rest" "body \<noteq> []"
  shows "\<exists>b. sized_body (length body) pre = Some b \<and>
           (if pre = [] then h1_owes seen (b, s) body rest
            else if length body \<le> length pre then h1_owes seen (b, s) body (in_bytes (ts_in s))
            else h1_owes seen (b, s) (drop (length pre) body) rest)"
proof -
  consider "pre = []" | "pre \<noteq> []" "length body \<le> length pre" | "pre \<noteq> []" "length pre < length body"
    by linarith
  then show ?thesis
  proof cases
    case 1
    with assms show ?thesis by (simp add: sized_body_def)
  next
    case 2
    with assms have "take (length body) pre = body"
      by (auto simp: append_eq_append_conv_if split: if_splits)
    with 2 show ?thesis by (simp add: sized_body_def Let_def)
  next
    case 3
    with assms have "in_bytes (ts_in s) = drop (length pre) body @ rest"
      by (auto simp: append_eq_append_conv_if split: if_splits)
    with 3 show ?thesis by (simp add: sized_body_def Let_def)
  qed
qed

lemma read_request_printed:
  assumes "wf_request h" "in_bytes (ts_in s) = request_wire h @ rest"
  shows "\<exists>pre s'. pre @ in_bytes (ts_in s') = rest \<and> h1_parse_request s =
           Some (Inr (h, (case rq_content_length h of Some len \<Rightarrow> sized_body len pre | None \<Rightarrow> None),
                      compute_keep_alive (rq_headers h) (rq_version h)), s')"
proof -
  from rq_syntax.read_printed [OF assms] obtain buf s' where
    "fill_header_buf [] s = Some (Inr (buf, length (request_wire h) - 4), s')"
    "parse_header_block (take (length (request_wire h)) buf) = Inr h"
    "drop (length (request_wire h)) buf @ in_bytes (ts_in s') = rest"
    by auto
  with rq_syntax.print_long [OF assms(1)] show ?thesis
    by (intro exI [of _ "drop (length (request_wire h)) buf"])
      (simp add: h1_parse_request_def read_header_block_def Let_def cong: option.case_cong)
qed

definition bodyless :: "response_head \<Rightarrow> bool" where
  "bodyless h \<longleftrightarrow> rs_status h div 100 = 1 \<or> rs_status h = 204 \<or> rs_status h = 304"

definition says_chunked :: "response_head \<Rightarrow> bool" where
  "says_chunked h \<longleftrightarrow> (\<exists>te. hm_get ''transfer-encoding'' (rs_headers h) = Some te \<and> contains ''chunked'' te)"

definition framing :: "response_head \<Rightarrow> string \<Rightarrow> h1_body option" where
  "framing h pre = (if bodyless h then None
     else if says_chunked h then Some (ChunkedBodySource new_chunked)
     else case rs_content_length h of
       Some len \<Rightarrow> sized_body len pre | None \<Rightarrow> Some (Basic StreamEofBodySource))"

definition close_delimited :: "response_head \<Rightarrow> bool" where
  "close_delimited h \<longleftrightarrow> \<not> bodyless h \<and> \<not> says_chunked h \<and> rs_content_length h = None"

lemma read_response_header_step:
  assumes "fill_header_buf buf0 s = Some (Inr (buf, pos), s')"
    "parse_response_block (take (pos + 4) buf) = Inr h"
  shows "read_response_header buf0 s = Some (Inr (h, framing h (drop (pos + 4) buf),
           compute_keep_alive (rs_headers h) (rs_version h) \<and> \<not> close_delimited h), s')"
  using assms
  by (auto simp: read_response_header_def Let_def framing_def close_delimited_def bodyless_def
      says_chunked_def split: option.splits)

lemma read_response_printed:
  assumes "wf_response h" "in_bytes (ts_in s) = response_wire h @ rest"
  shows "\<exists>pre s'. pre @ in_bytes (ts_in s') = rest \<and> h1_parse_response s =
           Some (Inr (h, framing h pre,
             compute_keep_alive (rs_headers h) (rs_version h) \<and> \<not> close_delimited h), s')"
proof -
  from rs_syntax.read_printed [OF assms] obtain buf s' where
    "fill_header_buf [] s = Some (Inr (buf, length (response_wire h) - 4), s')"
    "parse_response_block (take (length (response_wire h)) buf) = Inr h"
    "drop (length (response_wire h)) buf @ in_bytes (ts_in s') = rest"
    by auto
  with rs_syntax.print_long [OF assms(1)] read_response_header_step [of "[]" s buf _ s' h] show ?thesis
    by (intro exI [of _ "drop (length (response_wire h)) buf"]) (simp add: h1_parse_response_def)
qed

lemma h1_parse_response_cases:
  assumes "h1_parse_response s = Some (Inr (h, b, ka), s')"
  shows "\<exists>pre. b = framing h pre \<and>
    ka = (compute_keep_alive (rs_headers h) (rs_version h) \<and> \<not> close_delimited h)"
proof -
  from assms obtain buf pos where fill: "fill_header_buf [] s = Some (Inr (buf, pos), s')"
    "parse_response_block (take (pos + 4) buf) = Inr h"
    by (auto simp: h1_parse_response_def read_response_header_def Let_def
        split: option.splits sum.splits prod.splits)
  from assms read_response_header_step [OF fill] show ?thesis
    by (auto simp: h1_parse_response_def)
qed

lemma read_line_byte_no_LF:
  assumes "\<forall>s c. seen s c \<noteq> LF" "ts_in s = fragments fs @ RdErr e # q" "[] \<notin> set fs"
  shows "\<exists>l s'. read_line_byte seen acc s = Some (False, l, s')"
  using assms
proof (induction seen acc s arbitrary: fs rule: read_line_byte.induct)
  case (1 seen line s)
  show ?case
  proof (cases fs)
    case Nil
    with "1.prems" show ?thesis
      by (simp add: read_line_byte.simps [of seen line s] async_read_some_def fragments_def)
  next
    case (Cons f fs')
    with "1.prems" obtain c cs where f: "f = c # cs" by (cases f) auto
    define fs2 where "fs2 = (if cs = [] then fs' else cs # fs')"
    define s2 where "s2 = s\<lparr>ts_in := fragments fs2 @ RdErr e # q\<rparr>"
    have rd: "async_read_some 1 s = Some ((None, [c]), s2)"
      using "1.prems" Cons f by (auto simp: async_read_some_def fragments_def s2_def fs2_def)
    have "[] \<notin> set fs2" using "1.prems" Cons by (auto simp: fs2_def)
    with "1.IH" [OF rd refl refl _ refl _ "1.prems"(1), of fs2] rd "1.prems"(1) show ?thesis
      by (simp add: read_line_byte.simps [of seen line s] s2_def Let_def split: if_splits)
  qed
qed

section \<open>Properties\<close>

definition ex_request :: "nat \<Rightarrow> request_head" where
  "ex_request n = (let hs = [(''Host'', ''a.example''), (''Content-Length'', show_nat n)] in
     \<lparr>rq_method = ''POST'', rq_version = ''HTTP/1.1'', rq_path = ''/up'', rq_scheme = ''http'',
      rq_authority = ''a.example'', rq_absolute_target = False, rq_headers = hs,
      rq_content_length = Some n\<rparr>)"

definition ex_get :: request_head where
  "ex_get = \<lparr>rq_method = ''GET'', rq_version = ''HTTP/1.1'', rq_path = ''/x'', rq_scheme = ''http'',
      rq_authority = ''a.example'', rq_absolute_target = False, rq_headers = [(''Host'', ''a.example'')],
      rq_content_length = None\<rparr>"

definition ex_response :: "header_map \<Rightarrow> response_head" where
  "ex_response hs = \<lparr>rs_status = 200, rs_reason = ''OK'', rs_version = ''HTTP/1.1'', rs_headers = hs,
      rs_content_length = content_length_of hs\<rparr>"

abbreviation sink :: tstream where
  "sink \<equiv> fresh_stream []"

definition ex_stream :: "string list \<Rightarrow> tstream" where
  "ex_stream fs = fresh_stream (fragments fs)"

lemma wf_text_show_nat: "wf_text (show_nat n)"
  using show_nat_hd [of n] show_nat_no_LF [of n] by (auto simp: wf_text_def isspace_def)

lemma lower_names:
  "lower ''Host'' = ''host''" "lower ''host'' = ''host''" "lower ''content-length'' = ''content-length''"
  "lower ''Content-Length'' = ''content-length''"
  by code_simp+

lemma wf_ex_request: "n \<le> ULONG_MAX \<Longrightarrow> wf_request (ex_request n)"
  using strtoul_show_nat [of n] wf_text_show_nat [of n]
  by (simp add: ex_request_def wf_request_def wf_token_def wf_field_def starts_with_def isspace_def
      split_absolute_def content_length_of_def wf_text_def lower_names)

lemma length_ex_request: "n < 10 \<Longrightarrow> length (request_wire (ex_request n)) \<le> 100"
  by (simp add: request_wire_def ex_request_def wire_h1_version_def starts_with_def hm_to_wire_def
      wire_line_def show_nat.simps [of n])

lemma ex_request_length: "rq_content_length (ex_request n) = Some n"
  by (simp add: ex_request_def)

text \<open>C9: a request without a body that \<^verbatim>\<open>async_write_request\<close> serialises is read back by
  \<^verbatim>\<open>async_parse_request\<close> as the same head with no body and the keep-alive flag its version and
  Connection header call for, however the network cuts the bytes into reads.\<close>

theorem h1_request_roundtrip:
  assumes "wf_request h" "rq_content_length h = None" "writable dst" "ts_out dst = []"
    and "h1_write_request seen h None src dst = Some (ec, src', dst')"
    and "in_bytes (ts_in s) = ts_out dst'"
  shows "ec = None \<and> src' = src \<and> (\<exists>s'. h1_parse_request s =
      Some (Inr (h, None, compute_keep_alive (rq_headers h) (rq_version h)), s'))"
proof -
  from assms(3-5) have "ec = None" "src' = src" "ts_out dst' = request_wire h"
    by (auto simp: h1_write_request_def write_message_def async_write_some_writable)
  with read_request_printed [OF assms(1), of s "[]"] assms(2,6) show ?thesis by auto
qed

theorem h1_request_roundtrip_witness:
  "\<exists>s'. h1_parse_request (ex_stream [take 9 (request_wire ex_get), drop 9 (request_wire ex_get)]) =
      Some (Inr (ex_get, None, compute_keep_alive (rq_headers ex_get) (rq_version ex_get)), s')"
proof -
  let ?w = "request_wire ex_get"
  have "wf_request ex_get" "rq_content_length ex_get = None" "writable sink"
    "ts_out sink = []"
    by code_simp+
  moreover have "h1_write_request (\<lambda>s c. c) ex_get None sink sink =
      Some (None, sink, sink\<lparr>ts_out := ?w\<rparr>)"
    by code_simp
  moreover have "in_bytes (ts_in (ex_stream [take 9 ?w, drop 9 ?w])) =
      ts_out (sink\<lparr>ts_out := ?w\<rparr>)"
    by code_simp
  ultimately show ?thesis
    using h1_request_roundtrip by blast
qed

text \<open>C2: forwarding a request with a Content-Length body.  For every way the network cuts head and
  body into reads, the parser returns the head, and writing head and body source to a backend emits
  the serialised head followed by the whole body, provided the head reader had fetched none of the
  body or all of it.  When it had fetched a proper part \<open>pre\<close> of the body, exactly the bytes of the
  body after \<open>pre\<close> are emitted.\<close>

theorem h1_forward_request:
  assumes "wf_request h" "rq_content_length h = Some (length body)" "body \<noteq> []"
    and "in_bytes (ts_in s) = request_wire h @ body @ rest" "writable dst"
  shows "\<exists>pre b ka s' s''. h1_parse_request s = Some (Inr (h, Some b, ka), s')
    \<and> pre @ in_bytes (ts_in s') = body @ rest
    \<and> h1_write_request seen h (Some b) s' dst = Some (None, s'',
         dst\<lparr>ts_out := ts_out dst @ request_wire h
           @ (if pre = [] \<or> length body \<le> length pre then body else drop (length pre) body)\<rparr>)"
proof -
  from read_request_printed [OF assms(1,4)] obtain pre s' where
    parse: "pre @ in_bytes (ts_in s') = body @ rest" "h1_parse_request s =
      Some (Inr (h, sized_body (length body) pre, compute_keep_alive (rq_headers h) (rq_version h)), s')"
    using assms(2) by auto
  from sized_body_owes [OF parse(1) assms(3), of seen] obtain b rest' where
    b: "sized_body (length body) pre = Some b"
      "h1_owes seen (b, s') (if pre = [] \<or> length body \<le> length pre then body else drop (length pre) body) rest'"
    by (cases "pre = []"; cases "length body \<le> length pre") auto
  from write_message_body [OF b(2) assms(5), of "request_wire h"] obtain s'' where
    w: "h1_write_request seen h (Some b) s' dst = Some (None, s'', dst\<lparr>ts_out := ts_out dst @
      request_wire h @ (if pre = [] \<or> length body \<le> length pre then body else drop (length pre) body)\<rparr>)"
    unfolding h1_write_request_def by blast
  have "h1_parse_request s =
      Some (Inr (h, Some b, compute_keep_alive (rq_headers h) (rq_version h)), s')"
    using parse(2) b(1) by simp
  with parse(1) w show ?thesis by blast
qed

theorem h1_forward_request_witness:
  "\<exists>pre b ka s' s''. h1_parse_request (ex_stream [request_wire (ex_request 3), ''abc'']) =
         Some (Inr (ex_request 3, Some b, ka), s')
    \<and> pre @ in_bytes (ts_in s') = ''abc'' @ ''''
    \<and> h1_write_request (\<lambda>s c. c) (ex_request 3) (Some b) s' sink = Some (None, s'',
         sink\<lparr>ts_out := ts_out sink @ request_wire (ex_request 3)
           @ (if pre = [] \<or> length ''abc'' \<le> length pre then ''abc'' else drop (length pre) ''abc'')\<rparr>)"
proof (rule h1_forward_request)
  show "wf_request (ex_request 3)" by (rule wf_ex_request) simp
qed (simp_all add: ex_request_length ex_stream_def fragments_def fresh_stream_def writable_def
    request_wire_def)

text \<open>The body bytes that share a segment with the end of the head are dropped when the body
  continues in a later segment.  When the first read delivers the head and a proper, non-empty part
  \<open>pre\<close> of the body, the backend receives the head, which announces the length of \<open>pre @ post\<close>, followed
  by \<open>post\<close> alone.\<close>

theorem h1_body_prefix_lost:
  assumes "wf_request h" "rq_content_length h = Some (length (pre @ post))" "pre \<noteq> []" "post \<noteq> []"
    and "length (request_wire h @ pre) \<le> 4096" "ts_in s = RdData (request_wire h @ pre) # q"
    and "in_bytes q = post @ rest" "writable dst"
  shows "\<exists>b ka s' s''. h1_parse_request s = Some (Inr (h, Some b, ka), s')
    \<and> h1_write_request seen h (Some b) s' dst =
        Some (None, s'', dst\<lparr>ts_out := ts_out dst @ request_wire h @ post\<rparr>)"
proof -
  let ?n = "length (request_wire h)" and ?s = "s\<lparr>ts_in := q\<rparr>"
  have "fill_header_buf [] s = Some (Inr (request_wire h @ pre, ?n - 4), ?s)"
    using assms(3,5,6) find_str_append_left [OF rq_syntax.blank_line [OF assms(1)], of pre]
    by (simp add: fill_header_buf.simps [of "[]" s] async_read_some_def)
  with rq_syntax.parse_print [OF assms(1)] rq_syntax.print_long [OF assms(1)] assms(2)
  have parse: "h1_parse_request s = Some (Inr (h, sized_body (length (pre @ post)) pre,
      compute_keep_alive (rq_headers h) (rq_version h)), ?s)"
    by (simp add: h1_parse_request_def read_header_block_def Let_def)
  from sized_body_owes [of pre ?s "pre @ post" rest seen] assms(3,4,7) obtain b where
    "sized_body (length (pre @ post)) pre = Some b" "h1_owes seen (b, ?s) post rest"
    by auto
  with write_message_body [OF this(2) assms(8), of "request_wire h"] parse show ?thesis
    unfolding h1_write_request_def by auto
qed

theorem h1_body_prefix_lost_witness:
  "\<exists>b ka s' s''. h1_parse_request (ex_stream [request_wire (ex_request 4) @ ''ab'', ''cd'']) =
        Some (Inr (ex_request 4, Some b, ka), s')
    \<and> h1_write_request (\<lambda>s c. c) (ex_request 4) (Some b) s' sink =
        Some (None, s'', sink\<lparr>ts_out := ts_out sink @ request_wire (ex_request 4) @ ''cd''\<rparr>)"
proof (rule h1_body_prefix_lost [where pre = "''ab''" and q = "[RdData ''cd'']" and rest = "[]"])
  show "wf_request (ex_request 4)" by (rule wf_ex_request) simp
  show "length (request_wire (ex_request 4) @ ''ab'') \<le> 4096" using length_ex_request [of 4] by simp
qed (simp_all add: ex_request_length ex_stream_def fragments_def fresh_stream_def writable_def)


text \<open>How \<^verbatim>\<open>async_parse_response\<close> frames the body of any response it accepts.  A 1xx, 204 or 304
  status has no body; otherwise a chunked transfer coding wins over a Content-Length; a body that
  runs to the end of the connection is chosen exactly when neither is present, and then the
  connection is never reported as reusable.\<close>

theorem h1_response_framing:
  assumes "h1_parse_response s = Some (Inr (h, b, ka), s')"
  shows "(bodyless h \<longrightarrow> b = None)
    \<and> (\<not> bodyless h \<and> says_chunked h \<longrightarrow> b = Some (ChunkedBodySource new_chunked))
    \<and> (b = Some (Basic StreamEofBodySource) \<longleftrightarrow>
         \<not> bodyless h \<and> \<not> says_chunked h \<and> rs_content_length h = None)
    \<and> (ka \<longrightarrow> b \<noteq> Some (Basic StreamEofBodySource))
    \<and> (ka \<longrightarrow> \<not> header_says_close (rs_headers h))"
proof -
  from h1_parse_response_cases [OF assms] obtain pre where
    "b = framing h pre"
    "ka = (compute_keep_alive (rs_headers h) (rs_version h) \<and> \<not> close_delimited h)"
    by blast
  then show ?thesis
    by (auto simp: framing_def close_delimited_def sized_body_def compute_keep_alive_def Let_def
        split: option.splits if_splits)
qed

lemma wf_ex_response: "wf_response (ex_response [(''Transfer-Encoding'', ''chunked'')])"
  by code_simp

theorem h1_response_framing_witness:
  "\<exists>b ka s' h. h1_parse_response
       (ex_stream [response_wire (ex_response [(''Transfer-Encoding'', ''chunked'')])]) =
         Some (Inr (h, b, ka), s') \<and> b = Some (ChunkedBodySource new_chunked)"
proof -
  let ?h = "ex_response [(''Transfer-Encoding'', ''chunked'')]"
  have "response_wire ?h \<noteq> []" by (simp add: response_wire_def)
  then have "in_bytes (ts_in (ex_stream [response_wire ?h])) = response_wire ?h @ []"
    by (simp add: ex_stream_def fragments_def fresh_stream_def)
  from read_response_printed [OF wf_ex_response this] obtain b ka s' where
    p: "h1_parse_response (ex_stream [response_wire ?h]) = Some (Inr (?h, b, ka), s')" by blast
  have "hm_get ''transfer-encoding'' (rs_headers ?h) = Some ''chunked''" "contains ''chunked'' ''chunked''"
    "\<not> bodyless ?h"
    by code_simp+
  with h1_response_framing [OF p] have "b = Some (ChunkedBodySource new_chunked)"
    unfolding says_chunked_def by blast
  with p show ?thesis by blast
qed

text \<open>Relaying a response with a Content-Length.  Whatever the backend's segmentation, a
  well-formed head followed by a body of the announced length reaches the client as the same head
  and the whole body, when the head reader fetched none or all of the body.\<close>

theorem h1_relay_sized_response:
  assumes "wf_response h" "\<not> bodyless h" "\<not> says_chunked h"
    and "rs_content_length h = Some (length body)" "body \<noteq> []"
    and "in_bytes (ts_in s) = response_wire h @ body @ rest" "writable dst"
  shows "\<exists>pre b ka s' s''. h1_parse_response s = Some (Inr (h, Some b, ka), s')
    \<and> pre @ in_bytes (ts_in s') = body @ rest
    \<and> h1_write_response seen h (Some b) s' dst = Some (None, s'',
         dst\<lparr>ts_out := ts_out dst @ response_wire h
           @ (if pre = [] \<or> length body \<le> length pre then body else drop (length pre) body)\<rparr>)"
proof -
  from read_response_printed [OF assms(1,6)] obtain pre s' where
    parse: "pre @ in_bytes (ts_in s') = body @ rest" "h1_parse_response s =
      Some (Inr (h, framing h pre, compute_keep_alive (rs_headers h) (rs_version h)
        \<and> \<not> close_delimited h), s')"
    by auto
  from sized_body_owes [OF parse(1) assms(5), of seen] obtain b rest' where
    b: "framing h pre = Some b"
      "h1_owes seen (b, s') (if pre = [] \<or> length body \<le> length pre then body else drop (length pre) body) rest'"
    using assms(2-4) by (cases "pre = []"; cases "length body \<le> length pre") (auto simp: framing_def)
  from write_message_body [OF b(2) assms(7), of "response_wire h"] obtain s'' where
    w: "h1_write_response seen h (Some b) s' dst = Some (None, s'', dst\<lparr>ts_out := ts_out dst @
      response_wire h @ (if pre = [] \<or> length body \<le> length pre then body else drop (length pre) body)\<rparr>)"
    unfolding h1_write_response_def by blast
  have "h1_parse_response s = Some (Inr (h, Some b, compute_keep_alive (rs_headers h) (rs_version h)
      \<and> \<not> close_delimited h), s')"
    using parse(2) b(1) by simp
  with parse(1) w show ?thesis by blast
qed

definition ex_sized :: response_head where
  "ex_sized = ex_response [(''content-length'', show_nat 2)]"

lemma ex_sized_facts:
  "wf_response ex_sized" "\<not> bodyless ex_sized" "\<not> says_chunked ex_sized"
  "rs_content_length ex_sized = Some 2"
proof -
  have names: "lower ''transfer-encoding'' = ''transfer-encoding''" by code_simp
  show "rs_content_length ex_sized = Some 2"
    using strtoul_show_nat [of 2] by (simp add: ex_sized_def ex_response_def content_length_of_def)
  show "wf_response ex_sized" "\<not> bodyless ex_sized" "\<not> says_chunked ex_sized"
    using wf_text_show_nat [of 2]
    by (simp_all add: ex_sized_def ex_response_def wf_response_def wf_token_def wf_field_def wf_text_def
        starts_with_def isspace_def bodyless_def says_chunked_def lower_names names)
qed

theorem h1_relay_sized_response_witness:
  "\<exists>pre b ka s' s''. h1_parse_response (ex_stream [response_wire ex_sized @ ''hi'']) =
        Some (Inr (ex_sized, Some b, ka), s')
    \<and> pre @ in_bytes (ts_in s') = ''hi'' @ []
    \<and> h1_write_response (\<lambda>s c. c) ex_sized (Some b) s' sink = Some (None, s'',
         sink\<lparr>ts_out := ts_out sink @ response_wire ex_sized
           @ (if pre = [] \<or> length ''hi'' \<le> length pre then ''hi'' else drop (length pre) ''hi'')\<rparr>)"
  by (rule h1_relay_sized_response)
    (simp_all add: ex_sized_facts ex_stream_def fragments_def fresh_stream_def writable_def)



lemma ex_chunked: "chunked_wire (''2;x'' @ CRLF @ ''hi'' @ CRLF @ ''0'' @ CRLF @ CRLF) (''hi'' @ [])"
proof -
  have "size_line ''2;x'' 2" "size_line ''0'' 0"
    by (simp_all add: size_line_def cut_extension_def strtoul_def split_sign_def hex_prefix_def isspace_def
        digit_val_def)
  then show ?thesis
    by (intro data_chunk last_chunk trailer_end) (simp_all add: numeral_2_eq_2)
qed




text \<open>A connection that fails or ends before the blank line of a request head produces that
  error and no request, whatever was received.\<close>

theorem h1_incomplete_head:
  assumes "ts_in s = fragments fs @ RdErr e # q" "[] \<notin> set fs" "find_str CRLF2 (concat fs) = None"
  shows "\<exists>s'. h1_parse_request s = Some (Inl e, s') \<and> ts_in s' = q"
  using fill_header_buf_error [of fs "[]" s e q] assms
  by (auto simp: h1_parse_request_def read_header_block_def)

theorem h1_incomplete_head_witness:
  "\<exists>s'. h1_parse_request (fresh_stream (fragments [''GET / '', ''HTTP''] @ [RdErr Connection_reset])) =
      Some (Inl Connection_reset, s') \<and> ts_in s' = []"
  by (rule h1_incomplete_head [where fs = "[''GET / '', ''HTTP'']"])
    (simp_all add: fresh_stream_def starts_with_def)

end
