(* ===== verification/Config_Router.thy ===== *)
theory Config_Router
  imports Http_Message "HOL-Library.Word"
begin

text \<open>
  Configuration (\<^verbatim>\<open>src/config.{h,cpp}\<close>), host routing (\<^verbatim>\<open>src/proxy/router.{h,cpp}\<close>) and the
  process-wide counters (\<^verbatim>\<open>src/proxy/stats.{h,cpp}\<close>).

  The TOML library is a parameter: \<open>'v toml\<close> is the record of its accessors that the loader calls, with
  \<open>None\<close> for an exception.  What the loader relies on is stated where it is used.
\<close>

section \<open>Configuration\<close>

record backend_endpoint =
  be_backend_id :: string
  be_host :: string
  be_port :: "16 word"
  be_weight :: int
  be_protocol :: transport_protocol

record route_rule =
  rr_host_match :: string
  rr_backend_id :: string

record proxy_config =
  cf_listen_addr :: string
  cf_listen_port :: "16 word"
  cf_num_threads :: int
  cf_stats_port :: "16 word"
  cf_max_streams_in :: int
  cf_idle_timeout_secs :: int
  cf_dual_stack :: bool
  cf_quic_port :: "16 word"
  cf_quic_cert_file :: string
  cf_quic_key_file :: string
  cf_backends :: "backend_endpoint list"
  cf_routes :: "route_rule list"

text \<open>The default member initialisers of \<^verbatim>\<open>ProxyConfig\<close>.\<close>

definition default_config :: proxy_config where
  "default_config = \<lparr>cf_listen_addr = ''0.0.0.0'', cf_listen_port = 8080, cf_num_threads = 1,
     cf_stats_port = 0, cf_max_streams_in = 0, cf_idle_timeout_secs = 30, cf_dual_stack = False,
     cf_quic_port = 0, cf_quic_cert_file = ''certs/cert.pem'', cf_quic_key_file = ''certs/key.pem'',
     cf_backends = [], cf_routes = []\<rparr>"

record 'v toml =
  tm_parse :: "string \<Rightarrow> 'v option"
  tm_contains :: "'v \<Rightarrow> string \<Rightarrow> bool"
  tm_find :: "'v \<Rightarrow> string \<Rightarrow> 'v option"
  tm_as_array :: "'v \<Rightarrow> 'v list option"
  tm_find_string :: "'v \<Rightarrow> string \<Rightarrow> string option"
  tm_find_int :: "'v \<Rightarrow> string \<Rightarrow> int option"
  tm_find_or_string :: "'v \<Rightarrow> string \<Rightarrow> string \<Rightarrow> string"
  tm_find_or_int :: "'v \<Rightarrow> string \<Rightarrow> int \<Rightarrow> int"
  tm_find_or_bool :: "'v \<Rightarrow> string \<Rightarrow> bool \<Rightarrow> bool"

definition load_listen :: "'v toml \<Rightarrow> 'v \<Rightarrow> proxy_config \<Rightarrow> proxy_config option" where
  "load_listen t root cfg =
     (if tm_contains t root ''listen'' then
        (case tm_find t root ''listen'' of
           None \<Rightarrow> None
         | Some tbl \<Rightarrow> Some (cfg
             \<lparr>cf_listen_addr := tm_find_or_string t tbl ''address'' ''0.0.0.0'',
              cf_listen_port := word_of_int (tm_find_or_int t tbl ''port'' 8080),
              cf_num_threads := tm_find_or_int t tbl ''num_threads'' 1,
              cf_stats_port := word_of_int (tm_find_or_int t tbl ''stats_port'' 0),
              cf_max_streams_in := tm_find_or_int t tbl ''max_streams_in'' 0,
              cf_idle_timeout_secs := tm_find_or_int t tbl ''idle_timeout'' 30,
              cf_dual_stack := tm_find_or_bool t tbl ''dual_stack'' False,
              cf_quic_port := word_of_int (tm_find_or_int t tbl ''quic_port'' 0),
              cf_quic_cert_file := tm_find_or_string t tbl ''quic_cert_file'' ''certs/cert.pem'',
              cf_quic_key_file := tm_find_or_string t tbl ''quic_key_file'' ''certs/key.pem''\<rparr>))
      else Some cfg)"

definition load_backend :: "'v toml \<Rightarrow> 'v \<Rightarrow> backend_endpoint option" where
  "load_backend t v =
     (case tm_find_string t v ''id'' of None \<Rightarrow> None
      | Some bid \<Rightarrow> (case tm_find_string t v ''host'' of None \<Rightarrow> None
      | Some host \<Rightarrow> (case tm_find_int t v ''port'' of None \<Rightarrow> None
      | Some port \<Rightarrow> Some
          \<lparr>be_backend_id = bid, be_host = host, be_port = word_of_int port,
           be_weight = tm_find_or_int t v ''weight'' 1,
           be_protocol = (if tm_find_or_string t v ''protocol'' ''h1'' = ''h3'' then QUIC else TCP)\<rparr>)))"

definition load_route :: "'v toml \<Rightarrow> 'v \<Rightarrow> route_rule option" where
  "load_route t v =
     (case tm_find_string t v ''host'' of None \<Rightarrow> None
      | Some host \<Rightarrow> (case tm_find_string t v ''backend'' of None \<Rightarrow> None
      | Some bid \<Rightarrow> Some \<lparr>rr_host_match = host, rr_backend_id = bid\<rparr>))"

text \<open>The loop over an array of tables, pushing back each converted element.\<close>

fun load_each :: "('v \<Rightarrow> 'e option) \<Rightarrow> 'v list \<Rightarrow> 'e list \<Rightarrow> 'e list option" where
  "load_each f [] acc = Some acc"
| "load_each f (v # vs) acc = (case f v of None \<Rightarrow> None | Some e \<Rightarrow> load_each f vs (acc @ [e]))"

definition load_section ::
  "'v toml \<Rightarrow> 'v \<Rightarrow> string \<Rightarrow> ('v \<Rightarrow> 'e option) \<Rightarrow> 'e list \<Rightarrow> 'e list option" where
  "load_section t root key f acc =
     (if tm_contains t root key then
        (case tm_find t root key of None \<Rightarrow> None
         | Some sec \<Rightarrow> (case tm_as_array t sec of None \<Rightarrow> None
         | Some arr \<Rightarrow> load_each f arr acc))
      else Some acc)"

text \<open>\<open>None\<close>: the exception is logged and rethrown.\<close>

definition load_config :: "'v toml \<Rightarrow> string \<Rightarrow> proxy_config option" where
  "load_config t path =
     (case tm_parse t path of None \<Rightarrow> None
      | Some root \<Rightarrow> (case load_listen t root default_config of None \<Rightarrow> None
      | Some cfg \<Rightarrow> (case load_section t root ''backends'' (load_backend t) (cf_backends cfg) of None \<Rightarrow> None
      | Some bes \<Rightarrow> (case load_section t root ''routes'' (load_route t) (cf_routes cfg) of None \<Rightarrow> None
      | Some rts \<Rightarrow> Some (cfg\<lparr>cf_backends := bes, cf_routes := rts\<rparr>)))))"

section \<open>Router\<close>

type_synonym router = "route_rule list"

definition add_rule :: "string \<Rightarrow> string \<Rightarrow> router \<Rightarrow> router" where
  "add_rule host_match bid rules = rules @ [\<lparr>rr_host_match = host_match, rr_backend_id = bid\<rparr>]"

fun first_rule :: "string \<Rightarrow> router \<Rightarrow> string option" where
  "first_rule m [] = None"
| "first_rule m (r # rs) = (if rr_host_match r = m then Some (rr_backend_id r) else first_rule m rs)"

text \<open>The empty string is "no match".\<close>

definition route :: "router \<Rightarrow> request_head \<Rightarrow> string" where
  "route rules req =
     (let host = (case hm_get ''host'' (rq_headers req) of Some h \<Rightarrow> h | None \<Rightarrow> []) in
      case first_rule host rules of
        Some b \<Rightarrow> b
      | None \<Rightarrow> (case first_rule ''*'' rules of Some b \<Rightarrow> b | None \<Rightarrow> []))"

section \<open>Counters\<close>

record proxy_stats =
  st_tcp_conns :: "64 word"
  st_quic_conns :: "64 word"
  st_requests :: "64 word"
  st_resp_ok :: "64 word"
  st_resp_err :: "64 word"
  st_backend_connects :: "64 word"
  st_lat_us_total :: "64 word"
  st_lat_count :: "64 word"

definition zero_stats :: proxy_stats where
  "zero_stats = \<lparr>st_tcp_conns = 0, st_quic_conns = 0, st_requests = 0, st_resp_ok = 0,
     st_resp_err = 0, st_backend_connects = 0, st_lat_us_total = 0, st_lat_count = 0\<rparr>"

text \<open>\<open>us\<close> is the elapsed time of the steady clock in microseconds.\<close>

definition record_latency :: "nat \<Rightarrow> proxy_stats \<Rightarrow> proxy_stats" where
  "record_latency us s = s\<lparr>st_lat_us_total := st_lat_us_total s + word_of_nat us,
     st_lat_count := st_lat_count s + 1\<rparr>"

definition metric :: "string \<Rightarrow> 64 word \<Rightarrow> string" where
  "metric name v = name @ '' '' @ show_nat (unat v) @ [LF]"

text \<open>\<open>up\<close> is \<^verbatim>\<open>std::to_string\<close> of the uptime in seconds.\<close>

definition render :: "string \<Rightarrow> proxy_stats \<Rightarrow> string" where
  "render up s = ''proxy_uptime_seconds '' @ up @ [LF]
     @ metric ''proxy_tcp_connections_total'' (st_tcp_conns s)
     @ metric ''proxy_quic_connections_total'' (st_quic_conns s)
     @ metric ''proxy_requests_total'' (st_requests s)
     @ metric ''proxy_responses_ok_total'' (st_resp_ok s)
     @ metric ''proxy_responses_error_total'' (st_resp_err s)
     @ metric ''proxy_backend_connects_total'' (st_backend_connects s)
     @ metric ''proxy_backend_latency_us_sum'' (st_lat_us_total s)
     @ metric ''proxy_backend_latency_us_count'' (st_lat_count s)"

section \<open>Facts\<close>

lemma load_each_map: "load_each f vs acc = map_option ((@) acc) (those (map f vs))"
  by (induction vs arbitrary: acc) (auto simp: option.map_comp comp_def cong: map_option_cong split: option.split)

lemma those_Some: "those xs = Some ys \<Longrightarrow> xs = map Some ys"
  by (induction xs arbitrary: ys) (auto split: option.splits)

lemma load_section_Some:
  assumes "load_section t root key f [] = Some es"
  shows "(\<not> tm_contains t root key \<and> es = [])
    \<or> (\<exists>sec arr. tm_find t root key = Some sec \<and> tm_as_array t sec = Some arr \<and> map f arr = map Some es)"
  using assms by (auto simp: load_section_def load_each_map dest: those_Some split: if_splits option.splits)

lemma load_backend_Some:
  assumes "load_backend t v = Some be"
  shows "tm_find_string t v ''id'' = Some (be_backend_id be)"
    "tm_find_string t v ''host'' = Some (be_host be)"
    "\<exists>p. tm_find_int t v ''port'' = Some p \<and> uint (be_port be) = p mod 65536"
    "be_protocol be = QUIC \<longleftrightarrow> tm_find_or_string t v ''protocol'' ''h1'' = ''h3''"
  using assms by (auto simp: load_backend_def uint_word_of_int split: option.splits if_splits)

lemma first_rule_None: "first_rule m rs = None \<longleftrightarrow> (\<forall>r \<in> set rs. rr_host_match r \<noteq> m)"
  by (induction rs) auto

lemma first_rule_append:
  "first_rule m (rs @ qs) = (case first_rule m rs of Some b \<Rightarrow> Some b | None \<Rightarrow> first_rule m qs)"
  by (induction rs) auto

lemma first_rule_hit:
  "\<forall>x \<in> set pre. rr_host_match x \<noteq> m \<Longrightarrow> rr_host_match r = m \<Longrightarrow>
   first_rule m (pre @ r # post) = Some (rr_backend_id r)"
  by (simp add: first_rule_append first_rule_None [THEN iffD2])

lemma show_nat_inject: "show_nat m = show_nat n \<longleftrightarrow> m = n"
proof
  assume "show_nat m = show_nat n"
  then have "fst (strto_digits 10 0 (show_nat m)) = fst (strto_digits 10 0 (show_nat n))" by simp
  then show "m = n" by (simp only: strto_digits_show_nat fst_conv)
qed simp

lemma line_split:
  "LF \<notin> set a \<Longrightarrow> LF \<notin> set b \<Longrightarrow> a @ LF # x = b @ LF # y \<longleftrightarrow> a = b \<and> x = y"
  by (metis getline_append option.inject prod.inject)

lemma show_nat_line [simp]: "LF \<notin> set (show_nat n)"
  using show_nat_digits [of LF n] show_digit_props by metis

lemma metric_inject: "metric n v @ x = metric n w @ y \<longleftrightarrow> v = w \<and> x = y"
proof -
  have "metric n v @ x = metric n w @ y \<longleftrightarrow> show_nat (unat v) @ LF # x = show_nat (unat w) @ LF # y"
    by (simp add: metric_def)
  also have "\<dots> \<longleftrightarrow> unat v = unat w \<and> x = y"
    by (simp only: line_split [OF show_nat_line show_nat_line] show_nat_inject)
  finally show ?thesis by (simp only: word_unat_eq_iff)
qed

section \<open>Properties\<close>

abbreviation host_of :: "request_head \<Rightarrow> string" where
  "host_of req \<equiv> (case hm_get ''host'' (rq_headers req) of Some h \<Rightarrow> h | None \<Rightarrow> [])"

text \<open>C27: routing precedence.  The first rule whose host equals the request's Host decides, wherever
  wildcard rules stand; with no such rule the first wildcard rule decides; with neither the result is
  the empty string; and appending a rule never changes the backend of a request that some rule
  matches by name.\<close>

theorem router_precedence:
  "(\<forall>x \<in> set pre. rr_host_match x \<noteq> host_of req) \<Longrightarrow>
   (rr_host_match r = host_of req \<longrightarrow> route (pre @ r # post) req = rr_backend_id r
      \<and> route (add_rule m b (pre @ r # post)) req = rr_backend_id r)
   \<and> (rr_host_match r = ''*'' \<and> (\<forall>x \<in> set (r # post). rr_host_match x \<noteq> host_of req)
        \<and> (\<forall>x \<in> set pre. rr_host_match x \<noteq> ''*'') \<longrightarrow> route (pre @ r # post) req = rr_backend_id r)
   \<and> ((\<forall>x \<in> set pre. rr_host_match x \<noteq> ''*'') \<longrightarrow> route pre req = [])"
  by (auto simp: route_def add_rule_def first_rule_append first_rule_None [THEN iffD2])

definition ex_rules :: router where
  "ex_rules = add_rule ''a'' ''A'' (add_rule ''*'' ''D'' [])"

theorem router_precedence_witness:
  "route ex_rules (empty_request_head\<lparr>rq_headers := [(''Host'', ''a'')]\<rparr>) = ''A''"
proof -
  let ?req = "empty_request_head\<lparr>rq_headers := [(''Host'', ''a'')]\<rparr>"
  have h: "host_of ?req = ''a''" by code_simp
  have "\<forall>x \<in> set [\<lparr>rr_host_match = ''*'', rr_backend_id = ''D''\<rparr>]. rr_host_match x \<noteq> host_of ?req"
    unfolding h by simp
  from router_precedence [OF this, of "\<lparr>rr_host_match = ''a'', rr_backend_id = ''A''\<rparr>" "[]"] h show ?thesis
    by (simp add: ex_rules_def add_rule_def)
qed

text \<open>The two places that state a default agree.  When the \<^verbatim>\<open>[listen]\<close> table is absent, or is
  present with none of its keys (the library then returns the value it is given), the loaded listen
  settings are the default member values, and a document without backends and routes has none.\<close>

theorem config_defaults:
  assumes "tm_parse t path = Some root"
    and "\<not> tm_contains t root ''backends''" "\<not> tm_contains t root ''routes''"
    and "tm_contains t root ''listen'' \<Longrightarrow> \<exists>tbl. tm_find t root ''listen'' = Some tbl
          \<and> (\<forall>k d. tm_find_or_string t tbl k d = d) \<and> (\<forall>k d. tm_find_or_int t tbl k d = d)
          \<and> (\<forall>k d. tm_find_or_bool t tbl k d = d)"
  shows "load_config t path = Some default_config"
  using assms
  by (cases "tm_contains t root ''listen''")
    (auto simp: load_config_def load_listen_def load_section_def default_config_def)

text \<open>A library instance over documents of integer and string entries.\<close>

definition ex_toml :: "((string \<times> int) list) toml" where
  "ex_toml = \<lparr>tm_parse = (\<lambda>p. Some [(''listen'', 0)]),
     tm_contains = (\<lambda>v k. map_of v k \<noteq> None), tm_find = (\<lambda>v k. map_option (\<lambda>_. []) (map_of v k)),
     tm_as_array = (\<lambda>v. None), tm_find_string = (\<lambda>v k. None), tm_find_int = map_of,
     tm_find_or_string = (\<lambda>v k d. d),
     tm_find_or_int = (\<lambda>v k d. case map_of v k of Some i \<Rightarrow> i | None \<Rightarrow> d),
     tm_find_or_bool = (\<lambda>v k d. d)\<rparr>"

theorem config_defaults_witness: "load_config ex_toml ''proxy.toml'' = Some default_config"
  by (rule config_defaults [where root = "[(''listen'', 0)]"]) (simp_all add: ex_toml_def)

text \<open>What a loaded configuration contains.  Every table of the \<^verbatim>\<open>[[backends]]\<close> array gives one
  endpoint, in order, with its id and host as written, its port reduced modulo 65536 and QUIC exactly
  for the protocol \<^verbatim>\<open>h3\<close>; a table without id, host or port makes the load fail.\<close>

theorem config_backends:
  assumes "load_config t path = Some cfg" "tm_parse t path = Some root"
    and "tm_contains t root ''backends''" "tm_find t root ''backends'' = Some sec"
    and "tm_as_array t sec = Some arr"
  shows "length (cf_backends cfg) = length arr
    \<and> (\<forall>i < length arr. let be = cf_backends cfg ! i in
         tm_find_string t (arr ! i) ''id'' = Some (be_backend_id be)
       \<and> tm_find_string t (arr ! i) ''host'' = Some (be_host be)
       \<and> (\<exists>p. tm_find_int t (arr ! i) ''port'' = Some p \<and> uint (be_port be) = p mod 65536)
       \<and> (be_protocol be = QUIC \<longleftrightarrow> tm_find_or_string t (arr ! i) ''protocol'' ''h1'' = ''h3''))"
proof -
  from assms(1,2) have "load_section t root ''backends'' (load_backend t) [] = Some (cf_backends cfg)"
    by (auto simp: load_config_def load_listen_def default_config_def split: option.splits if_splits)
  from load_section_Some [OF this] assms(3-5) have
    eq: "map (load_backend t) arr = map Some (cf_backends cfg)" by auto
  then have len: "length arr = length (cf_backends cfg)" by (metis length_map)
  have be: "load_backend t (arr ! i) = Some (cf_backends cfg ! i)" if "i < length arr" for i
    using arg_cong [OF eq, of "\<lambda>xs. xs ! i"] that len by simp
  show ?thesis
    unfolding Let_def using len load_backend_Some [OF be] by simp
qed

definition ex_toml2 :: "int toml" where
  "ex_toml2 = \<lparr>tm_parse = (\<lambda>p. Some 0), tm_contains = (\<lambda>v k. k = ''backends''),
     tm_find = (\<lambda>v k. Some v), tm_as_array = (\<lambda>v. Some [65616]),
     tm_find_string = (\<lambda>v k. Some k), tm_find_int = (\<lambda>v k. Some v),
     tm_find_or_string = (\<lambda>v k d. d), tm_find_or_int = (\<lambda>v k d. d), tm_find_or_bool = (\<lambda>v k d. d)\<rparr>"

theorem config_backends_witness:
  "\<exists>cfg. load_config ex_toml2 ''p'' = Some cfg \<and> uint (be_port (cf_backends cfg ! 0)) = 80"
proof -
  have "load_config ex_toml2 ''p'' \<noteq> None"
    by (simp add: ex_toml2_def load_config_def load_listen_def load_section_def load_backend_def
        default_config_def)
  then obtain cfg where c: "load_config ex_toml2 ''p'' = Some cfg" by blast
  have "tm_parse ex_toml2 ''p'' = Some 0" "tm_contains ex_toml2 0 ''backends''"
    "tm_find ex_toml2 0 ''backends'' = Some 0" "tm_as_array ex_toml2 0 = Some [65616]"
    by (simp_all add: ex_toml2_def)
  from config_backends [OF c this] have "uint (be_port (cf_backends cfg ! 0)) = 65616 mod 65536"
    by (simp add: ex_toml2_def Let_def)
  with c show ?thesis by simp
qed

text \<open>The \<^verbatim>\<open>/stats\<close> text determines every counter: two snapshots with the same rendering
  (and uptime text) agree in all eight counters.\<close>

theorem render_determines_counters:
  "render up s = render up s' \<longleftrightarrow>
     st_tcp_conns s = st_tcp_conns s' \<and> st_quic_conns s = st_quic_conns s'
     \<and> st_requests s = st_requests s' \<and> st_resp_ok s = st_resp_ok s' \<and> st_resp_err s = st_resp_err s'
     \<and> st_backend_connects s = st_backend_connects s' \<and> st_lat_us_total s = st_lat_us_total s'
     \<and> st_lat_count s = st_lat_count s'"
  using metric_inject [of _ _ "[]" _ "[]"] by (simp add: render_def metric_inject)

end
