(* ===== verification/Upstream_Pool.thy ===== *)
theory Upstream_Pool
  imports Config_Router "HOL-Library.Multiset"
begin

text \<open>
  The per-worker pool of backend connections, \<^verbatim>\<open>src/proxy/upstream_pool.{h,cpp}\<close>.

  Streams, QUIC sessions and connect callbacks are identified by numbers.  The state is the pool's
  members and what is outstanding outside it: TCP connects that have not completed and sessions on
  which a stream was requested.  Every callback the pool fires is a reply in the log.  The pool's
  environment enters as arguments: whether name resolution succeeds, and which session (if any) the
  QUIC engine's \<^verbatim>\<open>connect\<close> created.  \<open>None\<close> is the exception of a failed resolution, which no
  caller catches.

  The engine announces a new session from inside \<^verbatim>\<open>connect\<close>, as the source relies on.  A requested
  stream is answered at most once, by \<open>on_new_stream\<close>; no operation of the pool does anything after
  requesting one, so an answer inside the request is the same as an answer right after it.
\<close>

section \<open>State\<close>

record endpoint_entry =
  ee_be :: backend_endpoint
  ee_idle :: "nat list"

record open_request =
  oq_endpoint :: backend_endpoint
  oq_from_pool :: bool
  oq_cb :: nat

record reply =
  rp_cb :: nat
  rp_ec :: error_code
  rp_stream :: "nat option"
  rp_endpoint :: backend_endpoint
  rp_from_pool :: bool

record pool =
  pl_endpoints :: "endpoint_entry list"
  pl_rr :: "64 word"
  pl_engine :: bool
  pl_conns :: "string \<rightharpoonup> nat list"
  pl_pending :: "(backend_endpoint \<times> nat) option"
  pl_closed_cb :: "nat \<rightharpoonup> backend_endpoint"
  pl_dead :: "nat list"
  pl_open :: "(nat \<times> open_request) list"
  pl_tcp :: "(backend_endpoint \<times> nat) list"
  pl_log :: "reply list"

definition new_pool :: pool where
  "new_pool = \<lparr>pl_endpoints = [], pl_rr = 0, pl_engine = False, pl_conns = Map.empty, pl_pending = None,
     pl_closed_cb = Map.empty, pl_dead = [], pl_open = [], pl_tcp = [], pl_log = []\<rparr>"

abbreviation kMaxIdlePerEndpoint :: nat where "kMaxIdlePerEndpoint \<equiv> 8"

definition empty_endpoint :: backend_endpoint where
  "empty_endpoint = \<lparr>be_backend_id = [], be_host = [], be_port = 0, be_weight = 1, be_protocol = TCP\<rparr>"

record pool_env =
  ev_resolves :: "backend_endpoint \<Rightarrow> bool"
  ev_quic_conn :: "backend_endpoint \<Rightarrow> nat option"

definition fire :: "nat \<Rightarrow> error_code \<Rightarrow> nat option \<Rightarrow> backend_endpoint \<Rightarrow> bool \<Rightarrow> pool \<Rightarrow> pool" where
  "fire cb ec st ep fp p = p\<lparr>pl_log := pl_log p @
     [\<lparr>rp_cb = cb, rp_ec = ec, rp_stream = st, rp_endpoint = ep, rp_from_pool = fp\<rparr>]\<rparr>"

section \<open>Operations\<close>

definition add_backend :: "backend_endpoint \<Rightarrow> pool \<Rightarrow> pool" where
  "add_backend be p = p\<lparr>pl_endpoints := pl_endpoints p @ [\<lparr>ee_be = be, ee_idle = []\<rparr>],
     pl_engine := (pl_engine p \<or> be_protocol be = QUIC)\<rparr>"

definition connect_fresh_to :: "pool_env \<Rightarrow> backend_endpoint \<Rightarrow> nat \<Rightarrow> pool \<Rightarrow> pool option" where
  "connect_fresh_to env target cb p =
     (if ev_resolves env target then Some (p\<lparr>pl_tcp := pl_tcp p @ [(target, cb)]\<rparr>) else None)"

text \<open>The completion handler of the TCP connect.\<close>

definition tcp_connected :: "backend_endpoint \<times> nat \<Rightarrow> asio_error + nat \<Rightarrow> pool \<Rightarrow> pool" where
  "tcp_connected req res p = (case req of (target, cb) \<Rightarrow>
     (let p' = p\<lparr>pl_tcp := remove1 req (pl_tcp p)\<rparr> in
      case res of
        Inl e \<Rightarrow> fire cb (Some e) None target False p'
      | Inr st \<Rightarrow> fire cb None (Some st) target False p'))"

text \<open>The idle queue of one entry.\<close>

definition entry_put :: "nat \<Rightarrow> endpoint_entry \<Rightarrow> endpoint_entry" where
  "entry_put st e =
     (if length (ee_idle e) < kMaxIdlePerEndpoint then e\<lparr>ee_idle := ee_idle e @ [st]\<rparr> else e)"

definition entry_take :: "endpoint_entry \<Rightarrow> (nat \<times> endpoint_entry) option" where
  "entry_take e = (case ee_idle e of [] \<Rightarrow> None | st # rest \<Rightarrow> Some (st, e\<lparr>ee_idle := rest\<rparr>))"

fun release_to :: "backend_endpoint \<Rightarrow> nat \<Rightarrow> endpoint_entry list \<Rightarrow> endpoint_entry list" where
  "release_to ep st [] = []"
| "release_to ep st (e # es) =
     (if be_backend_id (ee_be e) = be_backend_id ep \<and> be_host (ee_be e) = be_host ep
         \<and> be_port (ee_be e) = be_port ep
      then entry_put st e # es
      else e # release_to ep st es)"

definition release :: "backend_endpoint \<Rightarrow> nat \<Rightarrow> pool \<Rightarrow> pool" where
  "release ep st p =
     (if be_protocol ep = QUIC then p
      else p\<lparr>pl_endpoints := release_to ep st (pl_endpoints p)\<rparr>)"

definition quic_key :: "backend_endpoint \<Rightarrow> string" where
  "quic_key ep = be_host ep @ '':'' @ show_nat (unat (be_port ep))"

definition remove_quic_conn :: "backend_endpoint \<Rightarrow> nat \<Rightarrow> pool \<Rightarrow> pool" where
  "remove_quic_conn ep s p = (case pl_conns p (quic_key ep) of
       None \<Rightarrow> p
     | Some dq \<Rightarrow>
         (let dq' = remove1 s dq in
          p\<lparr>pl_conns := (pl_conns p)(quic_key ep := (if dq' = [] then None else Some dq'))\<rparr>))"

text \<open>\<^verbatim>\<open>session->async_open_stream\<close> replaces the session's stream callback and requests a stream.\<close>

definition open_quic_stream :: "nat \<Rightarrow> backend_endpoint \<Rightarrow> bool \<Rightarrow> nat \<Rightarrow> pool \<Rightarrow> pool" where
  "open_quic_stream s ep from_pool cb p = p\<lparr>pl_open :=
     (s, \<lparr>oq_endpoint = ep, oq_from_pool = from_pool, oq_cb = cb\<rparr>) # filter (\<lambda>e. fst e \<noteq> s) (pl_open p)\<rparr>"

definition on_client_conn :: "nat \<Rightarrow> pool \<Rightarrow> pool" where
  "on_client_conn s p = (case pl_pending p of
       None \<Rightarrow> p
     | Some (ep, cb) \<Rightarrow>
         open_quic_stream s ep False cb
           (p\<lparr>pl_pending := None, pl_closed_cb := (pl_closed_cb p)(s \<mapsto> ep)\<rparr>))"

definition quic_connect_fresh :: "pool_env \<Rightarrow> backend_endpoint \<Rightarrow> nat \<Rightarrow> pool \<Rightarrow> pool" where
  "quic_connect_fresh env ep cb p =
     (if \<not> pl_engine p then fire cb (Some Not_found) None ep False p
      else (let p' = p\<lparr>pl_pending := Some (ep, cb)\<rparr> in
            case ev_quic_conn env ep of
              Some s \<Rightarrow> on_client_conn s p'
            | None \<Rightarrow> fire cb (Some Host_unreachable) None ep False (p'\<lparr>pl_pending := None\<rparr>)))"

definition quic_connect :: "pool_env \<Rightarrow> backend_endpoint \<Rightarrow> nat \<Rightarrow> pool \<Rightarrow> pool" where
  "quic_connect env ep cb p = (case pl_conns p (quic_key ep) of
       Some (s # ss) \<Rightarrow>
         open_quic_stream s ep True cb
           (p\<lparr>pl_conns := (pl_conns p)(quic_key ep := (if ss = [] then None else Some ss))\<rparr>)
     | _ \<Rightarrow> quic_connect_fresh env ep cb p)"

text \<open>The callback registered by \<open>open_quic_stream\<close>, called with the stream or with null.\<close>

definition on_new_stream :: "pool_env \<Rightarrow> nat \<Rightarrow> nat option \<Rightarrow> pool \<Rightarrow> pool" where
  "on_new_stream env s st p = (case map_of (pl_open p) s of
       None \<Rightarrow> p
     | Some oq \<Rightarrow>
         (let p' = p\<lparr>pl_open := filter (\<lambda>e. fst e \<noteq> s) (pl_open p)\<rparr>; ep = oq_endpoint oq in
          if st \<noteq> None then
            (let k = quic_key ep;
                 dq = (case pl_conns p' k of Some dq \<Rightarrow> dq | None \<Rightarrow> []) in
             fire (oq_cb oq) None st ep (oq_from_pool oq)
               (p'\<lparr>pl_conns := (pl_conns p')(k \<mapsto> dq @ [s])\<rparr>))
          else
            (let p'' = remove_quic_conn ep s p' in
             if oq_from_pool oq then quic_connect env ep (oq_cb oq) p''
             else fire (oq_cb oq) (Some Eof) None ep False p'')))"

text \<open>\<^verbatim>\<open>QuicTransportSession::on_closed\<close> with the callback set in \<open>on_client_conn\<close>.\<close>

definition session_closed :: "nat \<Rightarrow> pool \<Rightarrow> pool" where
  "session_closed s p =
     (let p' = p\<lparr>pl_dead := s # pl_dead p, pl_closed_cb := (pl_closed_cb p)(s := None)\<rparr> in
      case pl_closed_cb p s of None \<Rightarrow> p' | Some ep \<Rightarrow> remove_quic_conn ep s p')"

definition candidates :: "string \<Rightarrow> pool \<Rightarrow> nat list" where
  "candidates bid p =
     filter (\<lambda>i. be_backend_id (ee_be (pl_endpoints p ! i)) = bid) [0 ..< length (pl_endpoints p)]"

definition rr_pick :: "string \<Rightarrow> pool \<Rightarrow> nat" where
  "rr_pick bid p = (let cs = candidates bid p in cs ! (unat (pl_rr p) mod length cs))"

definition async_connect :: "pool_env \<Rightarrow> string \<Rightarrow> nat \<Rightarrow> pool \<Rightarrow> pool option" where
  "async_connect env bid cb p =
     (if candidates bid p = [] then Some (fire cb (Some Not_found) None empty_endpoint False p)
      else
        (let i = rr_pick bid p; entry = pl_endpoints p ! i; p1 = p\<lparr>pl_rr := pl_rr p + 1\<rparr> in
         if be_protocol (ee_be entry) = QUIC then Some (quic_connect env (ee_be entry) cb p1)
         else (case entry_take entry of
                 Some (st, entry') \<Rightarrow>
                   Some (fire cb None (Some st) (ee_be entry) True
                     (p1\<lparr>pl_endpoints := (pl_endpoints p1)[i := entry']\<rparr>))
               | None \<Rightarrow> connect_fresh_to env (ee_be entry) cb p1)))"

definition async_connect_fresh :: "pool_env \<Rightarrow> backend_endpoint \<Rightarrow> nat \<Rightarrow> pool \<Rightarrow> pool option" where
  "async_connect_fresh env ep cb p =
     (if be_protocol ep = QUIC then Some (quic_connect_fresh env ep cb p)
      else connect_fresh_to env ep cb p)"

section \<open>The pool's invariant\<close>

text \<open>A session in the reuse table is live, is listed once and under the key of its own endpoint, and
  has no stream requested on it.\<close>

definition busy :: "pool \<Rightarrow> nat set" where
  "busy p = fst ` set (pl_open p)"

definition homed :: "pool \<Rightarrow> nat \<Rightarrow> string \<Rightarrow> bool" where
  "homed p s k \<longleftrightarrow> (case pl_closed_cb p s of Some ep \<Rightarrow> quic_key ep = k | None \<Rightarrow> False)"

definition conns_ok :: "pool \<Rightarrow> bool" where
  "conns_ok p \<longleftrightarrow> (\<forall>k dq. pl_conns p k = Some dq \<longrightarrow>
     dq \<noteq> [] \<and> distinct dq \<and> (\<forall>s \<in> set dq. homed p s k \<and> s \<notin> busy p))"

definition open_ok :: "pool \<Rightarrow> bool" where
  "open_ok p \<longleftrightarrow> distinct (map fst (pl_open p)) \<and>
     (\<forall>e \<in> set (pl_open p). fst e \<in> set (pl_dead p) \<or> homed p (fst e) (quic_key (oq_endpoint (snd e))))"

definition idle_ok :: "pool \<Rightarrow> bool" where
  "idle_ok p \<longleftrightarrow> (\<forall>e \<in> set (pl_endpoints p). length (ee_idle e) \<le> kMaxIdlePerEndpoint)"

definition pool_inv :: "pool \<Rightarrow> bool" where
  "pool_inv p \<longleftrightarrow> conns_ok p \<and> open_ok p \<and> idle_ok p \<and> pl_pending p = None
     \<and> (\<forall>s \<in> set (pl_dead p). pl_closed_cb p s = None)"

text \<open>What the pool relies on: the engine's \<^verbatim>\<open>connect\<close> hands out sessions not seen before.\<close>

definition new_sessions :: "pool_env \<Rightarrow> pool \<Rightarrow> bool" where
  "new_sessions env p \<longleftrightarrow> (\<forall>ep s. ev_quic_conn env ep = Some s \<longrightarrow>
     pl_closed_cb p s = None \<and> s \<notin> set (pl_dead p))"

lemmas inv_defs = pool_inv_def conns_ok_def open_ok_def idle_ok_def homed_def busy_def

lemma pool_inv_new: "pool_inv new_pool"
  by (simp add: inv_defs new_pool_def)

lemma pool_inv_fire [simp]: "pool_inv (fire cb ec st ep fp p) = pool_inv p"
  by (simp add: inv_defs fire_def)

lemma fire_sel [simp]:
  "pl_conns (fire cb ec st ep fp p) = pl_conns p" "pl_open (fire cb ec st ep fp p) = pl_open p"
  "pl_tcp (fire cb ec st ep fp p) = pl_tcp p" "pl_dead (fire cb ec st ep fp p) = pl_dead p"
  "pl_closed_cb (fire cb ec st ep fp p) = pl_closed_cb p"
  "pl_endpoints (fire cb ec st ep fp p) = pl_endpoints p" "pl_rr (fire cb ec st ep fp p) = pl_rr p"
  by (simp_all add: fire_def)

lemma pool_inv_rr [simp]: "pool_inv (p\<lparr>pl_rr := r\<rparr>) = pool_inv p"
  by (simp add: inv_defs)

lemma pool_inv_tcp [simp]: "pool_inv (p\<lparr>pl_tcp := q\<rparr>) = pool_inv p"
  by (simp add: inv_defs)

lemma idle_ok_release: "\<forall>e \<in> set es. length (ee_idle e) \<le> kMaxIdlePerEndpoint \<Longrightarrow>
   \<forall>e \<in> set (release_to ep st es). length (ee_idle e) \<le> kMaxIdlePerEndpoint"
  by (induction es) (auto simp: entry_put_def)

lemma pool_inv_endpoints:
  "pool_inv p \<Longrightarrow> \<forall>e \<in> set es. length (ee_idle e) \<le> kMaxIdlePerEndpoint \<Longrightarrow>
   pool_inv (p\<lparr>pl_endpoints := es\<rparr>)"
  by (simp add: inv_defs)

lemma pool_inv_release: "pool_inv p \<Longrightarrow> pool_inv (release ep st p)"
  by (auto simp: release_def intro!: pool_inv_endpoints idle_ok_release) (simp add: pool_inv_def idle_ok_def)

lemma pool_inv_add_backend: "pool_inv p \<Longrightarrow> pool_inv (add_backend be p)"
  by (auto simp: inv_defs add_backend_def)

lemma pool_inv_conns:
  assumes "pool_inv p" "distinct dq" "\<forall>s \<in> set dq. homed p s k \<and> s \<notin> busy p"
  shows "pool_inv (p\<lparr>pl_conns := (pl_conns p)(k := (if dq = [] then None else Some dq))\<rparr>)"
proof -
  let ?q = "p\<lparr>pl_conns := (pl_conns p)(k := (if dq = [] then None else Some dq))\<rparr>"
  have "homed ?q = homed p" "busy ?q = busy p" "open_ok ?q = open_ok p" "idle_ok ?q = idle_ok p"
    by (simp_all add: homed_def busy_def open_ok_def idle_ok_def fun_eq_iff)
  moreover have "conns_ok ?q"
    using assms by (auto simp: pool_inv_def conns_ok_def calculation split: if_splits)
  ultimately show ?thesis using assms(1) by (simp add: pool_inv_def)
qed

lemma conns_homed:
  "pool_inv p \<Longrightarrow> pl_conns p k = Some dq \<Longrightarrow> distinct dq \<and> (\<forall>s \<in> set dq. homed p s k \<and> s \<notin> busy p)"
  by (simp add: pool_inv_def conns_ok_def)

lemma pool_inv_remove: "pool_inv p \<Longrightarrow> pool_inv (remove_quic_conn ep s p)"
proof (cases "pl_conns p (quic_key ep)")
  case (Some dq)
  assume p: "pool_inv p"
  from conns_homed [OF p Some] have "distinct (remove1 s dq)"
    "\<forall>t \<in> set (remove1 s dq). homed p t (quic_key ep) \<and> t \<notin> busy p"
    by (auto dest: notin_set_remove1)
  from pool_inv_conns [OF p this] Some show ?thesis by (simp add: remove_quic_conn_def Let_def)
qed (simp add: remove_quic_conn_def)

lemma pool_inv_pending: "pool_inv p \<Longrightarrow> pool_inv (p\<lparr>pl_pending := None\<rparr>)"
  by (simp add: inv_defs)

lemma pool_inv_open:
  assumes "pool_inv p" "homed p s (quic_key ep)" "\<forall>k dq. pl_conns p k = Some dq \<longrightarrow> s \<notin> set dq"
  shows "pool_inv (open_quic_stream s ep fp cb p)"
proof -
  let ?q = "open_quic_stream s ep fp cb p"
  from assms(1) have p: "conns_ok p" "open_ok p" by (simp_all add: pool_inv_def)
  have "busy ?q = insert s (busy p)"
    by (auto simp: busy_def open_quic_stream_def image_iff)
  moreover have "homed ?q = homed p" "pl_conns ?q = pl_conns p" "pl_dead ?q = pl_dead p"
    by (auto simp: homed_def open_quic_stream_def fun_eq_iff)
  ultimately have "conns_ok ?q" using p(1) assms(3) by (auto simp: conns_ok_def)
  moreover have "open_ok ?q"
    using p(2) assms(2)
    by (auto simp: open_ok_def homed_def open_quic_stream_def distinct_map_filter split: option.splits)
  ultimately show ?thesis
    using assms(1) by (simp add: pool_inv_def idle_ok_def open_quic_stream_def)
qed


lemma homed_unique: "homed p s k \<Longrightarrow> homed p s k' \<Longrightarrow> k = k'"
  by (auto simp: homed_def split: option.splits)

lemma pool_inv_fresh:
  assumes "pool_inv p" "new_sessions env p"
  shows "pool_inv (quic_connect_fresh env ep cb p)"
proof (cases "pl_engine p")
  case True
  show ?thesis
  proof (cases "ev_quic_conn env ep")
    case None
    with True pool_inv_pending [OF assms(1)] show ?thesis by (simp add: quic_connect_fresh_def)
  next
    case (Some s)
    let ?q = "p\<lparr>pl_pending := None, pl_closed_cb := (pl_closed_cb p)(s \<mapsto> ep)\<rparr>"
    from Some assms(2) have s: "pl_closed_cb p s = None" "s \<notin> set (pl_dead p)"
      by (auto simp: new_sessions_def)
    then have unpooled: "s \<notin> set dq" if "pl_conns p k = Some dq" for k dq
      using conns_homed [OF assms(1) that] by (auto simp: homed_def)
    have h: "homed p t k \<Longrightarrow> homed ?q t k" for t k
      using s by (auto simp: homed_def)
    have "conns_ok ?q"
      using assms(1) h unfolding pool_inv_def conns_ok_def busy_def by simp
    moreover have "open_ok ?q"
      using assms(1) h unfolding pool_inv_def open_ok_def by fastforce
    ultimately have "pool_inv ?q"
      using assms(1) s by (auto simp: pool_inv_def idle_ok_def)
    then have "pool_inv (open_quic_stream s ep False cb ?q)"
      using unpooled by (intro pool_inv_open) (auto simp: homed_def)
    with True Some show ?thesis by (simp add: quic_connect_fresh_def on_client_conn_def)
  qed
qed (use assms(1) in \<open>simp add: quic_connect_fresh_def\<close>)

lemma pool_inv_quic_connect:
  assumes "pool_inv p" "new_sessions env p"
  shows "pool_inv (quic_connect env ep cb p)"
proof (cases "\<exists>s ss. pl_conns p (quic_key ep) = Some (s # ss)")
  case True
  then obtain s ss where k: "pl_conns p (quic_key ep) = Some (s # ss)" by blast
  let ?q = "p\<lparr>pl_conns := (pl_conns p)(quic_key ep := (if ss = [] then None else Some ss))\<rparr>"
  from conns_homed [OF assms(1) k] have h: "homed p s (quic_key ep)" "s \<notin> set ss" "distinct ss"
    "\<forall>t \<in> set ss. homed p t (quic_key ep) \<and> t \<notin> busy p"
    by auto
  have "s \<notin> set dq" if "pl_conns ?q k' = Some dq" for k' dq
  proof (cases "k' = quic_key ep")
    case True
    with that h(2) show ?thesis by (auto split: if_splits)
  next
    case False
    with that have "pl_conns p k' = Some dq" by simp
    from conns_homed [OF assms(1) this] False homed_unique [OF h(1), of k'] show ?thesis by blast
  qed
  moreover have "pool_inv ?q" by (rule pool_inv_conns [OF assms(1) h(3,4)])
  moreover have "homed ?q s (quic_key ep)" using h(1) by (simp add: homed_def)
  ultimately have "pool_inv (open_quic_stream s ep True cb ?q)"
    by (intro pool_inv_open) blast+
  with k show ?thesis by (simp add: quic_connect_def)
next
  case False
  then have "quic_connect env ep cb p = quic_connect_fresh env ep cb p"
    by (auto simp: quic_connect_def split: option.splits list.splits)
  with pool_inv_fresh [OF assms] show ?thesis by simp
qed


lemma remove_quic_conn_sel [simp]:
  "pl_open (remove_quic_conn ep s p) = pl_open p" "pl_closed_cb (remove_quic_conn ep s p) = pl_closed_cb p"
  "pl_dead (remove_quic_conn ep s p) = pl_dead p" "pl_tcp (remove_quic_conn ep s p) = pl_tcp p"
  "pl_log (remove_quic_conn ep s p) = pl_log p" "pl_endpoints (remove_quic_conn ep s p) = pl_endpoints p"
  "pl_pending (remove_quic_conn ep s p) = pl_pending p"
  by (simp_all add: remove_quic_conn_def Let_def split: option.split)

lemma pool_inv_answer:
  assumes "pool_inv p"
  shows "pool_inv (p\<lparr>pl_open := filter (\<lambda>e. fst e \<noteq> s) (pl_open p)\<rparr>)"
  using assms by (auto simp: inv_defs distinct_map_filter)

lemma open_homed:
  assumes "pool_inv p" "map_of (pl_open p) s = Some oq" "s \<notin> set (pl_dead p)"
  shows "homed p s (quic_key (oq_endpoint oq)) \<and> s \<in> busy p"
proof -
  from map_of_SomeD [OF assms(2)] have m: "(s, oq) \<in> set (pl_open p)" .
  with assms(1,3) have "homed p s (quic_key (oq_endpoint oq))"
    by (fastforce simp: pool_inv_def open_ok_def)
  moreover have "s \<in> busy p" using m by (force simp: busy_def)
  ultimately show ?thesis by simp
qed

lemma pool_inv_on_new_stream:
  assumes "pool_inv p" "new_sessions env p" "s \<notin> set (pl_dead p)"
  shows "pool_inv (on_new_stream env s st p)"
proof (cases "map_of (pl_open p) s")
  case (Some oq)
  let ?ep = "oq_endpoint oq" and ?q = "p\<lparr>pl_open := filter (\<lambda>e. fst e \<noteq> s) (pl_open p)\<rparr>"
  have q: "pool_inv ?q" by (rule pool_inv_answer [OF assms(1)])
  show ?thesis
  proof (cases st)
    case None
    have "new_sessions env (remove_quic_conn ?ep s ?q)"
      using assms(2) by (simp add: new_sessions_def)
    with pool_inv_remove [OF q, of ?ep s] pool_inv_quic_connect [of "remove_quic_conn ?ep s ?q" env] None Some
    show ?thesis by (simp add: on_new_stream_def Let_def)
  next
    case (Some st')
    define dq where "dq = (case pl_conns p (quic_key ?ep) of Some dq \<Rightarrow> dq | None \<Rightarrow> [])"
    from open_homed [OF assms(1) \<open>map_of (pl_open p) s = Some oq\<close> assms(3)]
    have h: "homed p s (quic_key ?ep)" "s \<in> busy p" by auto
    have d: "distinct dq \<and> (\<forall>t \<in> set dq. homed p t (quic_key ?ep) \<and> t \<notin> busy p)"
      using conns_homed [OF assms(1), of "quic_key ?ep"] by (auto simp: dq_def split: option.splits)
    have "homed ?q t (quic_key ?ep) \<and> t \<notin> busy ?q" if "t \<in> set (dq @ [s])" for t
      using that d h by (auto simp: homed_def busy_def)
    with d h pool_inv_conns [OF q, of "dq @ [s]" "quic_key ?ep"]
    have "pool_inv (?q\<lparr>pl_conns := (pl_conns ?q)(quic_key ?ep \<mapsto> dq @ [s])\<rparr>)" by auto
    with Some \<open>map_of (pl_open p) s = Some oq\<close> show ?thesis
      by (simp add: on_new_stream_def Let_def dq_def)
  qed
qed (use assms(1) in \<open>simp add: on_new_stream_def\<close>)

lemma pool_inv_session_closed:
  assumes "pool_inv p"
  shows "pool_inv (session_closed s p)"
proof (cases "pl_closed_cb p s")
  case None
  then have "session_closed s p = p\<lparr>pl_dead := s # pl_dead p\<rparr>"
    by (simp add: session_closed_def fun_upd_idem_iff [THEN iffD2])
  moreover have "homed (p\<lparr>pl_dead := s # pl_dead p\<rparr>) = homed p"
    by (simp add: homed_def fun_eq_iff)
  ultimately show ?thesis
    using assms None by (auto simp: pool_inv_def conns_ok_def open_ok_def idle_ok_def busy_def)
next
  case (Some ep)
  let ?k = "quic_key ep" and ?r = "remove_quic_conn ep s p"
  have r: "pool_inv ?r" by (rule pool_inv_remove [OF assms])
  have gone: "s \<notin> set dq" if "pl_conns ?r k = Some dq" for k dq
  proof
    assume "s \<in> set dq"
    with conns_homed [OF r that] Some have "k = ?k" by (auto simp: homed_def)
    with that \<open>s \<in> set dq\<close> conns_homed [OF assms, of ?k] show False
      by (auto simp: remove_quic_conn_def Let_def split: option.splits if_splits)
  qed
  let ?q = "?r\<lparr>pl_dead := s # pl_dead p, pl_closed_cb := (pl_closed_cb p)(s := None)\<rparr>"
  have h: "homed ?r t k \<Longrightarrow> t \<noteq> s \<Longrightarrow> homed ?q t k" for t k by (simp add: homed_def)
  have "conns_ok ?q"
    unfolding conns_ok_def
  proof (intro allI impI)
    fix k dq assume "pl_conns ?q k = Some dq"
    then have k: "pl_conns ?r k = Some dq" by simp
    have "homed ?q t k" if "t \<in> set dq" for t
      using that conns_homed [OF r k] gone [OF k] h by blast
    moreover have "busy ?q = busy ?r" by (simp add: busy_def)
    moreover have "dq \<noteq> []" using r k by (simp add: pool_inv_def conns_ok_def)
    ultimately show "dq \<noteq> [] \<and> distinct dq \<and> (\<forall>t \<in> set dq. homed ?q t k \<and> t \<notin> busy ?q)"
      using conns_homed [OF r k] by simp
  qed
  moreover have "open_ok ?q"
    using r h unfolding pool_inv_def open_ok_def by fastforce
  ultimately have "pool_inv ?q"
    using r by (auto simp: pool_inv_def idle_ok_def)
  moreover have "session_closed s p = ?q"
    using Some by (simp add: session_closed_def remove_quic_conn_def Let_def split: option.split)
  ultimately show ?thesis by simp
qed

lemma pool_inv_async_connect:
  assumes "pool_inv p" "new_sessions env p" "async_connect env bid cb p = Some p'"
  shows "pool_inv p'"
proof -
  have "\<forall>e \<in> set ((pl_endpoints p)[i := e'\<lparr>ee_idle := rest\<rparr>]). length (ee_idle e) \<le> kMaxIdlePerEndpoint"
    if "pl_endpoints p ! i = e'" "ee_idle e' = st # rest" "i < length (pl_endpoints p)" for i e' st rest
  proof -
    have "length (ee_idle e') \<le> kMaxIdlePerEndpoint"
      using assms(1) that(1,3) nth_mem by (fastforce simp: pool_inv_def idle_ok_def)
    with that(2) assms(1) show ?thesis
      by (auto simp: pool_inv_def idle_ok_def dest!: set_update_subset_insert [THEN subsetD])
  qed
  moreover have "rr_pick bid p < length (pl_endpoints p)" if "candidates bid p \<noteq> []"
  proof -
    have "rr_pick bid p \<in> set (candidates bid p)"
      using that by (simp add: rr_pick_def Let_def)
    then show ?thesis by (simp add: candidates_def)
  qed
  moreover have "pool_inv (quic_connect env ep cb (p\<lparr>pl_rr := r\<rparr>))" for ep r
    using assms(1,2) by (intro pool_inv_quic_connect) (simp_all add: new_sessions_def)
  ultimately show ?thesis
    using assms(1,3)
    by (auto simp: async_connect_def connect_fresh_to_def Let_def intro!: pool_inv_endpoints
        simp: entry_take_def split: if_splits list.splits)
qed


section \<open>The pool as a step system\<close>

inductive pool_step :: "pool \<Rightarrow> pool \<Rightarrow> bool" where
  step_add: "pool_step p (add_backend be p)"
| step_connect: "new_sessions env p \<Longrightarrow> async_connect env bid cb p = Some p' \<Longrightarrow> pool_step p p'"
| step_fresh: "new_sessions env p \<Longrightarrow> async_connect_fresh env ep cb p = Some p' \<Longrightarrow> pool_step p p'"
| step_tcp: "req \<in> set (pl_tcp p) \<Longrightarrow> pool_step p (tcp_connected req res p)"
| step_release: "pool_step p (release ep st p)"
| step_stream: "new_sessions env p \<Longrightarrow> s \<notin> set (pl_dead p) \<Longrightarrow> pool_step p (on_new_stream env s st p)"
| step_closed: "s \<notin> set (pl_dead p) \<Longrightarrow> pool_step p (session_closed s p)"

lemma pool_inv_step:
  assumes "pool_inv p" "pool_step p p'"
  shows "pool_inv p'"
  using assms(2,1)
proof (cases rule: pool_step.cases)
  case (step_fresh env ep cb)
  with assms(1) show ?thesis
    by (auto simp: async_connect_fresh_def connect_fresh_to_def intro: pool_inv_fresh split: if_splits)
next
  case (step_tcp req res)
  with assms(1) show ?thesis by (simp add: tcp_connected_def Let_def split: prod.split sum.split)
qed (use assms(1) in \<open>auto intro: pool_inv_add_backend pool_inv_async_connect pool_inv_release
      pool_inv_on_new_stream pool_inv_session_closed\<close>)

interpretation pool_sys: step_system "\<lambda>p. p = new_pool" pool_step pool_inv
  by unfold_locales (auto intro: pool_inv_new pool_inv_step)

section \<open>Idle connections are a bounded queue\<close>

locale bounded_fifo =
  fixes put :: "'a \<Rightarrow> 'q \<Rightarrow> 'q" and get :: "'q \<Rightarrow> ('a \<times> 'q) option"
    and content :: "'q \<Rightarrow> 'a list" and cap :: nat
  assumes content_put: "content (put x q) = (if length (content q) < cap then content q @ [x] else content q)"
    and get_empty: "content q = [] \<Longrightarrow> get q = None"
    and get_head: "content q = x # xs \<Longrightarrow> \<exists>q'. get q = Some (x, q') \<and> content q' = xs"
begin

lemma content_puts: "length (content q) \<le> cap \<Longrightarrow> content (fold put xs q) = take cap (content q @ xs)"
proof (induction xs arbitrary: q)
  case (Cons x xs)
  then show ?case
    by (cases "length (content q) < cap") (auto simp: content_put Suc_diff_Suc [symmetric])
qed simp

lemma get_after_puts:
  assumes "content q = x # xs" "length (content q) \<le> cap"
  shows "\<exists>q'. get (fold put ys q) = Some (x, q') \<and> content q' = tl (take cap (x # xs @ ys))"
proof -
  from content_puts [OF assms(2)] assms have "content (fold put ys q) = take cap (x # xs @ ys)" by simp
  moreover have "0 < cap" using assms by auto
  ultimately have "content (fold put ys q) = x # tl (take cap (x # xs @ ys))"
    by (cases cap) simp_all
  from get_head [OF this] show ?thesis .
qed

end

interpretation idle_queue: bounded_fifo entry_put entry_take ee_idle kMaxIdlePerEndpoint
proof
  fix x :: nat and xs :: "nat list" and q :: endpoint_entry
  show "ee_idle (entry_put x q) =
      (if length (ee_idle q) < kMaxIdlePerEndpoint then ee_idle q @ [x] else ee_idle q)"
    by (simp add: entry_put_def)
  show "ee_idle q = [] \<Longrightarrow> entry_take q = None" by (simp add: entry_take_def)
  show "ee_idle q = x # xs \<Longrightarrow> \<exists>q'. entry_take q = Some (x, q') \<and> ee_idle q' = xs"
    by (simp add: entry_take_def)
qed

section \<open>Callbacks are conserved\<close>

text \<open>The callbacks the pool has been given: those answered and those it still owes an answer.\<close>

definition callbacks :: "pool \<Rightarrow> nat multiset" where
  "callbacks p = mset (map rp_cb (pl_log p)) + mset (map snd (pl_tcp p))
     + mset (map (\<lambda>e. oq_cb (snd e)) (pl_open p))"

lemma callbacks_fire [simp]: "callbacks (fire cb ec st ep fp p) = add_mset cb (callbacks p)"
  by (simp add: callbacks_def fire_def)

lemma callbacks_remove [simp]: "callbacks (remove_quic_conn ep s p) = callbacks p"
  by (simp add: callbacks_def)

lemma callbacks_open:
  assumes "s \<notin> busy p"
  shows "callbacks (open_quic_stream s ep fp cb p) = add_mset cb (callbacks p)"
proof -
  have "filter (\<lambda>e. fst e \<noteq> s) (pl_open p) = pl_open p"
    using assms by (auto simp: busy_def filter_id_conv)
  then show ?thesis by (simp add: callbacks_def open_quic_stream_def)
qed

lemma callbacks_fresh:
  assumes "pool_inv p" "new_sessions env p"
  shows "callbacks (quic_connect_fresh env ep cb p) = add_mset cb (callbacks p)"
proof -
  have "s \<notin> busy p" if "ev_quic_conn env ep = Some s" for s
    using that assms by (force simp: new_sessions_def pool_inv_def open_ok_def busy_def homed_def)
  then have "callbacks (open_quic_stream s ep False cb (p\<lparr>pl_pending := None, pl_closed_cb := f\<rparr>)) =
      add_mset cb (callbacks p)" if "ev_quic_conn env ep = Some s" for s f
    using that by (subst callbacks_open) (simp_all add: busy_def callbacks_def)
  moreover have "callbacks (p\<lparr>pl_pending := None\<rparr>) = callbacks p" by (simp add: callbacks_def)
  ultimately show ?thesis
    by (auto simp: quic_connect_fresh_def on_client_conn_def Let_def split: option.split)
qed

lemma callbacks_quic_connect:
  assumes "pool_inv p" "new_sessions env p"
  shows "callbacks (quic_connect env ep cb p) = add_mset cb (callbacks p)"
proof (cases "\<exists>s ss. pl_conns p (quic_key ep) = Some (s # ss)")
  case True
  then obtain s ss where k: "pl_conns p (quic_key ep) = Some (s # ss)" by blast
  from conns_homed [OF assms(1) k] have "s \<notin> busy p" by simp
  then have "callbacks (open_quic_stream s ep True cb (p\<lparr>pl_conns := m\<rparr>)) = add_mset cb (callbacks p)" for m
    by (subst callbacks_open) (simp_all add: busy_def callbacks_def)
  with k show ?thesis by (simp add: quic_connect_def)
next
  case False
  then have "quic_connect env ep cb p = quic_connect_fresh env ep cb p"
    by (auto simp: quic_connect_def split: option.splits list.splits)
  with callbacks_fresh [OF assms] show ?thesis by simp
qed

lemma mset_filter_key:
  assumes "distinct (map fst xs)" "map_of xs s = Some v"
  shows "mset (map (\<lambda>e. f (snd e)) xs) = add_mset (f v) (mset (map (\<lambda>e. f (snd e)) (filter (\<lambda>e. fst e \<noteq> s) xs)))"
  using assms
proof (induction xs)
  case (Cons x xs)
  show ?case
  proof (cases "fst x = s")
    case True
    with Cons.prems have "\<forall>e \<in> set xs. fst e \<noteq> s" "snd x = v"
      by (cases x; force)+
    with True show ?thesis by (simp add: filter_id_conv [THEN iffD2])
  next
    case False
    with Cons show ?thesis by (cases x) simp
  qed
qed simp

lemma callbacks_on_new_stream:
  assumes "pool_inv p" "new_sessions env p"
  shows "callbacks (on_new_stream env s st p) = callbacks p"
proof (cases "map_of (pl_open p) s")
  case (Some oq)
  let ?q = "p\<lparr>pl_open := filter (\<lambda>e. fst e \<noteq> s) (pl_open p)\<rparr>"
  from assms(1) have "distinct (map fst (pl_open p))" by (simp add: pool_inv_def open_ok_def)
  from mset_filter_key [OF this Some, of oq_cb] have q: "add_mset (oq_cb oq) (callbacks ?q) = callbacks p"
    by (simp add: callbacks_def)
  let ?r = "remove_quic_conn (oq_endpoint oq) s ?q"
  have "new_sessions env ?r" using assms(2) by (simp add: new_sessions_def)
  from callbacks_quic_connect [OF pool_inv_remove [OF pool_inv_answer [OF assms(1)]] this]
  have "callbacks (quic_connect env (oq_endpoint oq) (oq_cb oq) ?r) = callbacks p" using q by simp
  moreover have "callbacks (?q\<lparr>pl_conns := m\<rparr>) = callbacks ?q" for m by (simp add: callbacks_def)
  ultimately show ?thesis
    using Some q by (simp add: on_new_stream_def Let_def)
qed (simp add: on_new_stream_def)

lemma callbacks_async_connect:
  assumes "pool_inv p" "new_sessions env p" "async_connect env bid cb p = Some q"
  shows "callbacks q = add_mset cb (callbacks p)"
proof -
  have "callbacks (quic_connect env ep cb (p\<lparr>pl_rr := r\<rparr>)) = add_mset cb (callbacks p)" for ep r
    using assms(1,2) callbacks_quic_connect [of "p\<lparr>pl_rr := r\<rparr>" env]
    by (simp add: new_sessions_def callbacks_def)
  with assms(3) show ?thesis
    by (auto simp: async_connect_def connect_fresh_to_def callbacks_def fire_def Let_def
        split: if_splits option.splits)
qed

lemma callbacks_async_connect_fresh:
  assumes "pool_inv p" "new_sessions env p" "async_connect_fresh env ep cb p = Some q"
  shows "callbacks q = add_mset cb (callbacks p)"
  using assms(3) callbacks_fresh [OF assms(1,2)]
  by (auto simp: async_connect_fresh_def connect_fresh_to_def callbacks_def split: if_splits)

lemma callbacks_tcp_connected:
  assumes "req \<in> set (pl_tcp p)"
  shows "callbacks (tcp_connected req res p) = callbacks p"
proof -
  have "mset (pl_tcp p) = add_mset req (mset (remove1 req (pl_tcp p)))" using assms by simp
  then have "mset (map snd (pl_tcp p)) = add_mset (snd req) (mset (map snd (remove1 req (pl_tcp p))))"
    by (metis image_mset_add_mset mset_map)
  then show ?thesis
    by (auto simp: tcp_connected_def callbacks_def fire_def Let_def split: prod.split sum.split)
qed

lemma callbacks_release: "callbacks (release ep st p) = callbacks p"
  by (simp add: release_def callbacks_def)

lemma callbacks_session_closed: "callbacks (session_closed s p) = callbacks p"
  by (simp add: session_closed_def callbacks_def Let_def split: option.split)

section \<open>Round-robin\<close>

lemma backends_frame [simp]:
  "pl_endpoints (quic_connect env ep cb p) = pl_endpoints p" "pl_rr (quic_connect env ep cb p) = pl_rr p"
  by (auto simp: quic_connect_def quic_connect_fresh_def on_client_conn_def open_quic_stream_def Let_def
      split: option.split list.split)

lemma candidates_cong:
  assumes "map ee_be (pl_endpoints p) = map ee_be (pl_endpoints q)"
  shows "candidates bid p = candidates bid q"
proof -
  from assms have len: "length (pl_endpoints p) = length (pl_endpoints q)" by (metis length_map)
  have "ee_be (pl_endpoints p ! i) = ee_be (pl_endpoints q ! i)" if "i < length (pl_endpoints q)" for i
    using arg_cong [OF assms, of "\<lambda>xs. xs ! i"] that len by simp
  with len show ?thesis by (auto simp: candidates_def intro: filter_cong)
qed

lemma async_connect_frame:
  assumes "async_connect env bid cb p = Some p'"
  shows "candidates b p' = candidates b p"
    and "candidates bid p \<noteq> [] \<Longrightarrow> pl_rr p' = pl_rr p + 1"
proof -
  have upd: "map ee_be (es[i := e]) = map ee_be es" if "ee_be e = ee_be (es ! i)" for es :: "endpoint_entry list" and i e
    using that by (cases "i < length es") (simp_all add: map_update list_update_same_conv list_update_beyond)
  show "candidates b p' = candidates b p"
    using assms upd
    by (intro candidates_cong)
      (auto simp: async_connect_def connect_fresh_to_def entry_take_def Let_def split: if_splits list.splits)
  show "candidates bid p \<noteq> [] \<Longrightarrow> pl_rr p' = pl_rr p + 1"
    using assms
    by (auto simp: async_connect_def connect_fresh_to_def Let_def split: if_splits option.splits)
qed

lemma mod_window: "0 < k \<Longrightarrow> j < k \<Longrightarrow> \<exists>i < k. (r + i) mod k = (j::nat)"
proof -
  assume k: "0 < k" "j < k"
  let ?i = "(j + (k - r mod k)) mod k"
  have "(r + ?i) mod k = (r mod k + (j + (k - r mod k))) mod k"
    by (simp add: mod_simps)
  also have "r mod k + (j + (k - r mod k)) = j + k"
    using k(1) mod_less_divisor [OF k(1), of r] by linarith
  finally show ?thesis using k by (intro exI [of _ ?i]) simp
qed

section \<open>Properties\<close>

text \<open>C3: in every reachable state of the pool, whatever the interleaving of connects, completions,
  releases, new streams and closed sessions: no endpoint holds more than 8 idle connections, no
  empty queue is kept, and a QUIC session is in the reuse table at most once, only under the key of
  its own endpoint, only while it is live, and never while a stream is being opened on it.\<close>

theorem pool_reachable_inv:
  assumes "reachable (\<lambda>p. p = new_pool) pool_step p"
  shows "(\<forall>e \<in> set (pl_endpoints p). length (ee_idle e) \<le> 8)
    \<and> (\<forall>k dq. pl_conns p k = Some dq \<longrightarrow> dq \<noteq> [] \<and> distinct dq
         \<and> (\<forall>s \<in> set dq. s \<notin> set (pl_dead p) \<and> s \<notin> busy p
              \<and> (\<exists>ep. pl_closed_cb p s = Some ep \<and> quic_key ep = k)))
    \<and> pl_pending p = None"
proof -
  have inv: "pool_inv p" by (rule pool_sys.reachable_inv [OF assms])
  have "s \<notin> set (pl_dead p) \<and> (\<exists>ep. pl_closed_cb p s = Some ep \<and> quic_key ep = k)" if "homed p s k" for s k
    using that inv by (auto simp: homed_def pool_inv_def split: option.splits)
  with inv show ?thesis unfolding pool_inv_def conns_ok_def idle_ok_def by blast
qed

definition ex_be :: "transport_protocol \<Rightarrow> string \<Rightarrow> string \<Rightarrow> backend_endpoint" where
  "ex_be proto bid host = \<lparr>be_backend_id = bid, be_host = host, be_port = 443, be_weight = 1, be_protocol = proto\<rparr>"

theorem pool_reachable_inv_witness:
  "\<exists>p. reachable (\<lambda>p. p = new_pool) pool_step p \<and> pl_endpoints p \<noteq> [] \<and> pl_pending p = None"
proof -
  let ?p = "add_backend (ex_be QUIC ''b'' ''h'') new_pool"
  have r: "reachable (\<lambda>p. p = new_pool) pool_step ?p"
    by (rule reach_step [OF reach_init]) (rule refl, rule step_add)
  moreover have "pl_endpoints ?p \<noteq> []" by (simp add: add_backend_def)
  ultimately show ?thesis using pool_reachable_inv [OF r] by blast
qed


definition ex_env :: pool_env where
  "ex_env = \<lparr>ev_resolves = (\<lambda>ep. be_host ep \<noteq> ''nowhere''), ev_quic_conn = (\<lambda>ep. None)\<rparr>"



text \<open>Round-robin is fair for a group that is requested on its own.  As many consecutive connects
  to a group as it has endpoints go to every endpoint of the group, whatever the counter's value, as
  long as the counter does not wrap.\<close>

theorem pool_round_robin:
  assumes "length (candidates bid (P 0)) = k" "0 < k"
    and "\<And>i. i < k \<Longrightarrow> async_connect (env i) bid (cb i) (P i) = Some (P (Suc i))"
    and "unat (pl_rr (P 0)) + k < 2 ^ 64"
  shows "set (map (\<lambda>i. rr_pick bid (P i)) [0 ..< k]) = set (candidates bid (P 0))"
proof -
  let ?cs = "candidates bid (P 0)" and ?r = "unat (pl_rr (P 0))"
  have P: "candidates bid (P i) = ?cs \<and> unat (pl_rr (P i)) = ?r + i" if "i \<le> k" for i
    using that
  proof (induction i)
    case (Suc i)
    then have IH: "candidates bid (P i) = ?cs" "unat (pl_rr (P i)) = ?r + i" and i: "i < k" by auto
    from IH(1) assms(1,2) have ne: "candidates bid (P i) \<noteq> []" by auto
    have "unat (pl_rr (P i) + 1) = ?r + i + 1"
      using IH(2) assms(4) i by (simp add: unat_word_ariths)
    with IH(1) async_connect_frame [OF assms(3) [OF i]] ne show ?case by simp
  qed simp
  have pick: "rr_pick bid (P i) = ?cs ! ((?r + i) mod k)" if "i < k" for i
    using P [of i] that assms(1) by (simp add: rr_pick_def)
  have "c \<in> set (map (\<lambda>i. rr_pick bid (P i)) [0 ..< k])" if "c \<in> set ?cs" for c
  proof -
    from that assms(1) obtain j where "j < k" "c = ?cs ! j" by (auto simp: in_set_conv_nth)
    moreover from mod_window [OF assms(2) this(1), of ?r] obtain i where "i < k" "(?r + i) mod k = j" by blast
    ultimately show ?thesis using pick by force
  qed
  moreover have "rr_pick bid (P i) \<in> set ?cs" if "i < k" for i
    using pick [OF that] assms(1,2) by simp
  ultimately show ?thesis by (simp only: set_map set_upt) force
qed

definition ex_pool :: pool where
  "ex_pool = add_backend (ex_be TCP ''b'' ''h2'') (add_backend (ex_be TCP ''b'' ''h1'') new_pool)"

definition ex_run :: "nat \<Rightarrow> pool" where
  "ex_run i = ((\<lambda>p. the (async_connect ex_env ''b'' 0 p)) ^^ i) ex_pool"

theorem pool_round_robin_witness:
  "set (map (\<lambda>i. rr_pick ''b'' (ex_run i)) [0 ..< 2]) = set (candidates ''b'' (ex_run 0))"
proof (rule pool_round_robin [where env = "\<lambda>_. ex_env" and cb = "\<lambda>_. 0"])
  show "length (candidates ''b'' (ex_run 0)) = 2" by code_simp
  show "unat (pl_rr (ex_run 0)) + 2 < 2 ^ 64"
    by (simp add: ex_run_def ex_pool_def add_backend_def new_pool_def)
  fix i :: nat assume "i < 2"
  then have "i = 0 \<or> i = 1" by auto
  moreover have "async_connect ex_env ''b'' 0 (ex_run 0) \<noteq> None" "async_connect ex_env ''b'' 0 (ex_run 1) \<noteq> None"
    by (simp_all add: ex_run_def ex_pool_def add_backend_def new_pool_def async_connect_def candidates_def
        rr_pick_def ex_be_def entry_take_def connect_fresh_to_def ex_env_def Let_def)
  ultimately have "async_connect ex_env ''b'' 0 (ex_run i) \<noteq> None" by auto
  then show "async_connect ex_env ''b'' 0 (ex_run i) = Some (ex_run (Suc i))"
    by (auto simp: ex_run_def)
qed simp

text \<open>The round-robin counter is shared by all groups, so requests of one group move the position of
  another.  When two groups of two endpoints each are requested alternately, a group's next request
  goes to the endpoint its previous request went to: its other endpoint is never used.\<close>

theorem pool_round_robin_shared:
  assumes "length (candidates a p) = 2" "candidates b p \<noteq> []"
    and "async_connect env a cb p = Some p1" "async_connect env' b cb' p1 = Some p2"
  shows "rr_pick a p2 = rr_pick a p"
proof -
  from assms(1) have ne: "candidates a p \<noteq> []" by auto
  note f = async_connect_frame [OF assms(3)] async_connect_frame [OF assms(4)]
  have "pl_rr p2 = pl_rr p + 2" using f ne assms(2) by simp
  then have "unat (pl_rr p2) mod 2 = unat (pl_rr p) mod 2"
    by (simp add: unat_word_ariths mod_mod_cancel flip: mod_add_left_eq)
  with f(1,3) assms(1) show ?thesis by (simp add: rr_pick_def)
qed


definition ex_pool2 :: pool where
  "ex_pool2 = add_backend (ex_be TCP ''c'' ''h3'') ex_pool"

theorem pool_round_robin_shared_witness:
  "\<exists>p1 p2. async_connect ex_env ''b'' 0 ex_pool2 = Some p1 \<and> async_connect ex_env ''c'' 1 p1 = Some p2
     \<and> rr_pick ''b'' p2 = rr_pick ''b'' ex_pool2"
proof -
  have "\<exists>p1 p2. async_connect ex_env ''b'' 0 ex_pool2 = Some p1 \<and> async_connect ex_env ''c'' 1 p1 = Some p2"
    by (simp add: ex_pool2_def ex_pool_def add_backend_def new_pool_def async_connect_def candidates_def
        rr_pick_def ex_be_def entry_take_def connect_fresh_to_def ex_env_def Let_def)
  then obtain p1 p2 where c: "async_connect ex_env ''b'' 0 ex_pool2 = Some p1"
    "async_connect ex_env ''c'' 1 p1 = Some p2" by blast
  have "length (candidates ''b'' ex_pool2) = 2" "candidates ''c'' ex_pool2 \<noteq> []" by code_simp+
  from pool_round_robin_shared [OF this c] c show ?thesis by blast
qed

text \<open>Reuse of idle connections.  Connections released to an endpoint are handed out again oldest
  first: when the endpoint a request is sent to has \<open>st\<close> as its oldest idle connection, then
  after any releases to it the request is answered at once with \<open>st\<close>, marked as pooled, without a
  new TCP connect; of the released ones, those beyond the limit of 8 were dropped.\<close>

theorem pool_reuse_fifo:
  assumes "pl_endpoints p = [e]" "be_protocol (ee_be e) = TCP" "ee_idle e = st # rest"
    and "length (ee_idle e) \<le> 8"
  shows "\<exists>e'. async_connect env (be_backend_id (ee_be e)) cb (fold (release (ee_be e)) sts p) =
      Some (fire cb None (Some st) (ee_be e) True (p\<lparr>pl_rr := pl_rr p + 1, pl_endpoints := [e']\<rparr>))
    \<and> ee_be e' = ee_be e \<and> ee_idle e' = tl (take 8 (st # rest @ sts))"
proof -
  have rel: "fold (release (ee_be e)) sts (p\<lparr>pl_endpoints := [f]\<rparr>) = p\<lparr>pl_endpoints := [fold entry_put sts f]\<rparr>
      \<and> ee_be (fold entry_put sts f) = ee_be e"
    if "ee_be f = ee_be e" for f
    using that
  proof (induction sts arbitrary: f)
    case (Cons x xs)
    have "release (ee_be e) x (p\<lparr>pl_endpoints := [f]\<rparr>) = p\<lparr>pl_endpoints := [entry_put x f]\<rparr>"
      "ee_be (entry_put x f) = ee_be e"
      using Cons.prems assms(2) by (simp_all add: release_def entry_put_def)
    with Cons.IH show ?case by simp
  qed simp
  from idle_queue.get_after_puts [OF assms(3,4), of sts] obtain e' where
    take: "entry_take (fold entry_put sts e) = Some (st, e')" "ee_idle e' = tl (take 8 (st # rest @ sts))"
    by blast
  then have be: "ee_be e' = ee_be e"
    using rel [of e] by (auto simp: entry_take_def split: list.splits)
  have "p\<lparr>pl_endpoints := [e]\<rparr> = p" using assms(1) by simp
  then have "async_connect env (be_backend_id (ee_be e)) cb (fold (release (ee_be e)) sts p) =
      Some (fire cb None (Some st) (ee_be e) True (p\<lparr>pl_rr := pl_rr p + 1, pl_endpoints := [e']\<rparr>))"
    using rel [of e] take(1) assms(2)
    by (simp add: async_connect_def candidates_def rr_pick_def Let_def)
  with take(2) be show ?thesis by blast
qed

theorem pool_reuse_fifo_witness:
  "\<exists>p e'. async_connect ex_env ''b'' 0 (fold (release (ex_be TCP ''b'' ''h'')) [5, 6] p) =
      Some (fire 0 None (Some 4) (ex_be TCP ''b'' ''h'') True (p\<lparr>pl_rr := pl_rr p + 1, pl_endpoints := [e']\<rparr>))
    \<and> ee_idle e' = [5, 6]"
proof -
  let ?be = "ex_be TCP ''b'' ''h''"
  let ?e = "\<lparr>ee_be = ?be, ee_idle = [4]\<rparr>"
  let ?p = "new_pool\<lparr>pl_endpoints := [?e]\<rparr>"
  have "pl_endpoints ?p = [?e]" "be_protocol (ee_be ?e) = TCP" "ee_idle ?e = [4]" "length (ee_idle ?e) \<le> 8"
    by (simp_all add: ex_be_def)
  from pool_reuse_fifo [OF this, of ex_env 0 "[5, 6]"] obtain e' where
    "async_connect ex_env (be_backend_id ?be) 0 (fold (release ?be) [5, 6] ?p) =
       Some (fire 0 None (Some 4) ?be True (?p\<lparr>pl_rr := pl_rr ?p + 1, pl_endpoints := [e']\<rparr>))"
    "ee_idle e' = [5, 6]"
    unfolding endpoint_entry.select_convs by auto
  moreover have "be_backend_id ?be = ''b''" by (simp add: ex_be_def)
  ultimately show ?thesis by metis
qed

text \<open>A pooled QUIC connection that turns out to be dead.  When opening a stream fails on a pooled
  session, the same request is tried on the next pooled session of that upstream, which leaves the
  table, and on a fresh connection once the table is empty; when it fails on a fresh connection the
  caller gets end-of-file.\<close>

theorem pool_stale_retry:
  assumes "pool_inv p" "map_of (pl_open p) s = Some oq" "pl_conns p (quic_key (oq_endpoint oq)) = conns"
  shows "on_new_stream env s None p =
     (let q = p\<lparr>pl_open := filter (\<lambda>e. fst e \<noteq> s) (pl_open p)\<rparr>; k = quic_key (oq_endpoint oq) in
      if \<not> oq_from_pool oq then fire (oq_cb oq) (Some Eof) None (oq_endpoint oq) False q
      else case conns of
        Some (s' # ss) \<Rightarrow> open_quic_stream s' (oq_endpoint oq) True (oq_cb oq)
           (q\<lparr>pl_conns := (pl_conns p)(k := (if ss = [] then None else Some ss))\<rparr>)
      | _ \<Rightarrow> quic_connect_fresh env (oq_endpoint oq) (oq_cb oq) q)"
proof -
  let ?q = "p\<lparr>pl_open := filter (\<lambda>e. fst e \<noteq> s) (pl_open p)\<rparr>" and ?k = "quic_key (oq_endpoint oq)"
  have "s \<in> busy p" using map_of_SomeD [OF assms(2)] by (force simp: busy_def)
  then have "remove1 s dq = dq \<and> dq \<noteq> []" if "pl_conns p ?k = Some dq" for dq
    using conns_homed [OF assms(1) that] assms(1) that
    by (intro conjI remove1_idem) (auto simp: pool_inv_def conns_ok_def)
  then have "remove_quic_conn (oq_endpoint oq) s ?q = ?q"
    by (auto simp: remove_quic_conn_def Let_def fun_upd_idem split: option.split)
  then show ?thesis
    using assms(2,3) by (simp add: on_new_stream_def Let_def quic_connect_def split: option.split list.split)
qed


theorem pool_stale_retry_witness:
  "\<exists>p. on_new_stream ex_env 3 None p = fire 9 (Some Eof) None (ex_be QUIC ''b'' ''h'') False (p\<lparr>pl_open := []\<rparr>)
     \<and> pl_open p \<noteq> []"
proof -
  let ?ep = "ex_be QUIC ''b'' ''h''"
  let ?p = "open_quic_stream 3 ?ep False 9 (new_pool\<lparr>pl_closed_cb := [3 \<mapsto> ?ep]\<rparr>)"
  have "pool_inv (new_pool\<lparr>pl_closed_cb := [3 \<mapsto> ?ep]\<rparr>)" by (simp add: inv_defs new_pool_def)
  then have "pool_inv ?p" by (rule pool_inv_open) (simp_all add: homed_def new_pool_def)
  moreover have "map_of (pl_open ?p) 3 = Some \<lparr>oq_endpoint = ?ep, oq_from_pool = False, oq_cb = 9\<rparr>"
    by (simp add: open_quic_stream_def)
  moreover have "filter (\<lambda>e. fst e \<noteq> 3) (pl_open ?p) = []" "pl_open ?p \<noteq> []"
    by (simp_all add: open_quic_stream_def new_pool_def)
  ultimately show ?thesis
    using pool_stale_retry [of ?p 3 _ _ ex_env] by (intro exI [of _ ?p]) (simp add: Let_def)
qed

text \<open>A backend name that does not resolve.  The exception of the blocking resolution leaves
  \<^verbatim>\<open>async_connect\<close> and \<^verbatim>\<open>async_connect_fresh\<close> without the callback having been called or stored,
  so the caller's error reply is never produced.\<close>

theorem pool_resolve_escapes:
  assumes "be_protocol ep = TCP" "\<not> ev_resolves env ep"
  shows "async_connect_fresh env ep cb p = None
    \<and> (pl_endpoints p = [\<lparr>ee_be = ep, ee_idle = []\<rparr>] \<longrightarrow> async_connect env (be_backend_id ep) cb p = None)"
  using assms
  by (simp add: async_connect_fresh_def connect_fresh_to_def async_connect_def candidates_def rr_pick_def
      entry_take_def Let_def)

theorem pool_resolve_escapes_witness:
  "async_connect_fresh ex_env (ex_be TCP [] ''nowhere'') 0 new_pool = None"
  using pool_resolve_escapes [of "ex_be TCP [] ''nowhere''" ex_env 0 new_pool]
  by (simp add: ex_env_def ex_be_def)

text \<open>\<^verbatim>\<open>release\<close> looks for the endpoint by id, host and port but not by protocol.  When a group offers
  the same host and port over QUIC and over TCP, in this order, a finished TCP connection is put into
  the idle queue of the QUIC entry, and a later request sent to the TCP entry does not find it and
  connects again.\<close>

theorem pool_release_other_protocol:
  assumes "ep' = ep\<lparr>be_protocol := QUIC\<rparr>" "be_protocol ep = TCP"
    and "pl_endpoints p = [\<lparr>ee_be = ep', ee_idle = []\<rparr>, \<lparr>ee_be = ep, ee_idle = []\<rparr>]"
    and "ev_resolves env ep" "unat (pl_rr p) mod 2 = 1"
  shows "pl_endpoints (release ep st p) = [\<lparr>ee_be = ep', ee_idle = [st]\<rparr>, \<lparr>ee_be = ep, ee_idle = []\<rparr>]
    \<and> map_option pl_tcp (async_connect env (be_backend_id ep) cb (release ep st p)) =
        Some (pl_tcp p @ [(ep, cb)])"
  using assms
  by (simp add: release_def entry_put_def async_connect_def candidates_def rr_pick_def entry_take_def
      connect_fresh_to_def Let_def numeral_2_eq_2)

theorem pool_release_other_protocol_witness:
  "\<exists>p. pl_endpoints (release (ex_be TCP ''b'' ''h'') 5 p) =
     [\<lparr>ee_be = ex_be QUIC ''b'' ''h'', ee_idle = [5]\<rparr>, \<lparr>ee_be = ex_be TCP ''b'' ''h'', ee_idle = []\<rparr>]"
proof -
  let ?p = "new_pool\<lparr>pl_rr := 1, pl_endpoints := [\<lparr>ee_be = ex_be QUIC ''b'' ''h'', ee_idle = []\<rparr>,
      \<lparr>ee_be = ex_be TCP ''b'' ''h'', ee_idle = []\<rparr>]\<rparr>"
  have "ex_be QUIC ''b'' ''h'' = (ex_be TCP ''b'' ''h'')\<lparr>be_protocol := QUIC\<rparr>"
    "be_protocol (ex_be TCP ''b'' ''h'') = TCP" "ev_resolves ex_env (ex_be TCP ''b'' ''h'')"
    by (simp_all add: ex_be_def ex_env_def)
  from pool_release_other_protocol [OF this(1,2) _ this(3), of ?p 5 0] show ?thesis
    by (intro exI [of _ ?p]) simp
qed

end
