(* ===== verification/Relay_Session.thy ===== *)
theory Relay_Session
  imports Upstream_Pool H1_Codec
begin

text \<open>
  The relay state machine, \<^verbatim>\<open>src/proxy/relay_session.{h,cpp}\<close>: one client stream, one exchange
  after the other, each with its own backend stream.

  The state is the members of \<^verbatim>\<open>RelaySession\<close> and the asynchronous operations in flight, each named by
  the continuation that is waiting for it.  What the relay does to its surroundings is a log of
  actions.  A step is the completion of one outstanding operation with some result, the firing of the
  idle timer or a call of \<^verbatim>\<open>graceful_close\<close>; no function of the relay does anything after starting the
  operation whose completion it waits for, except \<open>bridge_mode\<close>, which starts two.  Passing a null
  backend stream to a codec or reading from it sets the fault flag: the source dereferences it.  The
  counters are this session's share of the process-wide ones.

  The invariant \<open>relay_inv\<close> says which operations can be in flight together and what the session
  holds meanwhile; \<open>follows\<close> is the control-flow graph of the callbacks, from which the bounds on
  the length of an exchange and of the work after teardown are read off; \<open>accounted\<close> relates the
  counters to the operation in flight.
\<close>

section \<open>State\<close>

datatype phase = kRequest | kForward | kResponse | kBridge | kClosed

datatype direction = Up | Down

datatype wait =
    W_parse_request
  | W_connect request_head "h1_body option"
  | W_tunnel_connect
  | W_write_request bool
  | W_reconnect
  | W_parse_response
  | W_write_response bool
  | W_write_101
  | W_write_200
  | W_write_error
  | W_drain
  | W_pump_read direction "nat option"
  | W_pump_write direction "nat option"

datatype action =
    A_pool_connect string
  | A_pool_fresh backend_endpoint
  | A_pool_release backend_endpoint nat
  | A_write_request nat request_head "h1_body option"
  | A_parse_response nat
  | A_write_response response_head "h1_body option"
  | A_client_shutdown
  | A_backend_shutdown nat

record relay =
  ry_router :: router
  ry_client_h1 :: bool
  ry_idle_secs :: int
  ry_backend :: "nat option"
  ry_backend_h3 :: bool
  ry_endpoint :: backend_endpoint
  ry_from_pool :: bool
  ry_pending_head :: "request_head option"
  ry_pending_body :: "h1_body option"
  ry_method :: string
  ry_version :: string
  ry_keep_alive :: bool
  ry_is_upgrade :: bool
  ry_done :: bool
  ry_phase :: phase
  ry_draining :: bool
  ry_timer :: bool
  ry_stats :: proxy_stats
  ry_waits :: "wait list"
  ry_log :: "action list"
  ry_fault :: bool

definition await :: "wait \<Rightarrow> relay \<Rightarrow> relay" where
  "await w r = r\<lparr>ry_waits := ry_waits r @ [w]\<rparr>"

definition act :: "action \<Rightarrow> relay \<Rightarrow> relay" where
  "act a r = r\<lparr>ry_log := ry_log r @ [a]\<rparr>"

definition bump_requests :: "relay \<Rightarrow> relay" where
  "bump_requests r = r\<lparr>ry_stats := (ry_stats r)\<lparr>st_requests := st_requests (ry_stats r) + 1\<rparr>\<rparr>"

definition bump_err :: "relay \<Rightarrow> relay" where
  "bump_err r = r\<lparr>ry_stats := (ry_stats r)\<lparr>st_resp_err := st_resp_err (ry_stats r) + 1\<rparr>\<rparr>"

definition bump_ok :: "relay \<Rightarrow> relay" where
  "bump_ok r = r\<lparr>ry_stats := (ry_stats r)\<lparr>st_resp_ok := st_resp_ok (ry_stats r) + 1\<rparr>\<rparr>"

definition bump_connects :: "relay \<Rightarrow> relay" where
  "bump_connects r =
     r\<lparr>ry_stats := (ry_stats r)\<lparr>st_backend_connects := st_backend_connects (ry_stats r) + 1\<rparr>\<rparr>"

section \<open>Functions of the relay\<close>

definition goto_phase :: "phase \<Rightarrow> relay \<Rightarrow> relay" where
  "goto_phase p r = (if ry_phase r \<noteq> p then r\<lparr>ry_phase := p\<rparr> else r)"

definition kick_idle_timer :: "relay \<Rightarrow> relay" where
  "kick_idle_timer r = (if ry_done r \<or> ry_idle_secs r \<le> 0 then r else r\<lparr>ry_timer := True\<rparr>)"

definition close_backend :: "relay \<Rightarrow> relay" where
  "close_backend r = (case ry_backend r of
       None \<Rightarrow> r
     | Some st \<Rightarrow> (act (A_backend_shutdown st) r)\<lparr>ry_backend := None\<rparr>)"

definition teardown :: "relay \<Rightarrow> relay" where
  "teardown r =
     (if ry_done r then r
      else close_backend (act A_client_shutdown
             (goto_phase kClosed (r\<lparr>ry_done := True, ry_timer := False\<rparr>))))"

definition drain_client :: "relay \<Rightarrow> relay" where
  "drain_client r = (if ry_done r then r else await W_drain r)"

definition gracefully_close_client :: "relay \<Rightarrow> relay" where
  "gracefully_close_client r =
     (if ry_done r then r
      else drain_client (act A_client_shutdown (r\<lparr>ry_draining := True\<rparr>)))"

definition error_head :: "http_status \<Rightarrow> string \<Rightarrow> response_head" where
  "error_head status msg = empty_response_head\<lparr>rs_status := status_code status,
     rs_reason := status_reason status,
     rs_headers := hm_set ''content-length'' (show_nat (length msg))
                     (hm_set ''content-type'' ''text/plain'' [])\<rparr>"

definition write_error :: "http_status \<Rightarrow> string \<Rightarrow> relay \<Rightarrow> relay" where
  "write_error status msg r =
     await W_write_error
       (act (A_write_response (error_head status msg) (Some (Basic (BufferBodySource msg 0))))
         (bump_err r))"

definition request_phase :: "relay \<Rightarrow> relay" where
  "request_phase r = await W_parse_request (kick_idle_timer (goto_phase kRequest r))"

definition after_client_response :: "relay \<Rightarrow> relay" where
  "after_client_response r =
     (if ry_draining r then gracefully_close_client r
      else if ry_keep_alive r \<and> \<not> ry_done r \<and> ry_client_h1 r then request_phase r
      else if ry_client_h1 r then gracefully_close_client r
      else drain_client r)"

definition finish_backend :: "bool \<Rightarrow> relay \<Rightarrow> relay" where
  "finish_backend keep_alive r0 =
     (let r = r0\<lparr>ry_pending_head := None, ry_pending_body := None\<rparr> in
      case ry_backend r of
        None \<Rightarrow> r
      | Some st \<Rightarrow>
          if keep_alive then (act (A_pool_release (ry_endpoint r) st) r)\<lparr>ry_backend := None\<rparr>
          else close_backend r)"

definition response_phase :: "relay \<Rightarrow> relay" where
  "response_phase r0 =
     (let r = kick_idle_timer (goto_phase kResponse r0) in
      case ry_backend r of
        None \<Rightarrow> r\<lparr>ry_fault := True\<rparr>
      | Some st \<Rightarrow> await W_parse_response (act (A_parse_response st) r))"

definition send_backend_request :: "bool \<Rightarrow> relay \<Rightarrow> relay" where
  "send_backend_request retry_allowed r =
     (case (ry_backend r, ry_pending_head r) of
        (Some st, Some head) \<Rightarrow>
          await (W_write_request retry_allowed) (act (A_write_request st head (ry_pending_body r)) r)
      | _ \<Rightarrow> r\<lparr>ry_fault := True\<rparr>)"

definition reconnect_backend_fresh :: "relay \<Rightarrow> relay" where
  "reconnect_backend_fresh r =
     await W_reconnect (act (A_pool_fresh (ry_endpoint r)) (close_backend r))"

definition use_backend ::
  "asio_error + nat \<times> backend_endpoint \<times> bool \<Rightarrow> request_head \<Rightarrow> h1_body option \<Rightarrow> relay \<Rightarrow> relay" where
  "use_backend res head body r = (case res of
       Inl e \<Rightarrow> write_error BadGateway (''upstream unreachable'' @ [LF]) r
     | Inr (st, ep, from_pool) \<Rightarrow>
         (let r1 = kick_idle_timer (r\<lparr>ry_backend := Some st, ry_endpoint := ep\<rparr>);
              r2 = r1\<lparr>ry_backend_h3 := (be_protocol ep = QUIC), ry_from_pool := from_pool\<rparr>;
              r3 = (if from_pool then r2 else bump_connects r2) in
          send_backend_request True (r3\<lparr>ry_pending_head := Some head, ry_pending_body := body\<rparr>)))"

definition pump_bytes :: "direction \<Rightarrow> nat option \<Rightarrow> relay \<Rightarrow> relay" where
  "pump_bytes d b r =
     (if d = Down \<and> b = None then r\<lparr>ry_fault := True\<rparr> else await (W_pump_read d b) r)"

definition bridge_mode :: "relay \<Rightarrow> relay" where
  "bridge_mode r0 =
     (let r = goto_phase kBridge r0 in pump_bytes Down (ry_backend r) (pump_bytes Up (ry_backend r) r))"

definition start_tunnel :: "relay \<Rightarrow> relay" where
  "start_tunnel r =
     await W_write_200
       (act (A_write_response (empty_response_head\<lparr>rs_status := 200, rs_reason := ''Connection Established''\<rparr>)
              None) r)"

definition is_upgrade_request :: "request_head \<Rightarrow> bool" where
  "is_upgrade_request head =
     (if hm_get ''upgrade'' (rq_headers head) = None then False
      else (case hm_get ''connection'' (rq_headers head) of
              Some c \<Rightarrow> contains ''upgrade'' (lower c)
            | None \<Rightarrow> False))"

definition target_endpoint :: "string \<Rightarrow> nat \<Rightarrow> backend_endpoint" where
  "target_endpoint host port = \<lparr>be_backend_id = [], be_host = host, be_port = word_of_nat port,
     be_weight = 1, be_protocol = TCP\<rparr>"

text \<open>The target of a CONNECT: \<^verbatim>\<open>host:port\<close> in the request path.\<close>

definition connect_target :: "string \<Rightarrow> (string \<times> nat) option" where
  "connect_target path = (case rfind_char (CHR '':'') path of
       None \<Rightarrow> None
     | Some colon \<Rightarrow>
         if colon = 0 \<or> colon + 1 \<ge> length path then None
         else (let host = take colon path; port = fst (strtoul (drop (colon + 1) path) 10) in
               if host = [] \<or> port = 0 \<or> port > 65535 then None else Some (host, port)))"

definition handle_connect :: "request_head \<Rightarrow> relay \<Rightarrow> relay" where
  "handle_connect head r = (case connect_target (rq_path head) of
       None \<Rightarrow> write_error BadRequest (''bad CONNECT target'' @ [LF]) r
     | Some (host, port) \<Rightarrow>
         await W_tunnel_connect (act (A_pool_fresh (target_endpoint host port)) r))"

text \<open>The authority of an absolute-form target: \<^verbatim>\<open>host[:port]\<close>, port 80 by default.\<close>

definition forward_target :: "string \<Rightarrow> (string \<times> nat) option" where
  "forward_target authority = (case rfind_char (CHR '':'') authority of
       None \<Rightarrow> Some (authority, 80)
     | Some colon \<Rightarrow>
         (let p = fst (strtoul (drop (colon + 1) authority) 10) in
          if colon = 0 \<or> p = 0 \<or> p > 65535 then None else Some (take colon authority, p)))"

definition handle_forward :: "request_head \<Rightarrow> h1_body option \<Rightarrow> relay \<Rightarrow> relay" where
  "handle_forward head body r =
     (if rq_scheme head \<noteq> ''http'' then
        write_error BadRequest (''https absolute-form requires CONNECT'' @ [LF]) r
      else case forward_target (rq_authority head) of
        None \<Rightarrow> write_error BadRequest (''bad target'' @ [LF]) r
      | Some (host, port) \<Rightarrow>
          await (W_connect (head\<lparr>rq_headers := hm_set ''host'' (rq_authority head) (rq_headers head)\<rparr>) body)
            (act (A_pool_fresh (target_endpoint host port)) r))"

definition dispatch :: "request_head \<Rightarrow> h1_body option \<Rightarrow> relay \<Rightarrow> relay" where
  "dispatch head body r =
     (if rq_method head = ''CONNECT'' then handle_connect head r
      else if rq_absolute_target head then handle_forward head body r
      else (let bid = route (ry_router r) head in
            if bid = [] then write_error ServiceUnavailable (''no route for host'' @ [LF]) r
            else await (W_connect head body) (act (A_pool_connect bid) r)))"

section \<open>Completions\<close>

type_synonym request_result = "asio_error + request_head \<times> h1_body option \<times> bool"
type_synonym connect_result = "asio_error + nat \<times> backend_endpoint \<times> bool"
type_synonym response_result = "asio_error + response_head \<times> h1_body option \<times> bool"

definition on_request :: "request_result \<Rightarrow> relay \<Rightarrow> relay" where
  "on_request res r = (case res of
       Inl e \<Rightarrow> teardown r
     | Inr (head, body, keep_alive) \<Rightarrow>
         dispatch head body (kick_idle_timer
           ((bump_requests (goto_phase kForward r))
              \<lparr>ry_keep_alive := keep_alive, ry_method := rq_method head, ry_version := rq_version head,
               ry_is_upgrade := is_upgrade_request head\<rparr>)))"

definition on_tunnel_connect :: "connect_result \<Rightarrow> relay \<Rightarrow> relay" where
  "on_tunnel_connect res r = (case res of
       Inl e \<Rightarrow> write_error BadGateway (''connect failed'' @ [LF]) r
     | Inr (st, ep, from_pool) \<Rightarrow> start_tunnel (r\<lparr>ry_backend := Some st, ry_endpoint := ep\<rparr>))"

definition on_request_written :: "bool \<Rightarrow> error_code \<Rightarrow> relay \<Rightarrow> relay" where
  "on_request_written retry_allowed ec r =
     (if ec \<noteq> None then
        (if retry_allowed \<and> ry_from_pool r \<and> ry_pending_body r = None then reconnect_backend_fresh r
         else write_error BadGateway (''backend write error'' @ [LF]) (close_backend r))
      else response_phase (kick_idle_timer (r\<lparr>ry_pending_head := None, ry_pending_body := None\<rparr>)))"

definition on_reconnect :: "connect_result \<Rightarrow> relay \<Rightarrow> relay" where
  "on_reconnect res r = (case res of
       Inl e \<Rightarrow> write_error BadGateway (''upstream unreachable'' @ [LF]) r
     | Inr (st, ep, from_pool) \<Rightarrow>
         send_backend_request False
           (bump_connects (r\<lparr>ry_backend := Some st, ry_endpoint := ep, ry_from_pool := False\<rparr>)))"

text \<open>\<open>us\<close> is the time since the exchange began.\<close>

definition on_response :: "nat \<Rightarrow> response_result \<Rightarrow> relay \<Rightarrow> relay" where
  "on_response us res r = (case res of
       Inl e \<Rightarrow> write_error BadGateway (''backend response error'' @ [LF]) (close_backend r)
     | Inr (resp, body, backend_keep_alive) \<Rightarrow>
         (let body' = (if ry_method r = ''HEAD'' then None else body);
              r1 = (if rs_status resp \<ge> 400 then bump_err r else bump_ok r);
              r2 = kick_idle_timer (r1\<lparr>ry_stats := record_latency us (ry_stats r1)\<rparr>);
              resp' = (if ry_version r = [] then resp else resp\<lparr>rs_version := ry_version r\<rparr>) in
          if ry_is_upgrade r \<and> rs_status resp = 101
          then await W_write_101 (act (A_write_response resp' None) r2)
          else await (W_write_response backend_keep_alive) (act (A_write_response resp' body') r2)))"

text \<open>The completion handlers of the tunnel and upgrade responses, of the pumps and of the drain.\<close>

definition on_tunnel_established :: "error_code \<Rightarrow> relay \<Rightarrow> relay" where
  "on_tunnel_established ec r = (if ec \<noteq> None then teardown r else bridge_mode r)"

definition on_upgraded :: "error_code \<Rightarrow> relay \<Rightarrow> relay" where
  "on_upgraded ec r = (if ec \<noteq> None then teardown r else bridge_mode (r\<lparr>ry_from_pool := False\<rparr>))"

definition on_drained :: "error_code \<Rightarrow> nat \<Rightarrow> relay \<Rightarrow> relay" where
  "on_drained ec n r =
     (if ry_done r then r
      else if ec \<noteq> None \<or> n = 0 then teardown r
      else drain_client (kick_idle_timer r))"

definition on_pump_read :: "direction \<Rightarrow> nat option \<Rightarrow> error_code \<Rightarrow> nat \<Rightarrow> relay \<Rightarrow> relay" where
  "on_pump_read d b ec n r =
     (if ry_done r then r
      else if ec \<noteq> None \<or> n = 0 then teardown r
      else if d = Up \<and> b = None then (kick_idle_timer r)\<lparr>ry_fault := True\<rparr>
      else await (W_pump_write d b) (kick_idle_timer r))"

definition on_pump_written :: "direction \<Rightarrow> nat option \<Rightarrow> error_code \<Rightarrow> relay \<Rightarrow> relay" where
  "on_pump_written d b ec r =
     (if ry_done r then r
      else if ec \<noteq> None then teardown r
      else pump_bytes d b (kick_idle_timer r))"

declare on_tunnel_established_def [simp] on_upgraded_def [simp] on_drained_def [simp]
  on_pump_read_def [simp] on_pump_written_def [simp]

datatype result =
    R_request request_result
  | R_connect connect_result
  | R_written error_code
  | R_response nat response_result
  | R_read error_code nat

fun complete :: "wait \<Rightarrow> result \<Rightarrow> relay \<Rightarrow> relay" where
  "complete W_parse_request (R_request res) r = on_request res r"
| "complete (W_connect head body) (R_connect res) r = use_backend res head body r"
| "complete W_tunnel_connect (R_connect res) r = on_tunnel_connect res r"
| "complete (W_write_request retry) (R_written ec) r = on_request_written retry ec r"
| "complete W_reconnect (R_connect res) r = on_reconnect res r"
| "complete W_parse_response (R_response us res) r = on_response us res r"
| "complete (W_write_response ka) (R_written ec) r = after_client_response (finish_backend ka r)"
| "complete W_write_101 (R_written ec) r = on_upgraded ec r"
| "complete W_write_200 (R_written ec) r = on_tunnel_established ec r"
| "complete W_write_error (R_written ec) r = after_client_response r"
| "complete W_drain (R_read ec n) r = on_drained ec n r"
| "complete (W_pump_read d b) (R_read ec n) r = on_pump_read d b ec n r"
| "complete (W_pump_write d b) (R_written ec) r = on_pump_written d b ec r"
| "complete w res r = r"

text \<open>Which results an operation can complete with.\<close>

fun fits :: "wait \<Rightarrow> result \<Rightarrow> bool" where
  "fits W_parse_request (R_request res) = True"
| "fits (W_connect head body) (R_connect res) = True"
| "fits W_tunnel_connect (R_connect res) = True"
| "fits (W_write_request retry) (R_written ec) = True"
| "fits W_reconnect (R_connect res) = True"
| "fits W_parse_response (R_response us res) = True"
| "fits (W_write_response ka) (R_written ec) = True"
| "fits W_write_101 (R_written ec) = True"
| "fits W_write_200 (R_written ec) = True"
| "fits W_write_error (R_written ec) = True"
| "fits W_drain (R_read ec n) = True"
| "fits (W_pump_read d b) (R_read ec n) = True"
| "fits (W_pump_write d b) (R_written ec) = True"
| "fits w res = False"

definition finish_op :: "wait \<Rightarrow> result \<Rightarrow> relay \<Rightarrow> relay" where
  "finish_op w res r = complete w res (r\<lparr>ry_waits := remove1 w (ry_waits r)\<rparr>)"

definition idle_timeout :: "relay \<Rightarrow> relay" where
  "idle_timeout r = teardown (r\<lparr>ry_timer := False\<rparr>)"

definition graceful_close :: "relay \<Rightarrow> relay" where
  "graceful_close r =
     (if ry_done r then r
      else (let r' = r\<lparr>ry_draining := True\<rparr> in
            if ry_phase r' = kRequest then act A_client_shutdown r' else r'))"

text \<open>The constructor and \<^verbatim>\<open>start\<close>.\<close>

definition new_relay :: "router \<Rightarrow> bool \<Rightarrow> int \<Rightarrow> proxy_stats \<Rightarrow> relay" where
  "new_relay rt client_h1 idle stats = \<lparr>ry_router = rt, ry_client_h1 = client_h1, ry_idle_secs = idle,
     ry_backend = None, ry_backend_h3 = False, ry_endpoint = empty_endpoint, ry_from_pool = False,
     ry_pending_head = None, ry_pending_body = None, ry_method = [], ry_version = [],
     ry_keep_alive = False, ry_is_upgrade = False, ry_done = False, ry_phase = kRequest,
     ry_draining = False, ry_timer = False, ry_stats = stats, ry_waits = [], ry_log = [],
     ry_fault = False\<rparr>"

definition start_relay :: "relay \<Rightarrow> relay" where
  "start_relay r = request_phase r"

inductive relay_step :: "relay \<Rightarrow> relay \<Rightarrow> bool" where
  step_complete: "\<not> ry_fault r \<Longrightarrow> w \<in> set (ry_waits r) \<Longrightarrow> fits w res \<Longrightarrow> relay_step r (finish_op w res r)"
| step_timeout: "\<not> ry_fault r \<Longrightarrow> ry_timer r \<Longrightarrow> relay_step r (idle_timeout r)"
| step_graceful: "\<not> ry_fault r \<Longrightarrow> relay_step r (graceful_close r)"

inductive relay_init :: "relay \<Rightarrow> bool" where
  "relay_init (start_relay (new_relay rt client_h1 idle zero_stats))"

section \<open>Invariant\<close>

fun pump :: "wait \<Rightarrow> bool" where
  "pump (W_pump_read d b) = True"
| "pump (W_pump_write d b) = True"
| "pump w = False"

fun pump_dir :: "wait \<Rightarrow> direction" where
  "pump_dir (W_pump_read d b) = d"
| "pump_dir (W_pump_write d b) = d"
| "pump_dir w = Up"

fun pump_backend :: "wait \<Rightarrow> nat option" where
  "pump_backend (W_pump_read d b) = b"
| "pump_backend (W_pump_write d b) = b"
| "pump_backend w = None"

text \<open>At most one chain of callbacks is in flight, except for the two pumps of a bridge.\<close>

definition one_chain :: "wait list \<Rightarrow> bool" where
  "one_chain ws = (length ws \<le> 1 \<or>
     (case ws of [a, b] \<Rightarrow> pump a \<and> pump b \<and> pump_dir a \<noteq> pump_dir b | _ \<Rightarrow> False))"

text \<open>What the session holds while an operation is in flight and the session is not torn down.\<close>

fun holds :: "wait \<Rightarrow> relay \<Rightarrow> bool" where
  "holds W_parse_request r = (ry_phase r = kRequest \<and> ry_backend r = None)"
| "holds (W_connect head body) r = (ry_phase r = kForward \<and> ry_backend r = None)"
| "holds W_tunnel_connect r = (ry_phase r = kForward \<and> ry_backend r = None)"
| "holds (W_write_request retry) r = (ry_phase r = kForward \<and> ry_backend r \<noteq> None)"
| "holds W_reconnect r = (ry_phase r = kForward \<and> ry_backend r = None)"
| "holds W_parse_response r = (ry_phase r = kResponse \<and> ry_backend r \<noteq> None)"
| "holds (W_write_response ka) r = (ry_phase r = kResponse \<and> ry_backend r \<noteq> None)"
| "holds W_write_101 r = (ry_phase r = kResponse \<and> ry_backend r \<noteq> None)"
| "holds W_write_200 r = (ry_phase r = kForward \<and> ry_backend r \<noteq> None)"
| "holds W_write_error r = (ry_phase r \<in> {kForward, kResponse} \<and> ry_backend r = None)"
| "holds W_drain r = (ry_phase r \<in> {kForward, kResponse} \<and> ry_backend r = None)"
| "holds (W_pump_read d b) r = (ry_phase r = kBridge \<and> ry_backend r \<noteq> None \<and> b = ry_backend r)"
| "holds (W_pump_write d b) r = (ry_phase r = kBridge \<and> ry_backend r \<noteq> None \<and> b = ry_backend r)"

text \<open>What is kept for a request that may be sent again.\<close>

fun keeps_request :: "wait \<Rightarrow> relay \<Rightarrow> bool" where
  "keeps_request (W_write_request retry) r = (ry_pending_head r \<noteq> None \<and> (\<not> retry \<longrightarrow> \<not> ry_from_pool r))"
| "keeps_request W_reconnect r = (ry_pending_head r \<noteq> None \<and> ry_pending_body r = None)"
| "keeps_request w r = True"

definition live_ok :: "relay \<Rightarrow> bool" where
  "live_ok r = (\<not> ry_fault r \<and> ry_phase r \<noteq> kClosed \<and> (\<forall>w \<in> set (ry_waits r). holds w r)
     \<and> (if ry_phase r = kBridge then length (ry_waits r) = 2 else length (ry_waits r) = 1))"

definition relay_inv :: "relay \<Rightarrow> bool" where
  "relay_inv r = (one_chain (ry_waits r) \<and> (\<forall>w \<in> set (ry_waits r). keeps_request w r)
     \<and> (ry_done r \<longrightarrow> \<not> ry_timer r) \<and> (\<not> ry_done r \<longrightarrow> live_ok r))"

lemmas relay_defs = await_def act_def bump_requests_def bump_err_def bump_ok_def bump_connects_def
  goto_phase_def kick_idle_timer_def close_backend_def teardown_def drain_client_def
  gracefully_close_client_def write_error_def request_phase_def after_client_response_def
  finish_backend_def response_phase_def send_backend_request_def reconnect_backend_fresh_def
  use_backend_def pump_bytes_def bridge_mode_def start_tunnel_def handle_connect_def
  handle_forward_def dispatch_def on_request_def on_tunnel_connect_def on_request_written_def
  on_reconnect_def on_response_def Let_def

lemma one_chain_Nil [simp]: "one_chain []"
  and one_chain_single [simp]: "one_chain [w]"
  and one_chain_pair [simp]: "one_chain [a, b] \<longleftrightarrow> pump a \<and> pump b \<and> pump_dir a \<noteq> pump_dir b"
  by (simp_all add: one_chain_def)

lemma one_chain_cases:
  assumes "one_chain ws" "w \<in> set ws"
  obtains (single) "ws = [w]"
  | (pair) v where "ws = [w, v] \<or> ws = [v, w]" "pump w" "pump v" "pump_dir w \<noteq> pump_dir v"
proof (cases "length ws \<le> 1")
  case True
  with assms(2) have "ws = [w]" by (cases ws) auto
  then show thesis by (rule single)
next
  case False
  with assms(1) obtain a b where ab: "ws = [a, b]" "pump a" "pump b" "pump_dir a \<noteq> pump_dir b"
    by (auto simp: one_chain_def split: list.splits)
  with assms(2) consider "w = a" | "w = b" by auto
  then show thesis
    using ab by cases (auto intro: pair [of b] pair [of a])
qed

text \<open>A completion sees the session with its own operation gone.  For every operation but the pumps
  nothing else is then in flight.\<close>

definition free :: "relay \<Rightarrow> bool" where
  "free r = (ry_waits r = [] \<and> (ry_done r \<longrightarrow> \<not> ry_timer r))"

lemma inv_await:
  assumes "free r" "\<not> pump w" "keeps_request w r" "\<not> ry_done r \<Longrightarrow> \<not> ry_fault r \<and> holds w r"
  shows "relay_inv (await w r)"
proof -
  have same: "holds w (await w r) = holds w r" "keeps_request w (await w r) = keeps_request w r"
    by (cases w; simp add: await_def)+
  have "holds w r \<Longrightarrow> ry_phase r \<noteq> kBridge \<and> ry_phase r \<noteq> kClosed"
    using assms(2) by (cases w) auto
  with assms same show ?thesis
    by (auto simp: relay_inv_def live_ok_def free_def) (auto simp: await_def)
qed

lemma inv_dead: "free r \<Longrightarrow> ry_done r \<Longrightarrow> relay_inv r"
  by (simp add: relay_inv_def free_def)

lemmas relay_parts = act_def bump_requests_def bump_err_def bump_ok_def bump_connects_def
  goto_phase_def kick_idle_timer_def close_backend_def Let_def free_def

lemma teardown_simps [simp]:
  "ry_waits (teardown r) = ry_waits r" "ry_done (teardown r)" "ry_fault (teardown r) = ry_fault r"
  "ry_timer (teardown r) \<longleftrightarrow> ry_done r \<and> ry_timer r" "ry_stats (teardown r) = ry_stats r"
  "ry_draining (teardown r) = ry_draining r" "ry_pending_head (teardown r) = ry_pending_head r"
  "ry_pending_body (teardown r) = ry_pending_body r" "ry_from_pool (teardown r) = ry_from_pool r"
  by (auto simp: teardown_def relay_parts split: option.splits)

lemma teardown_backend: "\<not> ry_done r \<Longrightarrow> ry_backend (teardown r) = None"
  by (auto simp: teardown_def relay_parts split: option.splits)

lemma inv_teardown: "free r \<Longrightarrow> relay_inv (teardown r)"
  by (rule inv_dead) (simp_all add: free_def)

lemma inv_write_error:
  assumes "free r" "\<not> ry_done r \<Longrightarrow> \<not> ry_fault r \<and> ry_phase r \<in> {kForward, kResponse} \<and> ry_backend r = None"
  shows "relay_inv (write_error s m r)"
  unfolding write_error_def using assms by (intro inv_await) (auto simp: relay_parts)

lemma inv_drain:
  assumes "free r" "\<not> ry_done r \<Longrightarrow> \<not> ry_fault r \<and> ry_phase r \<in> {kForward, kResponse} \<and> ry_backend r = None"
  shows "relay_inv (drain_client r)"
proof (cases "ry_done r")
  case True
  with assms(1) show ?thesis by (simp add: drain_client_def inv_dead)
next
  case False
  with assms show ?thesis by (auto simp: drain_client_def intro: inv_await)
qed

lemma inv_after_client_response:
  assumes "free r" "\<not> ry_done r \<Longrightarrow> \<not> ry_fault r \<and> ry_phase r \<in> {kForward, kResponse} \<and> ry_backend r = None"
  shows "relay_inv (after_client_response r)"
proof -
  have g: "relay_inv (gracefully_close_client r)"
  proof (cases "ry_done r")
    case True
    with assms(1) show ?thesis by (simp add: gracefully_close_client_def inv_dead)
  next
    case False
    with assms have "relay_inv (drain_client (act A_client_shutdown (r\<lparr>ry_draining := True\<rparr>)))"
      by (intro inv_drain) (auto simp: relay_parts)
    with False show ?thesis by (simp add: gracefully_close_client_def)
  qed
  have "relay_inv (request_phase r)" if "\<not> ry_done r"
    unfolding request_phase_def using assms that by (intro inv_await) (auto simp: relay_parts)
  with g inv_drain [OF assms] show ?thesis by (simp add: after_client_response_def)
qed

lemma finish_backend_simps [simp]:
  "ry_backend (finish_backend ka r) = None" "ry_waits (finish_backend ka r) = ry_waits r"
  "ry_done (finish_backend ka r) = ry_done r" "ry_fault (finish_backend ka r) = ry_fault r"
  "ry_phase (finish_backend ka r) = ry_phase r" "ry_timer (finish_backend ka r) = ry_timer r"
  "ry_stats (finish_backend ka r) = ry_stats r" "ry_draining (finish_backend ka r) = ry_draining r"
  by (auto simp: finish_backend_def relay_parts split: option.splits)

lemma inv_finish_backend:
  assumes "free r" "\<not> ry_done r \<Longrightarrow> \<not> ry_fault r \<and> ry_phase r = kResponse"
  shows "relay_inv (after_client_response (finish_backend ka r))"
  using assms by (intro inv_after_client_response) (auto simp: free_def)

lemma inv_send_backend_request:
  assumes "free r" "ry_backend r \<noteq> None" "ry_pending_head r \<noteq> None" "\<not> retry \<longrightarrow> \<not> ry_from_pool r"
    and "\<not> ry_done r \<Longrightarrow> \<not> ry_fault r \<and> ry_phase r = kForward"
  shows "relay_inv (send_backend_request retry r)"
proof -
  obtain st head where "ry_backend r = Some st" "ry_pending_head r = Some head"
    using assms(2,3) by auto
  then show ?thesis
    unfolding send_backend_request_def using assms by (auto simp: relay_parts intro!: inv_await)
qed

lemma inv_dispatch:
  assumes "free r" "\<not> ry_done r \<Longrightarrow> \<not> ry_fault r \<and> ry_phase r = kForward \<and> ry_backend r = None"
  shows "relay_inv (dispatch head body r)"
proof -
  have e: "relay_inv (write_error s m r)" for s m
    using assms by (auto intro: inv_write_error)
  have a: "relay_inv (await (W_connect h b) (act x r))" "relay_inv (await W_tunnel_connect (act x r))" for h b x
    using assms by (auto simp: relay_parts intro!: inv_await)
  show ?thesis
    using e a by (auto simp: dispatch_def handle_connect_def handle_forward_def Let_def split: option.splits)
qed

lemma inv_on_request:
  assumes "free r" "\<not> ry_done r \<Longrightarrow> \<not> ry_fault r \<and> ry_backend r = None"
  shows "relay_inv (on_request res r)"
proof (cases res)
  case (Inl e)
  with assms(1) show ?thesis by (simp add: on_request_def inv_teardown)
next
  case (Inr x)
  obtain head body ka where "x = (head, body, ka)" by (cases x)
  with Inr assms show ?thesis
    by (auto simp: on_request_def relay_parts intro!: inv_dispatch)
qed

lemma inv_use_backend:
  assumes "free r" "\<not> ry_done r \<Longrightarrow> \<not> ry_fault r \<and> ry_phase r = kForward \<and> ry_backend r = None"
  shows "relay_inv (use_backend res head body r)"
proof (cases res)
  case (Inl e)
  with assms show ?thesis by (auto simp: use_backend_def intro: inv_write_error)
next
  case (Inr x)
  obtain st ep fp where "x = (st, ep, fp)" by (cases x)
  with Inr assms show ?thesis
    by (auto simp: use_backend_def relay_parts intro!: inv_send_backend_request)
qed

lemma inv_on_tunnel_connect:
  assumes "free r" "\<not> ry_done r \<Longrightarrow> \<not> ry_fault r \<and> ry_phase r = kForward \<and> ry_backend r = None"
  shows "relay_inv (on_tunnel_connect res r)"
proof (cases res)
  case (Inl e)
  with assms show ?thesis by (auto simp: on_tunnel_connect_def intro: inv_write_error)
next
  case (Inr x)
  obtain st ep fp where "x = (st, ep, fp)" by (cases x)
  with Inr assms show ?thesis
    by (auto simp: on_tunnel_connect_def start_tunnel_def relay_parts intro!: inv_await)
qed

lemma inv_on_reconnect:
  assumes "free r" "ry_pending_head r \<noteq> None"
    and "\<not> ry_done r \<Longrightarrow> \<not> ry_fault r \<and> ry_phase r = kForward \<and> ry_backend r = None"
  shows "relay_inv (on_reconnect res r)"
proof (cases res)
  case (Inl e)
  with assms show ?thesis by (auto simp: on_reconnect_def intro: inv_write_error)
next
  case (Inr x)
  obtain st ep fp where "x = (st, ep, fp)" by (cases x)
  with Inr assms show ?thesis
    by (auto simp: on_reconnect_def relay_parts intro!: inv_send_backend_request)
qed

text \<open>After a teardown the backend may be gone when the request has been written; the session is then
  faulty, which the invariant allows for a session that is torn down.\<close>

lemma inv_response_phase:
  assumes "free r" "\<not> ry_done r \<Longrightarrow> \<not> ry_fault r \<and> ry_backend r \<noteq> None"
  shows "relay_inv (response_phase r)"
proof (cases "ry_backend r")
  case None
  with assms show ?thesis
    by (intro inv_dead) (auto simp: response_phase_def relay_parts)
next
  case (Some st)
  with assms show ?thesis
    by (auto simp: response_phase_def relay_parts intro!: inv_await)
qed

lemma inv_on_request_written:
  assumes "free r" "ry_pending_head r \<noteq> None"
    and "\<not> ry_done r \<Longrightarrow> \<not> ry_fault r \<and> ry_phase r = kForward \<and> ry_backend r \<noteq> None"
  shows "relay_inv (on_request_written retry ec r)"
proof -
  have c: "free (close_backend r)" "ry_backend (close_backend r) = None"
    "ry_pending_head (close_backend r) = ry_pending_head r" "ry_pending_body (close_backend r) = ry_pending_body r"
    "ry_phase (close_backend r) = ry_phase r" "ry_fault (close_backend r) = ry_fault r"
    "ry_done (close_backend r) = ry_done r"
    using assms(1) by (auto simp: relay_parts split: option.splits)
  have e: "relay_inv (write_error s m (close_backend r))" for s m
    using c assms(3) by (intro inv_write_error) auto
  have f: "relay_inv (reconnect_backend_fresh r)" if "ry_pending_body r = None"
    unfolding reconnect_backend_fresh_def using c assms that
    by (intro inv_await) (auto simp: act_def free_def)
  have "relay_inv (response_phase (kick_idle_timer (r\<lparr>ry_pending_head := None, ry_pending_body := None\<rparr>)))"
    using assms by (intro inv_response_phase) (auto simp: relay_parts)
  with e f show ?thesis by (simp add: on_request_written_def)
qed

lemma inv_on_response:
  assumes "free r" "\<not> ry_done r \<Longrightarrow> \<not> ry_fault r \<and> ry_phase r = kResponse \<and> ry_backend r \<noteq> None"
  shows "relay_inv (on_response us res r)"
proof (cases res)
  case (Inl e)
  with assms show ?thesis
    by (auto simp: on_response_def relay_parts split: option.splits intro!: inv_write_error)
next
  case (Inr x)
  obtain resp body ka where "x = (resp, body, ka)" by (cases x)
  with Inr assms show ?thesis
    by (auto simp: on_response_def relay_parts intro!: inv_await)
qed

lemma inv_bridge_mode:
  assumes "free r" "\<not> ry_done r \<Longrightarrow> \<not> ry_fault r \<and> ry_backend r \<noteq> None"
  shows "relay_inv (bridge_mode r)"
proof (cases "ry_done r")
  case True
  with assms(1) show ?thesis
    by (auto simp: relay_inv_def bridge_mode_def pump_bytes_def await_def relay_parts)
next
  case False
  with assms obtain st where "ry_backend r = Some st" by auto
  with False assms show ?thesis
    by (auto simp: relay_inv_def live_ok_def bridge_mode_def pump_bytes_def await_def relay_parts)
qed

lemma relay_inv_single:
  assumes "relay_inv r" "ry_waits r = [w]" "\<not> pump w" "fits w res"
  shows "relay_inv (finish_op w res r)"
proof -
  let ?r = "r\<lparr>ry_waits := []\<rparr>"
  have f: "free ?r" "keeps_request w ?r" "\<not> ry_done r \<Longrightarrow> \<not> ry_fault r \<and> holds w ?r"
    using assms by (cases w; auto simp: relay_inv_def live_ok_def free_def)+
  have "relay_inv (complete w res ?r)"
  proof (cases w)
    case W_drain
    with f assms(4) show ?thesis
      by (cases res) (auto intro: inv_teardown inv_dead simp: relay_parts intro!: inv_drain)
  next
    case W_write_101
    with f assms(4) show ?thesis
      by (cases res) (auto simp: free_def intro!: inv_teardown inv_bridge_mode)
  qed (use f assms(3,4) in \<open>cases res;
      auto intro: inv_on_request inv_use_backend inv_on_tunnel_connect inv_on_request_written
        inv_on_reconnect inv_on_response inv_finish_backend inv_after_client_response inv_teardown
        inv_bridge_mode\<close>)+
  with assms(2) show ?thesis by (simp add: finish_op_def)
qed

lemma inv_torn_down: "one_chain (ry_waits r) \<Longrightarrow> \<forall>w \<in> set (ry_waits r). pump w \<Longrightarrow> \<not> ry_done r \<Longrightarrow> relay_inv (teardown r)"
proof -
  assume a: "one_chain (ry_waits r)" "\<forall>w \<in> set (ry_waits r). pump w" "\<not> ry_done r"
  have "keeps_request w r'" if "pump w" for w r'
    using that by (cases w) auto
  with a show ?thesis by (simp add: relay_inv_def)
qed

lemma relay_inv_pump:
  assumes "relay_inv r" "w \<in> set (ry_waits r)" "pump w" "fits w res"
  shows "relay_inv (finish_op w res r)"
proof (cases "ry_done r")
  case True
  have "finish_op w res r = r\<lparr>ry_waits := remove1 w (ry_waits r)\<rparr>"
    using assms(3,4) True by (cases w; cases res) (auto simp: finish_op_def)
  moreover have "remove1 w (ry_waits r) = [] \<or> (\<exists>v. remove1 w (ry_waits r) = [v] \<and> pump v)"
    using assms(1,2) by (auto simp: relay_inv_def elim: one_chain_cases)
  moreover have "keeps_request v r'" if "pump v" for v r'
    using that by (cases v) auto
  ultimately show ?thesis using True assms(1) by (auto simp: relay_inv_def)
next
  case False
  with assms(1) have live: "live_ok r" "one_chain (ry_waits r)" by (simp_all add: relay_inv_def)
  then have h: "holds w r" using assms(2) by (simp add: live_ok_def)
  with assms(3) have ph: "ry_phase r = kBridge" "ry_backend r \<noteq> None" "pump_backend w = ry_backend r"
    by (cases w; auto)+
  with live have len: "length (ry_waits r) = 2" by (simp add: live_ok_def)
  obtain v where v: "ry_waits r = [w, v] \<or> ry_waits r = [v, w]" "pump v" "pump_dir w \<noteq> pump_dir v"
    using one_chain_cases [OF live(2) assms(2)] len by force
  then have rm: "remove1 w (ry_waits r) = [v]" by auto
  have hv: "holds v r" using live v by (auto simp: live_ok_def)
  have down: "relay_inv (teardown (r\<lparr>ry_waits := [v]\<rparr>))"
    using False v(2) by (intro inv_torn_down) auto
  have next_op: "relay_inv (await x (kick_idle_timer (r\<lparr>ry_waits := [v]\<rparr>)))"
    if "pump x" "pump_dir x = pump_dir w" "pump_backend x = ry_backend r" for x
    using that hv v False live ph
    by (cases x; cases v) (auto simp: relay_inv_def live_ok_def await_def relay_parts)
  show ?thesis
    using assms(3,4) rm down next_op False ph
    by (cases w; cases res) (auto simp: finish_op_def pump_bytes_def relay_parts)
qed

lemma relay_inv_step:
  assumes "relay_inv r" "relay_step r r'"
  shows "relay_inv r'"
  using assms(2)
proof cases
  case (step_complete w res)
  show ?thesis
  proof (cases "pump w")
    case True
    with assms(1) step_complete show ?thesis by (simp add: relay_inv_pump)
  next
    case False
    from assms(1) have "one_chain (ry_waits r)" by (simp add: relay_inv_def)
    then have "ry_waits r = [w]"
      using step_complete(3) False by (auto elim: one_chain_cases)
    with assms(1) False step_complete show ?thesis by (simp add: relay_inv_single)
  qed
next
  case step_timeout
  have "keeps_request w (teardown (r\<lparr>ry_timer := False\<rparr>)) = keeps_request w r" for w
    by (cases w) auto
  with assms(1) step_timeout show ?thesis
    by (simp add: idle_timeout_def relay_inv_def)
next
  case step_graceful
  have same: "keeps_request w (graceful_close r) = keeps_request w r" "holds w (graceful_close r) = holds w r" for w
    by (cases w; auto simp: graceful_close_def relay_parts)+
  have "ry_waits (graceful_close r) = ry_waits r" "ry_done (graceful_close r) = ry_done r"
    "ry_timer (graceful_close r) = ry_timer r" "ry_fault (graceful_close r) = ry_fault r"
    "ry_phase (graceful_close r) = ry_phase r"
    by (auto simp: graceful_close_def relay_parts)
  with assms(1) same step_graceful show ?thesis by (simp add: relay_inv_def live_ok_def)
qed

lemma relay_inv_init: "relay_init r \<Longrightarrow> relay_inv r"
  by (erule relay_init.cases)
    (auto simp: start_relay_def request_phase_def new_relay_def relay_parts intro!: inv_await)

interpretation relay_sys: step_system relay_init relay_step relay_inv
  by unfold_locales (auto intro: relay_inv_init relay_inv_step)

section \<open>Control flow\<close>

text \<open>Which operations can be in flight after the completion of one that was in flight alone.\<close>

fun follows :: "wait \<Rightarrow> relay \<Rightarrow> wait list \<Rightarrow> bool" where
  "follows W_parse_request r ws =
     (ws = [] \<or> ws = [W_tunnel_connect] \<or> ws = [W_write_error] \<or> (\<exists>h b. ws = [W_connect h b]))"
| "follows (W_connect head body) r ws = (ws = [W_write_error] \<or> ws = [W_write_request True])"
| "follows W_tunnel_connect r ws = (ws = [W_write_error] \<or> ws = [W_write_200])"
| "follows (W_write_request retry) r ws =
     (ws = [] \<and> ry_done r \<or> ws = [W_write_error] \<or> ws = [W_parse_response] \<or> ws = [W_reconnect] \<and> retry)"
| "follows W_reconnect r ws = (ws = [W_write_error] \<or> ws = [W_write_request False])"
| "follows W_parse_response r ws =
     (ws = [W_write_error] \<or> ws = [W_write_101] \<or> (\<exists>ka. ws = [W_write_response ka]))"
| "follows W_write_101 r ws =
     (ws = [] \<or> ws = [W_pump_read Up (ry_backend r)]
      \<or> ws = [W_pump_read Up (ry_backend r), W_pump_read Down (ry_backend r)])"
| "follows W_write_200 r ws =
     (ws = [] \<or> ws = [W_pump_read Up (ry_backend r)]
      \<or> ws = [W_pump_read Up (ry_backend r), W_pump_read Down (ry_backend r)])"
| "follows W_drain r ws = (ws = [] \<or> ws = [W_drain] \<and> \<not> ry_done r)"
| "follows w r ws =
     (ws = [] \<or> ws = [W_drain] \<and> \<not> ry_done r
      \<or> ws = [W_parse_request] \<and> \<not> ry_done r \<and> \<not> ry_draining r)"

lemma kick_waits [simp]: "ry_waits (kick_idle_timer r) = ry_waits r"
  and goto_waits [simp]: "ry_waits (goto_phase p r) = ry_waits r"
  and act_waits [simp]: "ry_waits (act a r) = ry_waits r"
  and close_waits [simp]: "ry_waits (close_backend r) = ry_waits r"
  and await_waits [simp]: "ry_waits (await w r) = ry_waits r @ [w]"
  and bump_waits [simp]: "ry_waits (bump_requests r) = ry_waits r" "ry_waits (bump_err r) = ry_waits r"
    "ry_waits (bump_ok r) = ry_waits r" "ry_waits (bump_connects r) = ry_waits r"
  by (auto simp: relay_parts await_def split: option.splits)

lemma write_error_waits [simp]: "ry_waits (write_error s m r) = ry_waits r @ [W_write_error]"
  by (simp add: write_error_def)

lemma dispatch_waits:
  "ry_waits r = [] \<Longrightarrow> follows W_parse_request r' (ry_waits (dispatch head body r))"
  by (auto simp: dispatch_def handle_connect_def handle_forward_def Let_def split: option.splits)

lemma after_response_waits:
  "ry_waits r = [] \<Longrightarrow> ry_done r = ry_done r' \<Longrightarrow> ry_draining r = ry_draining r'
    \<Longrightarrow> follows W_write_error r' (ry_waits (after_client_response r))"
  by (auto simp: after_client_response_def gracefully_close_client_def drain_client_def request_phase_def act_def)

lemma bridge_waits:
  "ry_waits r = [] \<Longrightarrow> ry_backend r = ry_backend r' \<Longrightarrow> follows W_write_200 r' (ry_waits (bridge_mode r))"
  by (auto simp: bridge_mode_def pump_bytes_def goto_phase_def Let_def)

lemma relay_flow:
  assumes "relay_inv r" "ry_waits r = [w]" "\<not> pump w" "fits w res"
  shows "follows w r (ry_waits (finish_op w res r))"
proof -
  let ?r = "r\<lparr>ry_waits := []\<rparr>"
  have k: "keeps_request w ?r" using assms by (cases w) (auto simp: relay_inv_def)
  have h: "\<not> ry_done r \<Longrightarrow> holds w ?r" using assms by (cases w) (auto simp: relay_inv_def live_ok_def)
  have "follows w r (ry_waits (complete w res ?r))"
  proof (cases w)
    case (W_write_request retry)
    with k h assms(4) show ?thesis
      by (cases res; cases "ry_backend r")
        (auto simp: on_request_written_def reconnect_backend_fresh_def response_phase_def relay_parts)
  next
    case W_write_101
    with assms(4) bridge_waits [of "?r\<lparr>ry_from_pool := False\<rparr>" r] show ?thesis by (cases res) auto
  next
    case W_write_200
    with assms(4) bridge_waits [of ?r r] show ?thesis by (cases res) auto
  next
    case (W_write_response ka)
    with assms(4) after_response_waits [of "finish_backend ka ?r" r] show ?thesis by (cases res) auto
  next
    case W_write_error
    with assms(4) after_response_waits [of ?r r] show ?thesis by (cases res) auto
  next
    case W_parse_request
    with assms(4) dispatch_waits show ?thesis
      by (cases res) (auto simp: on_request_def split: sum.splits)
  qed (use k assms(3,4) in \<open>cases res;
      auto simp: use_backend_def on_tunnel_connect_def start_tunnel_def on_reconnect_def on_response_def
        send_backend_request_def drain_client_def Let_def relay_parts split: sum.splits option.splits\<close>)+
  with assms(2) show ?thesis by (simp add: finish_op_def)
qed

section \<open>Runs\<close>

datatype event = E_complete wait result | E_timeout | E_graceful

definition event_step :: "event \<Rightarrow> relay \<Rightarrow> relay option" where
  "event_step e r = (if ry_fault r then None else (case e of
       E_complete w res \<Rightarrow> if w \<in> set (ry_waits r) \<and> fits w res then Some (finish_op w res r) else None
     | E_timeout \<Rightarrow> if ry_timer r then Some (idle_timeout r) else None
     | E_graceful \<Rightarrow> Some (graceful_close r)))"

fun run :: "event list \<Rightarrow> relay \<Rightarrow> relay option" where
  "run [] r = Some r"
| "run (e # es) r = (case event_step e r of None \<Rightarrow> None | Some r' \<Rightarrow> run es r')"

fun completions :: "event list \<Rightarrow> nat" where
  "completions [] = 0"
| "completions (E_complete w res # es) = Suc (completions es)"
| "completions (e # es) = completions es"

lemma event_step_relay_step: "event_step e r = Some r' \<Longrightarrow> relay_step r r'"
  by (cases e) (auto simp: event_step_def intro: relay_step.intros split: if_splits)

lemma relay_step_event: "relay_step r r' \<Longrightarrow> \<exists>e. event_step e r = Some r'"
proof (erule relay_step.cases)
  fix r'' w res
  assume "r = r''" "r' = finish_op w res r''" "\<not> ry_fault r''" "w \<in> set (ry_waits r'')" "fits w res"
  then show ?thesis by (intro exI [of _ "E_complete w res"]) (simp add: event_step_def)
next
  fix r'' assume "r = r''" "r' = idle_timeout r''" "\<not> ry_fault r''" "ry_timer r''"
  then show ?thesis by (intro exI [of _ E_timeout]) (simp add: event_step_def)
next
  fix r'' assume "r = r''" "r' = graceful_close r''" "\<not> ry_fault r''"
  then show ?thesis by (intro exI [of _ E_graceful]) (simp add: event_step_def)
qed

lemma run_reachable:
  "run es r = Some r' \<Longrightarrow> reachable relay_init relay_step r \<Longrightarrow> reachable relay_init relay_step r'"
proof (induction es arbitrary: r)
  case (Cons e es)
  then obtain r1 where "event_step e r = Some r1" "run es r1 = Some r'"
    by (auto split: option.splits)
  with Cons show ?case by (blast intro: reach_step event_step_relay_step)
qed simp

lemma run_take: "run es r = Some r' \<Longrightarrow> \<exists>s. run (take k es) r = Some s"
proof (induction es arbitrary: r k)
  case (Cons e es)
  then show ?case by (cases k) (auto split: option.splits)
qed simp

lemma other_event_waits:
  "event_step e r = Some r' \<Longrightarrow> \<forall>w res. e \<noteq> E_complete w res \<Longrightarrow> ry_waits r' = ry_waits r"
  by (cases e) (auto simp: event_step_def idle_timeout_def graceful_close_def Let_def split: if_splits)

text \<open>The distance of an operation from the end of its exchange, and the work a torn down session still
  does.\<close>

fun exchange_rank :: "wait \<Rightarrow> nat" where
  "exchange_rank (W_connect h b) = 6"
| "exchange_rank (W_write_request retry) = (if retry then 5 else 3)"
| "exchange_rank W_reconnect = 4"
| "exchange_rank W_parse_response = 2"
| "exchange_rank W_tunnel_connect = 2"
| "exchange_rank (W_write_response ka) = 1"
| "exchange_rank W_write_101 = 1"
| "exchange_rank W_write_200 = 1"
| "exchange_rank W_write_error = 1"
| "exchange_rank w = 0"

fun closing_rank :: "wait \<Rightarrow> nat" where
  "closing_rank W_parse_request = 9"
| "closing_rank (W_connect h b) = 8"
| "closing_rank (W_write_request retry) = (if retry then 7 else 5)"
| "closing_rank W_reconnect = 6"
| "closing_rank W_parse_response = 4"
| "closing_rank W_tunnel_connect = 4"
| "closing_rank W_write_101 = 3"
| "closing_rank W_write_200 = 3"
| "closing_rank w = 1"

definition exchange_left :: "relay \<Rightarrow> nat" where
  "exchange_left r = sum_list (map exchange_rank (ry_waits r))"

definition closing_left :: "relay \<Rightarrow> nat" where
  "closing_left r = sum_list (map closing_rank (ry_waits r))"

lemma exchange_left_single:
  assumes "relay_inv r" "0 < exchange_left r" "w \<in> set (ry_waits r)"
  shows "ry_waits r = [w] \<and> \<not> pump w"
proof -
  have p: "exchange_rank v = 0" if "pump v" for v using that by (cases v) auto
  from assms(1) have "one_chain (ry_waits r)" by (simp add: relay_inv_def)
  from this assms(3) show ?thesis
  proof (cases rule: one_chain_cases)
    case single
    with p assms(2) show ?thesis by (auto simp: exchange_left_def)
  next
    case (pair v)
    with p assms(2) show ?thesis by (auto simp: exchange_left_def)
  qed
qed

lemma exchange_left_decreases:
  assumes "relay_inv r" "0 < exchange_left r" "w \<in> set (ry_waits r)" "fits w res"
  shows "exchange_left (finish_op w res r) < exchange_left r"
proof -
  note s = exchange_left_single [OF assms(1-3)]
  with assms relay_flow [of r w res] have "follows w r (ry_waits (finish_op w res r))" by simp
  with s assms(2) show ?thesis by (cases w) (auto simp: exchange_left_def)
qed

lemma done_stays: "event_step e r = Some r' \<Longrightarrow> ry_done r \<Longrightarrow> ry_done r'"
proof -
  have a: "ry_done (after_client_response r) = ry_done r" for r
    by (auto simp: after_client_response_def gracefully_close_client_def drain_client_def request_phase_def
        await_def relay_parts)
  have d: "ry_done (dispatch h b r) = ry_done r" for h b r
    by (auto simp: dispatch_def handle_connect_def handle_forward_def write_error_def await_def relay_parts
        split: option.splits)
  have "ry_done r \<Longrightarrow> ry_done (complete w res r)" for w res r
    by (cases "(w, res, r)" rule: complete.cases)
      (auto simp: a d on_request_def use_backend_def on_tunnel_connect_def on_request_written_def
        on_reconnect_def on_response_def write_error_def send_backend_request_def start_tunnel_def
        response_phase_def reconnect_backend_fresh_def drain_client_def bridge_mode_def pump_bytes_def
        await_def relay_parts split: sum.splits option.splits prod.splits)
  then show "event_step e r = Some r' \<Longrightarrow> ry_done r \<Longrightarrow> ry_done r'"
    by (cases e) (auto simp: event_step_def finish_op_def idle_timeout_def graceful_close_def split: if_splits)
qed

lemma closing_left_decreases:
  assumes "relay_inv r" "ry_done r" "w \<in> set (ry_waits r)" "fits w res"
  shows "closing_left (finish_op w res r) < closing_left r"
proof (cases "pump w")
  case True
  have "ry_waits (finish_op w res r) = remove1 w (ry_waits r)"
    using True assms(2,4) by (cases w; cases res) (auto simp: finish_op_def)
  moreover have "0 < closing_rank w" using True by (cases w) auto
  moreover have "sum_list (map closing_rank (ry_waits r)) =
      closing_rank w + sum_list (map closing_rank (remove1 w (ry_waits r)))"
    using assms(3) by (rule sum_list_map_remove1)
  ultimately show ?thesis by (simp add: closing_left_def)
next
  case False
  from assms(1) have "one_chain (ry_waits r)" by (simp add: relay_inv_def)
  then have s: "ry_waits r = [w]" using assms(3) False by (auto elim: one_chain_cases)
  with assms False relay_flow [of r w res] have "follows w r (ry_waits (finish_op w res r))" by simp
  with s assms(2) False show ?thesis by (cases w) (auto simp: closing_left_def)
qed

section \<open>Accounting\<close>

text \<open>Requests begun and not yet counted as answered.\<close>

definition due :: "relay \<Rightarrow> 64 word" where
  "due r = st_requests (ry_stats r) - (st_resp_ok (ry_stats r) + st_resp_err (ry_stats r))"

fun owed :: "wait \<Rightarrow> bool" where
  "owed (W_connect h b) = True"
| "owed W_tunnel_connect = True"
| "owed (W_write_request retry) = True"
| "owed W_reconnect = True"
| "owed W_parse_response = True"
| "owed W_write_200 = True"
| "owed w = False"

definition accounted :: "relay \<Rightarrow> bool" where
  "accounted r = (due r \<in> {0, 1} \<and> (\<forall>w. ry_waits r = [w] \<and> \<not> pump w \<longrightarrow> due r = of_bool (owed w)))"

lemma due_simps [simp]:
  "due (kick_idle_timer r) = due r" "due (goto_phase p r) = due r" "due (act a r) = due r"
  "due (close_backend r) = due r" "due (await w r) = due r" "due (bump_connects r) = due r"
  "due (bump_requests r) = due r + 1" "due (bump_err r) = due r - 1" "due (bump_ok r) = due r - 1"
  "due (teardown r) = due r" "due (finish_backend ka r) = due r"
  "due (r\<lparr>ry_waits := ws\<rparr>) = due r" "due (r\<lparr>ry_backend := b\<rparr>) = due r" "due (r\<lparr>ry_endpoint := ep\<rparr>) = due r"
  "due (r\<lparr>ry_pending_head := ph\<rparr>) = due r" "due (r\<lparr>ry_pending_body := pb\<rparr>) = due r"
  "due (r\<lparr>ry_from_pool := fp\<rparr>) = due r" "due (r\<lparr>ry_backend_h3 := h3\<rparr>) = due r"
  "due (r\<lparr>ry_fault := f\<rparr>) = due r" "due (r\<lparr>ry_draining := d\<rparr>) = due r" "due (r\<lparr>ry_timer := t\<rparr>) = due r"
  "due (r\<lparr>ry_keep_alive := ka\<rparr>) = due r" "due (r\<lparr>ry_method := me\<rparr>) = due r"
  "due (r\<lparr>ry_version := ve\<rparr>) = due r" "due (r\<lparr>ry_is_upgrade := u\<rparr>) = due r"
  "due (r\<lparr>ry_stats := record_latency us (ry_stats r)\<rparr>) = due r"
  by (auto simp: due_def relay_parts await_def record_latency_def algebra_simps split: option.splits)

lemma accounted_await: "ry_waits r = [] \<Longrightarrow> due r = of_bool (owed w) \<Longrightarrow> accounted (await w r)"
  by (auto simp: accounted_def)

lemma accounted_rest:
  "due r \<in> {0, 1} \<Longrightarrow> (\<forall>w. ry_waits r = [w] \<longrightarrow> pump w) \<Longrightarrow> accounted r"
  by (auto simp: accounted_def)

lemma accounted_write_error: "ry_waits r = [] \<Longrightarrow> due r = 1 \<Longrightarrow> accounted (write_error s m r)"
  by (simp add: write_error_def accounted_await)

lemma accounted_drain: "ry_waits r = [] \<Longrightarrow> due r = 0 \<Longrightarrow> accounted (drain_client r)"
  by (auto simp: drain_client_def intro: accounted_await accounted_rest)

lemma accounted_after_response:
  "ry_waits r = [] \<Longrightarrow> due r = 0 \<Longrightarrow> accounted (after_client_response r)"
proof -
  assume a: "ry_waits r = []" "due r = 0"
  have "accounted r" using a by (simp add: accounted_rest)
  with a have "accounted (gracefully_close_client r)"
    by (simp add: gracefully_close_client_def accounted_drain)
  moreover have "accounted (request_phase r)"
    using a by (simp add: request_phase_def accounted_await)
  ultimately show ?thesis using a by (simp add: after_client_response_def accounted_drain)
qed

lemma accounted_dispatch: "ry_waits r = [] \<Longrightarrow> due r = 1 \<Longrightarrow> accounted (dispatch head body r)"
  by (simp add: dispatch_def handle_connect_def handle_forward_def Let_def accounted_write_error
      accounted_await split: option.splits)

lemma accounted_send:
  "ry_waits r = [] \<Longrightarrow> due r = 1 \<Longrightarrow> accounted (send_backend_request retry r)"
  by (simp add: send_backend_request_def accounted_await accounted_rest split: option.splits)

lemma accounted_bridge: "ry_waits r = [] \<Longrightarrow> due r \<in> {0, 1} \<Longrightarrow> accounted (bridge_mode r)"
  by (rule accounted_rest) (auto simp: bridge_mode_def pump_bytes_def Let_def)

lemma accounted_written:
  "ry_waits r = [] \<Longrightarrow> due r = 1 \<Longrightarrow> accounted (on_request_written retry ec r)"
  by (simp add: on_request_written_def reconnect_backend_fresh_def response_phase_def Let_def
      accounted_await accounted_write_error accounted_rest split: option.splits)

lemma accounted_single:
  assumes "ry_waits r = [w]" "\<not> pump w" "fits w res" "accounted r"
  shows "accounted (finish_op w res r)"
proof -
  let ?r = "r\<lparr>ry_waits := []\<rparr>"
  have d: "due ?r = of_bool (owed w)" "ry_waits ?r = []"
    using assms by (auto simp: accounted_def)
  have t: "accounted (teardown ?r)" using d by (intro accounted_rest) auto
  have "accounted (complete w res ?r)"
  proof (cases w)
    case W_drain
    with d t assms(3) show ?thesis
      by (cases res) (auto intro!: accounted_drain intro: accounted_rest)
  qed (use d t assms(2,3) in \<open>cases res;
      auto simp: on_request_def use_backend_def on_tunnel_connect_def start_tunnel_def on_reconnect_def
        on_response_def Let_def
        intro!: accounted_dispatch accounted_send accounted_bridge accounted_written accounted_write_error
          accounted_after_response accounted_await
        split: sum.splits\<close>)+
  with assms(1) show ?thesis by (simp add: finish_op_def)
qed

lemma pump_waits:
  assumes "pump w" "fits w res" "v \<in> set (ry_waits (finish_op w res r))"
  shows "pump v \<or> v \<in> set (remove1 w (ry_waits r))"
proof -
  have "pump v \<or> v \<in> set (ry_waits r')" if "v \<in> set (ry_waits (complete w res r'))" for r'
    using assms(1,2) that
    by (cases w; cases res) (auto simp: pump_bytes_def split: if_splits)
  from this [of "r\<lparr>ry_waits := remove1 w (ry_waits r)\<rparr>"] assms(3) show ?thesis
    by (simp add: finish_op_def)
qed

lemma accounted_step:
  assumes "relay_inv r" "accounted r" "relay_step r r'"
  shows "accounted r'"
  using assms(3)
proof cases
  case (step_complete w res)
  from assms(1) have oc: "one_chain (ry_waits r)" by (simp add: relay_inv_def)
  show ?thesis
  proof (cases "pump w")
    case True
    have "due (finish_op w res r) = due r"
      using True step_complete(4) by (cases w; cases res) (auto simp: finish_op_def pump_bytes_def)
    moreover have "\<forall>v \<in> set (ry_waits (finish_op w res r)). pump v"
    proof -
      from oc step_complete(3) have "\<forall>v \<in> set (remove1 w (ry_waits r)). pump v"
        by (cases rule: one_chain_cases) (auto split: if_splits)
      then show ?thesis using pump_waits [OF True step_complete(4)] by blast
    qed
    ultimately show ?thesis using assms(2) step_complete(1) by (auto simp: accounted_def)
  next
    case False
    then have "ry_waits r = [w]" using oc step_complete(3) by (auto elim: one_chain_cases)
    with False assms(2) step_complete show ?thesis by (simp add: accounted_single)
  qed
next
  case step_timeout
  with assms(2) show ?thesis by (simp add: accounted_def idle_timeout_def)
next
  case step_graceful
  with assms(2) show ?thesis by (simp add: accounted_def graceful_close_def Let_def)
qed

lemma accounted_init: "relay_init r \<Longrightarrow> accounted r"
  by (erule relay_init.cases)
    (auto simp: start_relay_def request_phase_def due_def new_relay_def zero_stats_def relay_parts await_def
      accounted_def)

interpretation relay_accounts: step_system relay_init relay_step "\<lambda>r. relay_inv r \<and> accounted r"
  by unfold_locales (auto intro: relay_inv_init relay_inv_step accounted_init accounted_step)

section \<open>Properties\<close>

lemma run_exchange_bound:
  assumes "relay_inv r" "run es r = Some r'" "\<forall>k \<le> length es. \<exists>s. run (take k es) r = Some s \<and> 0 < exchange_left s"
  shows "completions es + exchange_left r' \<le> exchange_left r"
  using assms
proof (induction es arbitrary: r)
  case (Cons e es)
  then obtain s where s: "event_step e r = Some s" "run es s = Some r'" by (auto split: option.splits)
  have inv: "relay_inv s" using Cons.prems(1) s(1) by (blast intro: relay_inv_step event_step_relay_step)
  have pos: "0 < exchange_left r" using Cons.prems(3) [rule_format, of 0] by simp
  have "\<forall>k \<le> length es. \<exists>t. run (take k es) s = Some t \<and> 0 < exchange_left t"
  proof (intro allI impI)
    fix k assume "k \<le> length es"
    with Cons.prems(3) [rule_format, of "Suc k"] s(1)
    show "\<exists>t. run (take k es) s = Some t \<and> 0 < exchange_left t" by simp
  qed
  with Cons.IH [OF inv s(2)] have ih: "completions es + exchange_left r' \<le> exchange_left s" by simp
  show ?case
  proof (cases e)
    case (E_complete w res)
    with s(1) have "w \<in> set (ry_waits r)" "fits w res" "s = finish_op w res r"
      by (auto simp: event_step_def split: if_splits)
    with exchange_left_decreases [OF Cons.prems(1) pos] have "exchange_left s < exchange_left r" by simp
    with ih E_complete show ?thesis by simp
  qed (use ih other_event_waits [OF s(1)] in \<open>auto simp: exchange_left_def\<close>)
qed simp

lemma exchange_left_bound: "relay_inv r \<Longrightarrow> exchange_left r \<le> 6"
proof -
  assume inv: "relay_inv r"
  have b: "exchange_rank w \<le> 6" for w by (cases w) auto
  show ?thesis
  proof (cases "exchange_left r = 0")
    case False
    then obtain w where "w \<in> set (ry_waits r)" by (cases "ry_waits r") (auto simp: exchange_left_def)
    with exchange_left_single [OF inv] False have "ry_waits r = [w]" by simp
    with b show ?thesis by (simp add: exchange_left_def)
  qed simp
qed

lemma run_closing_bound:
  assumes "relay_inv r" "ry_done r" "run es r = Some r'"
  shows "ry_done r' \<and> completions es + closing_left r' \<le> closing_left r"
  using assms
proof (induction es arbitrary: r)
  case (Cons e es)
  then obtain s where s: "event_step e r = Some s" "run es s = Some r'" by (auto split: option.splits)
  have inv: "relay_inv s" using Cons.prems(1) s(1) by (blast intro: relay_inv_step event_step_relay_step)
  note ih = Cons.IH [OF inv done_stays [OF s(1) Cons.prems(2)] s(2)]
  show ?case
  proof (cases e)
    case (E_complete w res)
    with s(1) have "w \<in> set (ry_waits r)" "fits w res" "s = finish_op w res r"
      by (auto simp: event_step_def split: if_splits)
    with closing_left_decreases [OF Cons.prems(1,2)] have "closing_left s < closing_left r" by simp
    with ih E_complete show ?thesis by simp
  qed (use ih other_event_waits [OF s(1)] in \<open>auto simp: closing_left_def\<close>)
qed simp

lemma closing_left_bound: "relay_inv r \<Longrightarrow> closing_left r \<le> 9"
proof -
  assume "relay_inv r"
  then have oc: "one_chain (ry_waits r)" by (simp add: relay_inv_def)
  have b: "closing_rank w \<le> 9" "pump w \<Longrightarrow> closing_rank w = 1" for w by (cases w; simp)+
  show ?thesis
  proof (cases "ry_waits r")
    case (Cons w ws)
    with oc have "w \<in> set (ry_waits r)" by simp
    with oc show ?thesis by (cases rule: one_chain_cases) (auto simp: closing_left_def b)
  qed (simp add: closing_left_def)
qed

lemma draining_stays: "event_step e r = Some r' \<Longrightarrow> ry_draining r \<Longrightarrow> ry_draining r'"
proof -
  have a: "ry_draining r \<Longrightarrow> ry_draining (after_client_response r)" for r
    by (auto simp: after_client_response_def gracefully_close_client_def drain_client_def request_phase_def
        await_def relay_parts)
  have d: "ry_draining (dispatch h b r) = ry_draining r" for h b r
    by (auto simp: dispatch_def handle_connect_def handle_forward_def write_error_def await_def relay_parts
        split: option.splits)
  have "ry_draining r \<Longrightarrow> ry_draining (complete w res r)" for w res r
    by (cases "(w, res, r)" rule: complete.cases)
      (auto simp: a d on_request_def use_backend_def on_tunnel_connect_def on_request_written_def
        on_reconnect_def on_response_def write_error_def send_backend_request_def start_tunnel_def
        response_phase_def reconnect_backend_fresh_def drain_client_def bridge_mode_def pump_bytes_def
        await_def relay_parts split: sum.splits option.splits prod.splits)
  then show "event_step e r = Some r' \<Longrightarrow> ry_draining r \<Longrightarrow> ry_draining r'"
    by (cases e) (auto simp: event_step_def finish_op_def idle_timeout_def graceful_close_def Let_def act_def
        split: if_splits)
qed

lemma closing_no_request:
  assumes "relay_inv r" "ry_draining r \<or> ry_done r" "W_parse_request \<notin> set (ry_waits r)" "event_step e r = Some r'"
  shows "W_parse_request \<notin> set (ry_waits r')"
proof (cases e)
  case (E_complete w res)
  with assms(4) have w: "w \<in> set (ry_waits r)" "fits w res" "r' = finish_op w res r"
    by (auto simp: event_step_def split: if_splits)
  from assms(1) have oc: "one_chain (ry_waits r)" by (simp add: relay_inv_def)
  show ?thesis
  proof (cases "pump w")
    case True
    with w assms(3) pump_waits [of w res W_parse_request r] notin_set_remove1 [of W_parse_request "ry_waits r" w]
    show ?thesis by auto
  next
    case False
    then have "ry_waits r = [w]" using oc w(1) by (auto elim: one_chain_cases)
    with False w assms relay_flow [of r w res] show ?thesis by (cases w) auto
  qed
qed (use assms other_event_waits [OF assms(4)] in auto)

text \<open>A relay with one wildcard route, and requests and results for it.\<close>

definition ex_relay :: relay where
  "ex_relay = start_relay (new_relay [\<lparr>rr_host_match = ''*'', rr_backend_id = ''b''\<rparr>] True 30 zero_stats)"

definition ex_request :: request_head where
  "ex_request = empty_request_head\<lparr>rq_method := ''GET'', rq_path := ''/'', rq_version := ''HTTP/1.1''\<rparr>"

definition ex_response :: response_head where
  "ex_response = empty_response_head\<lparr>rs_status := 200, rs_reason := ''OK''\<rparr>"

definition ex_parsed :: event where
  "ex_parsed = E_complete W_parse_request (R_request (Inr (ex_request, None, True)))"

definition ex_connected :: event where
  "ex_connected = E_complete (W_connect ex_request None) (R_connect (Inr (7, target_endpoint ''h'' 80, True)))"

lemmas ex_relay_defs = ex_relay_def ex_request_def ex_response_def ex_parsed_def ex_connected_def
  start_relay_def new_relay_def event_step_def finish_op_def idle_timeout_def graceful_close_def
  route_def is_upgrade_request_def empty_request_head_def empty_response_head_def

lemma ex_relay_reachable: "reachable relay_init relay_step ex_relay"
  by (auto simp: ex_relay_def intro: reach_init relay_init.intros)

lemma ex_relay_run:
  "\<exists>r. run [ex_parsed, ex_connected] ex_relay = Some r \<and> ry_waits r = [W_write_request True]
     \<and> ry_timer r \<and> \<not> ry_fault r \<and> ry_backend r = Some 7 \<and> ry_from_pool r \<and> ry_pending_head r = Some ex_request
     \<and> ry_pending_body r = None \<and> ry_endpoint r = target_endpoint ''h'' 80 \<and> \<not> ry_done r
     \<and> ry_phase r = kForward \<and> \<not> ry_draining r \<and> reachable relay_init relay_step r"
proof -
  obtain r where "run [ex_parsed, ex_connected] ex_relay = Some r \<and> ry_waits r = [W_write_request True]
     \<and> ry_timer r \<and> \<not> ry_fault r \<and> ry_backend r = Some 7 \<and> ry_from_pool r \<and> ry_pending_head r = Some ex_request
     \<and> ry_pending_body r = None \<and> ry_endpoint r = target_endpoint ''h'' 80 \<and> \<not> ry_done r
     \<and> ry_phase r = kForward \<and> \<not> ry_draining r"
    by (simp add: ex_relay_defs relay_defs)
  with run_reachable [OF _ ex_relay_reachable] show ?thesis by blast
qed

text \<open>C1: in every reachable state of a relay session at most one chain of callbacks is in flight, or
  the two pumps of a bridge, one per direction.  Until teardown no null stream is used, some operation
  is in flight, the backend stream is held exactly while the exchange uses it, and the phase
  \<^verbatim>\<open>kRequest\<close> means that the request read is the only operation in flight.\<close>

theorem relay_reachable_inv:
  assumes "reachable relay_init relay_step r"
  shows "one_chain (ry_waits r)
    \<and> (\<not> ry_done r \<longrightarrow> \<not> ry_fault r \<and> ry_phase r \<noteq> kClosed \<and> ry_waits r \<noteq> []
         \<and> (\<forall>w \<in> set (ry_waits r). holds w r) \<and> (ry_phase r = kRequest \<longrightarrow> ry_waits r = [W_parse_request]))"
proof -
  have inv: "relay_inv r" by (rule relay_sys.reachable_inv [OF assms])
  have "ry_waits r = [W_parse_request]" if "\<not> ry_done r" "ry_phase r = kRequest"
  proof -
    from inv that have "length (ry_waits r) = 1" and h: "\<forall>w \<in> set (ry_waits r). holds w r"
      by (simp_all add: relay_inv_def live_ok_def)
    then obtain w where w: "ry_waits r = [w]" by (auto simp: length_Suc_conv)
    with h that(2) show ?thesis by (cases w) auto
  qed
  with inv show ?thesis by (auto simp: relay_inv_def live_ok_def split: if_splits)
qed

theorem relay_reachable_inv_witness:
  "\<exists>r. run [ex_parsed, ex_connected] ex_relay = Some r \<and> one_chain (ry_waits r) \<and> \<not> ry_fault r
     \<and> (\<forall>w \<in> set (ry_waits r). holds w r)"
proof -
  obtain r where r: "run [ex_parsed, ex_connected] ex_relay = Some r" "\<not> ry_done r"
    "reachable relay_init relay_step r"
    using ex_relay_run by blast
  with relay_reachable_inv [OF r(3)] show ?thesis by blast
qed



text \<open>C21: an exchange ends.  Whatever the completions bring, and whatever timeouts and shutdown requests
  come in between, among the states passed by a run with six completions there is one outside every
  exchange: the session reads the next request, drains the client, pumps a tunnel or has nothing in
  flight.\<close>

theorem relay_exchange_terminates:
  assumes "reachable relay_init relay_step r" "run es r = Some r'" "6 \<le> completions es"
  shows "\<exists>k \<le> length es. \<exists>s. run (take k es) r = Some s
           \<and> (\<forall>w \<in> set (ry_waits s). w = W_parse_request \<or> w = W_drain \<or> pump w)"
proof -
  have inv: "relay_inv r" by (rule relay_sys.reachable_inv [OF assms(1)])
  have out: "w = W_parse_request \<or> w = W_drain \<or> pump w" if "exchange_rank w = 0" for w
    using that by (cases w) (auto split: if_splits)
  have prefix: "\<exists>s. run (take k es) r = Some s" for k
    using run_take [OF assms(2)] by blast
  have "\<exists>k \<le> length es. \<exists>s. run (take k es) r = Some s \<and> exchange_left s = 0"
  proof (rule ccontr)
    assume n: "\<not> ?thesis"
    have all: "\<forall>k \<le> length es. \<exists>s. run (take k es) r = Some s \<and> 0 < exchange_left s"
      using prefix n by (meson gr0I)
    from n assms(2) have "0 < exchange_left r'" by (auto dest: spec [of _ "length es"])
    with run_exchange_bound [OF inv assms(2) all] exchange_left_bound [OF inv] assms(3)
    show False by simp
  qed
  then show ?thesis using out by (auto simp: exchange_left_def)
qed

definition ex_exchange :: "event list" where
  "ex_exchange = [ex_connected, E_complete (W_write_request True) (R_written (Some Connection_reset)),
     E_complete W_reconnect (R_connect (Inr (8, target_endpoint ''h'' 80, False))),
     E_complete (W_write_request False) (R_written None),
     E_complete W_parse_response (R_response 5 (Inr (ex_response, None, True))),
     E_complete (W_write_response True) (R_written None)]"

theorem relay_exchange_terminates_witness:
  "\<exists>k \<le> 7. \<exists>s. run (take k (ex_parsed # ex_exchange)) ex_relay = Some s
     \<and> (\<forall>w \<in> set (ry_waits s). w = W_parse_request \<or> w = W_drain \<or> pump w)"
proof -
  have "\<exists>r. run (ex_parsed # ex_exchange) ex_relay = Some r"
    by (simp add: ex_exchange_def ex_relay_defs relay_defs)
  then obtain r where r: "run (ex_parsed # ex_exchange) ex_relay = Some r" by blast
  have "6 \<le> completions (ex_parsed # ex_exchange)" "length (ex_parsed # ex_exchange) = 7"
    by (simp_all add: ex_exchange_def ex_parsed_def ex_connected_def)
  with relay_exchange_terminates [OF ex_relay_reachable r] show ?thesis by simp
qed

text \<open>A session that is torn down comes to rest.  It stays torn down, and at most nine operations
  complete in it, whatever they bring and in whatever order.\<close>

theorem relay_teardown_terminates:
  assumes "reachable relay_init relay_step r" "ry_done r" "run es r = Some r'"
  shows "ry_done r' \<and> \<not> ry_timer r' \<and> completions es \<le> 9"
proof -
  have inv: "relay_inv r" by (rule relay_sys.reachable_inv [OF assms(1)])
  have inv': "relay_inv r'" by (rule relay_sys.reachable_inv [OF run_reachable [OF assms(3,1)]])
  with run_closing_bound [OF inv assms(2,3)] closing_left_bound [OF inv] show ?thesis
    by (auto simp: relay_inv_def)
qed

theorem relay_teardown_terminates_witness:
  "\<exists>r r'. run [E_timeout] ex_relay = Some r
     \<and> run [ex_parsed, ex_connected, E_complete (W_write_request True) (R_written (Some Connection_reset))] r = Some r'
     \<and> ry_done r'"
proof -
  let ?es = "[ex_parsed, ex_connected, E_complete (W_write_request True) (R_written (Some Connection_reset))]"
  have "\<exists>r r'. run [E_timeout] ex_relay = Some r \<and> ry_done r \<and> run ?es r = Some r'"
    by (simp add: ex_relay_defs relay_defs)
  then obtain r r' where r: "run [E_timeout] ex_relay = Some r" "ry_done r" "run ?es r = Some r'" by blast
  with relay_teardown_terminates [OF run_reachable [OF r(1) ex_relay_reachable] r(2,3)] show ?thesis by blast
qed

text \<open>A session that is being drained takes no further request.  Once it is draining and no request
  read is in flight, no run starts one again.\<close>

theorem relay_draining_no_request:
  assumes "reachable relay_init relay_step r" "ry_draining r" "W_parse_request \<notin> set (ry_waits r)"
    and "run es r = Some r'"
  shows "ry_draining r' \<and> W_parse_request \<notin> set (ry_waits r')"
  using assms
proof (induction es arbitrary: r)
  case (Cons e es)
  then obtain s where s: "event_step e r = Some s" "run es s = Some r'" by (auto split: option.splits)
  have "relay_inv r" by (rule relay_sys.reachable_inv [OF Cons.prems(1)])
  with Cons.prems s(1) have "W_parse_request \<notin> set (ry_waits s)" "ry_draining s"
    "reachable relay_init relay_step s"
    by (auto dest: closing_no_request draining_stays intro: reach_step event_step_relay_step)
  with Cons.IH s(2) show ?case by blast
qed simp

theorem relay_draining_no_request_witness:
  "\<exists>r r'. run [ex_parsed, E_graceful] ex_relay = Some r \<and> run ex_exchange r = Some r' \<and> ry_draining r'
     \<and> W_parse_request \<notin> set (ry_waits r')"
proof -
  have "\<exists>r r'. run [ex_parsed, E_graceful] ex_relay = Some r \<and> ry_draining r
      \<and> W_parse_request \<notin> set (ry_waits r) \<and> run ex_exchange r = Some r'"
    by (simp add: ex_exchange_def ex_relay_defs relay_defs)
  then obtain r r' where r: "run [ex_parsed, E_graceful] ex_relay = Some r" "ry_draining r"
      "W_parse_request \<notin> set (ry_waits r)" "run ex_exchange r = Some r'" by blast
  with relay_draining_no_request [OF run_reachable [OF r(1) ex_relay_reachable] r(2-4)] show ?thesis by blast
qed



text \<open>C35: the callbacks do not look at \<^verbatim>\<open>done_\<close>.  When the idle timer fires while a request is
  being written to the backend and the write then completes without error, the session reads the
  response from the stream that the teardown has released.\<close>

theorem relay_fault_after_timeout:
  assumes "ry_waits r = [W_write_request retry]" "ry_timer r" "\<not> ry_fault r" "\<not> ry_done r"
  shows "\<exists>r'. run [E_timeout, E_complete (W_write_request retry) (R_written None)] r = Some r'
           \<and> ry_done r' \<and> ry_backend r' = None \<and> ry_fault r' \<and> ry_phase r' = kResponse"
proof -
  let ?t = "idle_timeout r" and ?w = "W_write_request retry"
  have t: "ry_waits ?t = [?w]" "\<not> ry_fault ?t" "ry_done ?t" "ry_backend ?t = None"
    using assms by (simp_all add: idle_timeout_def teardown_backend)
  let ?u = "finish_op ?w (R_written None) ?t"
  have "ry_done ?u \<and> ry_backend ?u = None \<and> ry_fault ?u \<and> ry_phase ?u = kResponse"
    using t by (simp add: finish_op_def on_request_written_def response_phase_def goto_phase_def kick_idle_timer_def)
  moreover have "run [E_timeout, E_complete ?w (R_written None)] r = Some ?u"
    using assms t by (simp add: event_step_def)
  ultimately show ?thesis by blast
qed

theorem relay_fault_after_timeout_witness:
  "\<exists>r r'. run [ex_parsed, ex_connected] ex_relay = Some r
     \<and> run [E_timeout, E_complete (W_write_request True) (R_written None)] r = Some r' \<and> ry_fault r'"
proof -
  obtain r where r: "run [ex_parsed, ex_connected] ex_relay = Some r" "ry_waits r = [W_write_request True]"
    "ry_timer r" "\<not> ry_fault r" "\<not> ry_done r"
    using ex_relay_run by blast
  with relay_fault_after_timeout [OF r(2-5)] show ?thesis by blast
qed

text \<open>A request that races with a shutdown.  \<^verbatim>\<open>graceful_close\<close> finishes the client's write side
  while the request read is in flight; when a request is parsed after that, it is still processed, and
  its response (here the 503 for a host without route) is written behind the finished write side.\<close>

theorem relay_fin_before_response:
  assumes "reachable relay_init relay_step r" "ry_phase r = kRequest" "\<not> ry_done r"
    and "rq_method head \<noteq> ''CONNECT''" "\<not> rq_absolute_target head" "route (ry_router r) head = []"
  shows "\<exists>r' resp body. run [E_graceful, E_complete W_parse_request (R_request (Inr (head, b, ka)))] r = Some r'
           \<and> ry_log r' = ry_log r @ [A_client_shutdown, A_write_response resp body] \<and> rs_status resp = 503"
proof -
  have inv: "relay_inv r" by (rule relay_sys.reachable_inv [OF assms(1)])
  then have "\<not> ry_fault r" and len: "length (ry_waits r) = 1" and h: "\<forall>w \<in> set (ry_waits r). holds w r"
    using assms(2,3) by (simp_all add: relay_inv_def live_ok_def)
  moreover from len obtain w where w: "ry_waits r = [w]" by (auto simp: length_Suc_conv)
  moreover from w h assms(2) have "w = W_parse_request" by (cases w) auto
  ultimately have r: "ry_waits r = [W_parse_request]" "\<not> ry_fault r" by simp_all
  let ?g = "graceful_close r" and ?res = "R_request (Inr (head, b, ka))"
  have g: "?g = act A_client_shutdown (r\<lparr>ry_draining := True\<rparr>)"
    using assms(2,3) by (simp add: graceful_close_def)
  let ?u = "finish_op W_parse_request ?res ?g" and ?msg = "''no route for host'' @ [LF]"
  have "ry_log ?u = ry_log r @ [A_client_shutdown, A_write_response (error_head ServiceUnavailable ?msg)
      (Some (Basic (BufferBodySource ?msg 0)))]"
    using assms(2-6) unfolding g finish_op_def
    by (simp add: on_request_def dispatch_def write_error_def await_def act_def kick_idle_timer_def
        bump_requests_def bump_err_def goto_phase_def)
  moreover have "run [E_graceful, E_complete W_parse_request ?res] r = Some ?u"
    using r g by (simp add: event_step_def act_def)
  moreover have "rs_status (error_head ServiceUnavailable ?msg) = 503" by (simp add: error_head_def)
  ultimately show ?thesis by blast
qed

theorem relay_fin_before_response_witness:
  "\<exists>r' resp body. run [E_graceful, E_complete W_parse_request (R_request (Inr (ex_request, None, True)))]
       (start_relay (new_relay [] True 30 zero_stats)) = Some r'
     \<and> ry_log r' = [A_client_shutdown, A_write_response resp body] \<and> rs_status resp = 503"
proof -
  let ?r = "start_relay (new_relay [] True 30 zero_stats)"
  have "reachable relay_init relay_step ?r" by (intro reach_init relay_init.intros)
  moreover have "ry_phase ?r = kRequest" "\<not> ry_done ?r" "route (ry_router ?r) ex_request = []" "ry_log ?r = []"
    "rq_method ex_request \<noteq> ''CONNECT''" "\<not> rq_absolute_target ex_request"
    by (simp_all add: ex_relay_defs relay_defs)
  ultimately show ?thesis
    using relay_fin_before_response [of ?r ex_request None True] by simp
qed

end
