(* ===== verification/Quic_Stream.thy ===== *)
theory Quic_Stream
  imports Transport "HOL-Library.Multiset"
begin

text \<open>
  The QUIC stream and session wrappers and the header-set callbacks of
  \<^verbatim>\<open>src/transport/quic_transport.{h,cpp}\<close>.

  The state of a stream is the members of \<^verbatim>\<open>QuicTransportStream\<close>, together with what it has told the
  QUIC library (the interest flags, the bytes and header blocks accepted) and the list of callbacks it
  has called.  The QUIC library is a parameter: what one of its calls returned is an argument of the
  operation that makes the call.  A callback is a number; what the callback does next is a later
  operation.  Handing the null stream to the library is recorded in a flag.

  The write queue refines a byte queue (\<open>byte_queue\<close>), and the stream is a step system whose invariant
  says that a queued write is never forgotten.
\<close>

section \<open>State\<close>

record write_op =
  wo_data :: string
  wo_offset :: nat
  wo_cb :: nat

datatype fired =
    F_read nat error_code string
  | F_write nat error_code nat
  | F_headers nat header_list
  | F_shutdown nat error_code

record qstream =
  qs_open :: bool
  qs_read :: "(nat \<times> nat) option"
  qs_headers :: "nat option"
  qs_queue :: "write_op list"
  qs_writing :: bool
  qs_shutdown :: "nat option"
  qs_self :: bool
  qs_wantread :: bool
  qs_wantwrite :: bool
  qs_wire :: string
  qs_blocks :: "header_list list"
  qs_fired :: "fired list"
  qs_null_use :: bool

definition new_qstream :: qstream where
  "new_qstream = \<lparr>qs_open = True, qs_read = None, qs_headers = None, qs_queue = [], qs_writing = False,
     qs_shutdown = None, qs_self = True, qs_wantread = False, qs_wantwrite = False, qs_wire = [],
     qs_blocks = [], qs_fired = [], qs_null_use = False\<rparr>"

definition call_back :: "fired \<Rightarrow> qstream \<Rightarrow> qstream" where
  "call_back f s = s\<lparr>qs_fired := qs_fired s @ [f]\<rparr>"

text \<open>What \<^verbatim>\<open>lsquic_stream_read\<close> and \<^verbatim>\<open>lsquic_stream_write\<close> return.\<close>

datatype read_result = Got string | Read_again | Read_reset | Read_failed
datatype write_result = Wrote nat | Write_reset | Write_failed

section \<open>Operations of the stream\<close>

definition fail_writes :: "asio_error \<Rightarrow> qstream \<Rightarrow> qstream" where
  "fail_writes e s =
     (fold (\<lambda>op. call_back (F_write (wo_cb op) (Some e) 0)) (qs_queue s) s)\<lparr>qs_queue := []\<rparr>"

definition qs_async_read_some :: "nat \<Rightarrow> nat \<Rightarrow> qstream \<Rightarrow> qstream" where
  "qs_async_read_some cap cb s =
     (if \<not> qs_open s then call_back (F_read cb (Some Eof) []) s
      else s\<lparr>qs_read := Some (cb, cap), qs_wantread := True\<rparr>)"

definition pump_write :: "write_result \<Rightarrow> qstream \<Rightarrow> qstream" where
  "pump_write res s =
     (if \<not> qs_open s then fail_writes Eof s
      else if qs_writing s then s
      else case qs_queue s of
        [] \<Rightarrow> s
      | op # ops \<Rightarrow> (case res of
            Wrote n \<Rightarrow>
              if n > 0 then
                (let off = wo_offset op + n;
                     s1 = s\<lparr>qs_wire := qs_wire s @ take n (drop (wo_offset op) (wo_data op))\<rparr> in
                 if off \<ge> length (wo_data op)
                 then call_back (F_write (wo_cb op) None off) (s1\<lparr>qs_queue := ops\<rparr>)
                 else s1\<lparr>qs_queue := op\<lparr>wo_offset := off\<rparr> # ops, qs_writing := True, qs_wantwrite := True\<rparr>)
              else s\<lparr>qs_writing := True, qs_wantwrite := True\<rparr>
          | Write_reset \<Rightarrow> call_back (F_write (wo_cb op) (Some Connection_reset) 0) (s\<lparr>qs_queue := ops\<rparr>)
          | Write_failed \<Rightarrow> call_back (F_write (wo_cb op) (Some Eof) 0) (s\<lparr>qs_queue := ops\<rparr>)))"

definition qs_async_write_some :: "write_result \<Rightarrow> string \<Rightarrow> nat \<Rightarrow> qstream \<Rightarrow> qstream" where
  "qs_async_write_some res bs cb s =
     pump_write res (s\<lparr>qs_queue := qs_queue s @ [\<lparr>wo_data = bs, wo_offset = 0, wo_cb = cb\<rparr>]\<rparr>)"

text \<open>\<open>ok\<close>: \<^verbatim>\<open>lsquic_stream_shutdown\<close> returned 0.\<close>

definition qs_async_shutdown :: "bool \<Rightarrow> nat \<Rightarrow> qstream \<Rightarrow> qstream" where
  "qs_async_shutdown ok cb s =
     (let s1 = s\<lparr>qs_shutdown := Some cb, qs_null_use := qs_null_use s \<or> \<not> qs_open s\<rparr> in
      if ok then call_back (F_shutdown cb None) (s1\<lparr>qs_shutdown := None\<rparr>) else s1)"

definition try_take_headers :: "header_list option \<Rightarrow> qstream \<Rightarrow> qstream" where
  "try_take_headers hset s = (case qs_headers s of
       None \<Rightarrow> s
     | Some cb \<Rightarrow>
         if \<not> qs_open s then s
         else (case hset of
                 None \<Rightarrow> s
               | Some raw \<Rightarrow> call_back (F_headers cb raw) (s\<lparr>qs_headers := None\<rparr>)))"

definition qs_async_take_headers :: "header_list option \<Rightarrow> nat \<Rightarrow> qstream \<Rightarrow> bool \<times> qstream" where
  "qs_async_take_headers hset cb s =
     (if \<not> qs_open s \<or> qs_headers s \<noteq> None then (False, s)
      else (True, try_take_headers hset (s\<lparr>qs_headers := Some cb, qs_wantread := True\<rparr>)))"

definition on_readable :: "header_list option \<Rightarrow> read_result \<Rightarrow> qstream \<Rightarrow> qstream" where
  "on_readable hset res s =
     (if qs_headers s \<noteq> None then try_take_headers hset s
      else case qs_read s of
        None \<Rightarrow> s
      | Some (cb, cap) \<Rightarrow>
          (let s1 = s\<lparr>qs_wantread := False, qs_null_use := qs_null_use s \<or> \<not> qs_open s\<rparr> in
           case res of
             Got bs \<Rightarrow> call_back (F_read cb None bs) (s1\<lparr>qs_read := None\<rparr>)
           | Read_again \<Rightarrow> s1\<lparr>qs_wantread := True\<rparr>
           | Read_reset \<Rightarrow> call_back (F_read cb (Some Connection_reset) []) (s1\<lparr>qs_read := None\<rparr>)
           | Read_failed \<Rightarrow> call_back (F_read cb (Some Eof) []) (s1\<lparr>qs_read := None\<rparr>)))"

definition block_size :: "header_list \<Rightarrow> nat" where
  "block_size hs = sum_list (map (\<lambda>(k, v). length k + length v) hs)"

definition qs_async_send_headers :: "bool \<Rightarrow> header_list \<Rightarrow> nat \<Rightarrow> qstream \<Rightarrow> bool \<times> qstream" where
  "qs_async_send_headers ok hs cb s =
     (if \<not> qs_open s then (False, call_back (F_write cb (Some Eof) 0) s)
      else if block_size hs > 64 * 1024 then (True, call_back (F_write cb (Some Message_size) 0) s)
      else if ok
      then (True, call_back (F_write cb None 0)
                    (s\<lparr>qs_blocks := qs_blocks s @ [map (\<lambda>(k, v). (lower k, v)) hs]\<rparr>))
      else (True, call_back (F_write cb (Some Eof) 0) s))"

definition on_writeable :: "write_result \<Rightarrow> qstream \<Rightarrow> qstream" where
  "on_writeable res s = pump_write res (s\<lparr>qs_writing := False\<rparr>)"

definition fail_read :: "asio_error \<Rightarrow> qstream \<Rightarrow> qstream" where
  "fail_read e s = (case qs_read s of
       None \<Rightarrow> s
     | Some (cb, cap) \<Rightarrow> call_back (F_read cb (Some e) []) (s\<lparr>qs_read := None\<rparr>))"

definition on_close :: "qstream \<Rightarrow> qstream" where
  "on_close s =
     (let s1 = fail_writes Eof (fail_read Eof (s\<lparr>qs_open := False\<rparr>));
          s2 = (case qs_shutdown s1 of
                  None \<Rightarrow> s1
                | Some cb \<Rightarrow> call_back (F_shutdown cb None) (s1\<lparr>qs_shutdown := None\<rparr>)) in
      s2\<lparr>qs_writing := False, qs_self := False\<rparr>)"

definition on_reset :: "int \<Rightarrow> qstream \<Rightarrow> qstream" where
  "on_reset how s =
     (let s1 = (if how = 0 \<or> how = 2 then fail_read Connection_reset s else s) in
      if how = 1 \<or> how = 2 then (fail_writes Connection_reset s1)\<lparr>qs_writing := False\<rparr> else s1)"

section \<open>The session wrapper\<close>

record qsession =
  qn_conn :: bool
  qn_closed :: bool
  qn_new_stream_cb :: "nat option"
  qn_closed_cb :: "nat option"
  qn_make_stream :: nat
  qn_conn_close :: nat
  qn_streams :: "(nat \<times> bool) list"
  qn_closed_calls :: "nat list"

definition new_qsession :: qsession where
  "new_qsession = \<lparr>qn_conn = True, qn_closed = False, qn_new_stream_cb = None, qn_closed_cb = None,
     qn_make_stream = 0, qn_conn_close = 0, qn_streams = [], qn_closed_calls = []\<rparr>"

definition set_new_stream_cb :: "nat \<Rightarrow> qsession \<Rightarrow> qsession" where
  "set_new_stream_cb cb s = s\<lparr>qn_new_stream_cb := Some cb\<rparr>"

definition set_closed_cb :: "nat \<Rightarrow> qsession \<Rightarrow> qsession" where
  "set_closed_cb cb s = s\<lparr>qn_closed_cb := Some cb\<rparr>"

definition open_stream :: "qsession \<Rightarrow> qsession" where
  "open_stream s = (if qn_conn s then s\<lparr>qn_make_stream := qn_make_stream s + 1\<rparr> else s)"

definition async_open_stream :: "nat \<Rightarrow> qsession \<Rightarrow> qsession" where
  "async_open_stream cb s = open_stream (set_new_stream_cb cb s)"

definition close_session :: "qsession \<Rightarrow> qsession" where
  "close_session s =
     (if qn_conn s \<and> \<not> qn_closed s then s\<lparr>qn_closed := True, qn_conn_close := qn_conn_close s + 1\<rparr> else s)"

text \<open>\<open>present\<close>: the library delivers a stream, not the null stream.\<close>

definition session_new_stream :: "bool \<Rightarrow> qsession \<Rightarrow> qsession" where
  "session_new_stream present s = (case qn_new_stream_cb s of
       None \<Rightarrow> s
     | Some cb \<Rightarrow> s\<lparr>qn_streams := qn_streams s @ [(cb, present)]\<rparr>)"

definition on_closed :: "qsession \<Rightarrow> qsession" where
  "on_closed s =
     (let s1 = s\<lparr>qn_closed := True, qn_conn := False\<rparr> in
      case qn_closed_cb s1 of
        None \<Rightarrow> s1
      | Some cb \<Rightarrow> s1\<lparr>qn_closed_cb := None, qn_closed_calls := qn_closed_calls s1 @ [cb]\<rparr>)"

section \<open>The header-set callbacks\<close>

text \<open>\<open>hs_dec_size\<close> is what \<^verbatim>\<open>lsxpack_header_get_dec_size\<close> reports for the field decoded last.\<close>

record header_set =
  hs_headers :: header_list
  hs_decode_off :: nat
  hs_have_xhdr :: bool
  hs_dec_size :: nat

definition decode_buf_size :: nat where
  "decode_buf_size = 64 * 1024"

definition hsi_create :: header_set where
  "hsi_create = \<lparr>hs_headers = [], hs_decode_off = 0, hs_have_xhdr = False, hs_dec_size = 0\<rparr>"

text \<open>The result is the offset and the size of the region offered to the decoder.\<close>

definition hsi_prepare_decode :: "bool \<Rightarrow> nat \<Rightarrow> header_set \<Rightarrow> (nat \<times> nat) option \<times> header_set" where
  "hsi_prepare_decode again space hs =
     (if again then (None, hs)
      else (let hs1 = (if hs_have_xhdr hs then hs\<lparr>hs_decode_off := hs_decode_off hs + hs_dec_size hs\<rparr>
                       else hs\<lparr>hs_have_xhdr := True\<rparr>) in
            if hs_decode_off hs1 + space > decode_buf_size then (None, hs1)
            else (Some (hs_decode_off hs1, decode_buf_size - hs_decode_off hs1), hs1)))"

text \<open>\<open>None\<close>: the set is complete.  A field without name or value is refused with \<open>-1\<close>.\<close>

definition hsi_process :: "(string option \<times> string option) option \<Rightarrow> header_set \<Rightarrow> int \<times> header_set" where
  "hsi_process hdr hs = (case hdr of
       None \<Rightarrow> (0, hs)
     | Some (Some name, Some value) \<Rightarrow> (0, hs\<lparr>hs_headers := hs_headers hs @ [(name, value)]\<rparr>)
     | Some _ \<Rightarrow> (-1, hs))"

section \<open>Steps and invariant\<close>

text \<open>The library never accepts more than it was offered.\<close>

definition accepts :: "write_result \<Rightarrow> write_op list \<Rightarrow> bool" where
  "accepts res q = (case (res, q) of
       (Wrote n, op # ops) \<Rightarrow> n \<le> length (wo_data op) - wo_offset op
     | _ \<Rightarrow> True)"

definition new_op :: "string \<Rightarrow> nat \<Rightarrow> write_op" where
  "new_op bs cb = \<lparr>wo_data = bs, wo_offset = 0, wo_cb = cb\<rparr>"

inductive qs_step :: "qstream \<Rightarrow> qstream \<Rightarrow> bool" where
  st_read: "qs_step s (qs_async_read_some cap cb s)"
| st_write: "accepts res (qs_queue s @ [new_op bs cb]) \<Longrightarrow> qs_step s (qs_async_write_some res bs cb s)"
| st_shutdown: "qs_step s (qs_async_shutdown ok cb s)"
| st_take: "qs_step s (snd (qs_async_take_headers hset cb s))"
| st_send: "qs_step s (snd (qs_async_send_headers ok hs cb s))"
| st_readable: "qs_open s \<Longrightarrow> qs_step s (on_readable hset rd s)"
| st_writeable: "qs_open s \<Longrightarrow> accepts res (qs_queue s) \<Longrightarrow> qs_step s (on_writeable res s)"
| st_close: "qs_open s \<Longrightarrow> qs_step s (on_close s)"
| st_reset: "qs_open s \<Longrightarrow> qs_step s (on_reset how s)"

definition qs_inv :: "qstream \<Rightarrow> bool" where
  "qs_inv s = ((qs_queue s \<noteq> [] \<longrightarrow> qs_open s \<and> qs_wantwrite s)
     \<and> (qs_writing s \<longrightarrow> qs_queue s \<noteq> [])
     \<and> (\<not> qs_open s \<longrightarrow> qs_read s = None)
     \<and> (\<forall>op \<in> set (qs_queue s). wo_offset op \<le> length (wo_data op)))"

lemma call_simps [simp]:
  "qs_open (call_back f s) = qs_open s" "qs_read (call_back f s) = qs_read s" "qs_headers (call_back f s) = qs_headers s"
  "qs_queue (call_back f s) = qs_queue s" "qs_writing (call_back f s) = qs_writing s"
  "qs_shutdown (call_back f s) = qs_shutdown s" "qs_wantread (call_back f s) = qs_wantread s"
  "qs_wantwrite (call_back f s) = qs_wantwrite s" "qs_wire (call_back f s) = qs_wire s"
  "qs_blocks (call_back f s) = qs_blocks s" "qs_fired (call_back f s) = qs_fired s @ [f]"
  "qs_null_use (call_back f s) = qs_null_use s"
  by (simp_all add: call_back_def)

lemma fold_call: "fold (\<lambda>x. call_back (g x)) xs s = s\<lparr>qs_fired := qs_fired s @ map g xs\<rparr>"
  by (induction xs arbitrary: s) (auto simp: call_back_def)

lemma fail_writes_simps [simp]:
  "qs_open (fail_writes e s) = qs_open s" "qs_read (fail_writes e s) = qs_read s"
  "qs_headers (fail_writes e s) = qs_headers s" "qs_queue (fail_writes e s) = []"
  "qs_writing (fail_writes e s) = qs_writing s" "qs_wantwrite (fail_writes e s) = qs_wantwrite s"
  "qs_shutdown (fail_writes e s) = qs_shutdown s" "qs_wire (fail_writes e s) = qs_wire s"
  "qs_null_use (fail_writes e s) = qs_null_use s"
  "qs_fired (fail_writes e s) = qs_fired s @ map (\<lambda>op. F_write (wo_cb op) (Some e) 0) (qs_queue s)"
  by (simp_all add: fail_writes_def fold_call)

lemma fail_read_simps [simp]:
  "qs_open (fail_read e s) = qs_open s" "qs_read (fail_read e s) = None"
  "qs_headers (fail_read e s) = qs_headers s" "qs_queue (fail_read e s) = qs_queue s"
  "qs_writing (fail_read e s) = qs_writing s" "qs_wantwrite (fail_read e s) = qs_wantwrite s"
  "qs_shutdown (fail_read e s) = qs_shutdown s" "qs_wire (fail_read e s) = qs_wire s"
  "qs_null_use (fail_read e s) = qs_null_use s"
  by (auto simp: fail_read_def split: option.splits)

lemmas qs_splits = option.splits prod.splits list.splits write_result.splits read_result.splits if_splits

lemma try_take_simps [simp]:
  "qs_open (try_take_headers h s) = qs_open s" "qs_read (try_take_headers h s) = qs_read s"
  "qs_queue (try_take_headers h s) = qs_queue s" "qs_writing (try_take_headers h s) = qs_writing s"
  "qs_wantwrite (try_take_headers h s) = qs_wantwrite s" "qs_wire (try_take_headers h s) = qs_wire s"
  by (auto simp: try_take_headers_def split: qs_splits)

lemma on_readable_simps [simp]:
  "qs_open (on_readable h rd s) = qs_open s" "qs_queue (on_readable h rd s) = qs_queue s"
  "qs_writing (on_readable h rd s) = qs_writing s" "qs_wantwrite (on_readable h rd s) = qs_wantwrite s"
  "qs_wire (on_readable h rd s) = qs_wire s"
  by (auto simp: on_readable_def Let_def split: qs_splits)

lemma on_close_simps [simp]:
  "\<not> qs_open (on_close s)" "qs_read (on_close s) = None" "qs_queue (on_close s) = []"
  "\<not> qs_writing (on_close s)" "qs_headers (on_close s) = qs_headers s" "qs_wire (on_close s) = qs_wire s"
  "qs_shutdown (on_close s) = None" "qs_null_use (on_close s) = qs_null_use s"
  by (auto simp: on_close_def Let_def split: option.splits)

lemma pump_write_simps [simp]:
  "qs_open (pump_write res s) = qs_open s" "qs_read (pump_write res s) = qs_read s"
  "qs_headers (pump_write res s) = qs_headers s"
  by (auto simp: pump_write_def Let_def split: qs_splits)

text \<open>One pump, with a queue whose first write is interested in progress.\<close>

lemma qs_inv_pump:
  assumes "qs_open s" "\<forall>op \<in> set (qs_queue s). wo_offset op \<le> length (wo_data op)"
    and "accepts res (qs_queue s)" "length (qs_queue s) > 1 \<or> qs_writing s \<longrightarrow> qs_wantwrite s"
    and "qs_writing s \<longrightarrow> qs_queue s \<noteq> []"
  shows "qs_inv (pump_write res s)"
proof (cases "qs_queue s")
  case Nil
  with assms show ?thesis by (auto simp: pump_write_def qs_inv_def)
next
  case (Cons op ops)
  then have "ops \<noteq> [] \<Longrightarrow> qs_wantwrite s" using assms(4) by (cases ops) auto
  with Cons assms show ?thesis
    by (cases res) (auto simp: pump_write_def qs_inv_def accepts_def Let_def)
qed

lemma qs_inv_write:
  assumes "qs_inv s" "accepts res (qs_queue s @ [new_op bs cb])"
  shows "qs_inv (qs_async_write_some res bs cb s)"
proof (cases "qs_open s")
  case True
  have "qs_inv (pump_write res (s\<lparr>qs_queue := qs_queue s @ [new_op bs cb]\<rparr>))"
    using assms True by (intro qs_inv_pump) (auto simp: qs_inv_def new_op_def)
  then show ?thesis by (simp add: qs_async_write_some_def new_op_def)
next
  case False
  with assms(1) show ?thesis
    by (auto simp: qs_async_write_some_def pump_write_def qs_inv_def)
qed

lemma qs_inv_step: "qs_inv s \<Longrightarrow> qs_step s t \<Longrightarrow> qs_inv t"
proof (erule qs_step.cases)
  fix s' res assume "qs_inv s" "s = s'" "t = on_writeable res s'" "qs_open s'" "accepts res (qs_queue s')"
  then have "qs_inv (pump_write res (s'\<lparr>qs_writing := False\<rparr>))"
    by (intro qs_inv_pump) (auto simp: qs_inv_def)
  with \<open>t = _\<close> show "qs_inv t" by (simp add: on_writeable_def)
next
  fix s' hset rd assume "qs_inv s" "s = s'" "t = on_readable hset rd s'" "qs_open s'"
  then show "qs_inv t" by (simp add: qs_inv_def)
next
  fix s' how assume "qs_inv s" "s = s'" "t = on_reset how s'"
  then show "qs_inv t" by (auto simp: qs_inv_def on_reset_def Let_def)
qed (auto simp: qs_inv_write, auto simp: qs_inv_def qs_async_read_some_def qs_async_shutdown_def
    qs_async_take_headers_def qs_async_send_headers_def Let_def)

interpretation stream_sys: step_system "\<lambda>s. s = new_qstream" qs_step qs_inv
proof unfold_locales
  show "s = new_qstream \<Longrightarrow> qs_inv s" for s by (simp add: qs_inv_def new_qstream_def)
qed (rule qs_inv_step)

section \<open>The byte queue\<close>

definition tails :: "write_op list \<Rightarrow> string" where
  "tails q = concat (map (\<lambda>op. drop (wo_offset op) (wo_data op)) q)"

lemma tails_simps [simp]:
  "tails [] = []" "tails (op # q) = drop (wo_offset op) (wo_data op) @ tails q"
  "tails (q @ [new_op bs cb]) = tails q @ bs"
  by (simp_all add: tails_def new_op_def)

text \<open>The abstract queue: bytes are appended at one end and leave for the wire at the other.\<close>

record byte_queue =
  bq_wire :: string
  bq_pending :: string

definition bq_of :: "qstream \<Rightarrow> byte_queue" where
  "bq_of s = \<lparr>bq_wire = qs_wire s, bq_pending = tails (qs_queue s)\<rparr>"

definition bq_put :: "string \<Rightarrow> byte_queue \<Rightarrow> byte_queue" where
  "bq_put bs q = q\<lparr>bq_pending := bq_pending q @ bs\<rparr>"

definition bq_send :: "nat \<Rightarrow> byte_queue \<Rightarrow> byte_queue" where
  "bq_send n q = \<lparr>bq_wire = bq_wire q @ take n (bq_pending q), bq_pending = drop n (bq_pending q)\<rparr>"

lemma bq_pump:
  assumes "qs_open s" "\<not> qs_writing s" "qs_queue s \<noteq> []" "accepts (Wrote n) (qs_queue s)"
  shows "bq_of (pump_write (Wrote n) s) = bq_send n (bq_of s)"
proof -
  obtain op ops where q: "qs_queue s = op # ops" using assms(3) by (cases "qs_queue s") auto
  with assms show ?thesis
    by (auto simp: pump_write_def bq_of_def bq_send_def accepts_def Let_def add.commute)
qed

text \<open>A schedule of submitted writes and writability events.\<close>

datatype wevent = Submit string nat write_result | Writable write_result

fun wstep :: "wevent \<Rightarrow> qstream \<Rightarrow> qstream" where
  "wstep (Submit bs cb res) s = qs_async_write_some res bs cb s"
| "wstep (Writable res) s = on_writeable res s"

fun submitted :: "wevent list \<Rightarrow> (string \<times> nat) list" where
  "submitted [] = []"
| "submitted (Submit bs cb res # es) = (bs, cb) # submitted es"
| "submitted (Writable res # es) = submitted es"

fun obeys :: "wevent list \<Rightarrow> qstream \<Rightarrow> bool" where
  "obeys [] s = True"
| "obeys (e # es) s = ((case e of
       Submit bs cb (Wrote n) \<Rightarrow> accepts (Wrote n) (qs_queue s @ [new_op bs cb])
     | Writable (Wrote n) \<Rightarrow> accepts (Wrote n) (qs_queue s)
     | _ \<Rightarrow> False) \<and> obeys es (wstep e s))"

text \<open>What has been submitted is on the wire or queued, in order, and the answered callbacks are those
  of the writes that have left the queue.\<close>

definition fifo_ok :: "(string \<times> nat) list \<Rightarrow> qstream \<Rightarrow> bool" where
  "fifo_ok subs s = (qs_open s \<and> qs_wire s @ tails (qs_queue s) = concat (map fst subs)
     \<and> (\<exists>k \<le> length subs. qs_fired s = map (\<lambda>(d, cb). F_write cb None (length d)) (take k subs)
          \<and> map (\<lambda>op. (wo_data op, wo_cb op)) (qs_queue s) = drop k subs))"

lemma fifo_ok_pump:
  assumes "fifo_ok subs s" "accepts (Wrote n) (qs_queue s)"
  shows "fifo_ok subs (pump_write (Wrote n) s)"
proof (cases "qs_writing s \<or> qs_queue s = [] \<or> n = 0")
  case True
  with assms(1) show ?thesis by (cases "qs_queue s") (auto simp: pump_write_def fifo_ok_def)
next
  case False
  then obtain op ops where q: "qs_queue s = op # ops" by (cases "qs_queue s") auto
  from assms(1) obtain k where k: "k \<le> length subs"
      "qs_fired s = map (\<lambda>(d, cb). F_write cb None (length d)) (take k subs)"
      "(wo_data op, wo_cb op) # map (\<lambda>op. (wo_data op, wo_cb op)) ops = drop k subs"
    and w: "qs_open s" "qs_wire s @ tails (qs_queue s) = concat (map fst subs)"
    by (auto simp: fifo_ok_def q)
  let ?t = "pump_write (Wrote n) s"
  have wire: "qs_wire ?t @ tails (qs_queue ?t) = concat (map fst subs)"
    using bq_pump [of s n] w False assms(2) by (simp add: bq_of_def bq_send_def)
  show ?thesis
  proof (cases "length (wo_data op) \<le> wo_offset op + n")
    case True
    with assms(2) q False have len: "wo_offset op + n = length (wo_data op)" by (auto simp: accepts_def)
    have kl: "k < length subs" using k(3) by (metis drop_eq_Nil leI list.distinct(1))
    have nth: "subs ! k = (wo_data op, wo_cb op)" "drop (Suc k) subs = map (\<lambda>op. (wo_data op, wo_cb op)) ops"
      using k(3) kl by (simp_all add: Cons_nth_drop_Suc [symmetric])
    have "take (Suc k) subs = take k subs @ [subs ! k]" using kl by (simp add: take_Suc_conv_app_nth)
    with True len k nth q w False wire kl show ?thesis
      by (auto simp: fifo_ok_def pump_write_def Let_def intro!: exI [of _ "Suc k"])
  next
    case short: False
    with k q w False wire show ?thesis
      by (auto simp: fifo_ok_def pump_write_def Let_def)
  qed
qed

lemma fifo_ok_submit:
  assumes "fifo_ok subs s"
  shows "fifo_ok (subs @ [(bs, cb)]) (s\<lparr>qs_queue := qs_queue s @ [new_op bs cb]\<rparr>)"
proof -
  from assms obtain k where k: "k \<le> length subs"
      "qs_fired s = map (\<lambda>(d, cb). F_write cb None (length d)) (take k subs)"
      "map (\<lambda>op. (wo_data op, wo_cb op)) (qs_queue s) = drop k subs" "qs_open s"
      "qs_wire s @ tails (qs_queue s) = concat (map fst subs)"
    by (auto simp: fifo_ok_def)
  then show ?thesis
    by (auto simp: fifo_ok_def new_op_def [symmetric] simp flip: append_assoc intro!: exI [of _ k])
      (simp_all add: new_op_def)
qed

lemma fifo_ok_run:
  "fifo_ok subs s \<Longrightarrow> obeys es s \<Longrightarrow> fifo_ok (subs @ submitted es) (fold wstep es s)"
proof (induction es arbitrary: subs s)
  case (Cons e es)
  show ?case
  proof (cases e)
    case (Submit bs cb res)
    with Cons.prems obtain n where "res = Wrote n" "accepts (Wrote n) (qs_queue s @ [new_op bs cb])"
      by (cases res) auto
    with Submit fifo_ok_pump [OF fifo_ok_submit [OF Cons.prems(1)], of n bs cb]
    have "fifo_ok (subs @ [(bs, cb)]) (wstep e s)"
      by (simp add: qs_async_write_some_def new_op_def)
    with Cons Submit show ?thesis by fastforce
  next
    case (Writable res)
    with Cons.prems obtain n where "res = Wrote n" "accepts (Wrote n) (qs_queue s)"
      by (cases res) auto
    moreover have "fifo_ok subs (s\<lparr>qs_writing := False\<rparr>)" using Cons.prems(1) by (simp add: fifo_ok_def)
    ultimately have "fifo_ok subs (wstep e s)"
      using Writable fifo_ok_pump [of subs "s\<lparr>qs_writing := False\<rparr>" n] by (simp add: on_writeable_def)
    with Cons Writable show ?thesis by fastforce
  qed
qed simp

section \<open>Callbacks\<close>

text \<open>The callbacks of writes that have been called or are still owed.\<close>

definition write_ids :: "fired list \<Rightarrow> nat list" where
  "write_ids fs = concat (map (\<lambda>f. case f of F_write cb ec n \<Rightarrow> [cb] | _ \<Rightarrow> []) fs)"

definition write_account :: "qstream \<Rightarrow> nat multiset" where
  "write_account s = mset (write_ids (qs_fired s)) + mset (map wo_cb (qs_queue s))"

lemma write_ids_simps [simp]:
  "write_ids [] = []" "write_ids (xs @ ys) = write_ids xs @ write_ids ys"
  "write_ids [F_write cb ec n] = [cb]" "write_ids [F_read cb ec2 bs] = []"
  "write_ids [F_headers cb hs] = []" "write_ids [F_shutdown cb ec3] = []"
  by (simp_all add: write_ids_def)

lemma write_ids_failed: "write_ids (map (\<lambda>op. F_write (wo_cb op) (Some e) 0) q) = map wo_cb q"
  by (induction q) (simp_all add: write_ids_def)

lemma account_fail_writes [simp]: "write_account (fail_writes e s) = write_account s"
  by (simp add: write_account_def write_ids_failed)

lemma account_fail_read [simp]: "write_account (fail_read e s) = write_account s"
  by (auto simp: write_account_def fail_read_def split: option.splits)

lemma account_pump [simp]: "write_account (pump_write res s) = write_account s"
proof (cases "qs_open s")
  case True
  then show ?thesis
    by (cases "qs_queue s"; cases res) (simp_all add: pump_write_def write_account_def Let_def)
qed (simp add: pump_write_def)

lemma account_try_take [simp]: "write_account (try_take_headers h s) = write_account s"
  by (auto simp: write_account_def try_take_headers_def split: option.splits)

lemma account_fields [simp]:
  "write_account (s\<lparr>qs_writing := w\<rparr>) = write_account s" "write_account (s\<lparr>qs_open := b\<rparr>) = write_account s"
  "write_account (s\<lparr>qs_self := x\<rparr>) = write_account s"
  "write_account (s\<lparr>qs_queue := qs_queue s @ [new_op bs cb]\<rparr>) = add_mset cb (write_account s)"
  by (simp_all add: write_account_def new_op_def)

lemma account_on_close [simp]: "write_account (on_close s) = write_account s"
proof -
  have "write_account (call_back (F_shutdown cb None) (t\<lparr>qs_shutdown := None\<rparr>)) = write_account t" for cb t
    by (simp add: write_account_def)
  then show ?thesis by (simp add: on_close_def Let_def split: option.splits)
qed

section \<open>Progress\<close>

text \<open>The library takes up to \<open>k\<close> bytes of the first queued write at each writability event.\<close>

definition offer :: "nat \<Rightarrow> qstream \<Rightarrow> qstream" where
  "offer k s = on_writeable (Wrote (case qs_queue s of
       [] \<Rightarrow> 0 | op # ops \<Rightarrow> min k (length (wo_data op) - wo_offset op))) s"

definition unsent :: "qstream \<Rightarrow> bool" where
  "unsent s = (qs_open s \<and> (\<forall>op \<in> set (qs_queue s). wo_offset op < length (wo_data op)))"

lemma offer_progress:
  assumes "unsent s" "0 < k" "qs_queue s \<noteq> []"
  shows "unsent (offer k s) \<and> length (tails (qs_queue (offer k s))) < length (tails (qs_queue s))"
proof -
  obtain op ops where q: "qs_queue s = op # ops" using assms(3) by (cases "qs_queue s") auto
  with assms show ?thesis
    by (auto simp: unsent_def offer_def on_writeable_def pump_write_def Let_def)
qed

lemma offer_empty: "qs_open s \<Longrightarrow> qs_queue s = [] \<Longrightarrow> qs_open (offer k s) \<and> qs_queue (offer k s) = []"
  by (simp add: offer_def on_writeable_def pump_write_def)

lemma offer_all:
  "unsent s \<Longrightarrow> 0 < k \<Longrightarrow> length (tails (qs_queue s)) \<le> m \<Longrightarrow> qs_queue ((offer k ^^ m) s) = []"
proof (induction m arbitrary: s)
  case 0
  then show ?case by (cases "qs_queue s") (auto simp: unsent_def)
next
  case (Suc m)
  have "unsent (offer k s) \<and> length (tails (qs_queue (offer k s))) \<le> m"
  proof (cases "qs_queue s = []")
    case True
    with Suc.prems offer_empty [of s k] show ?thesis by (simp add: unsent_def)
  next
    case False
    with Suc.prems offer_progress [of s k] show ?thesis by simp
  qed
  with Suc show ?case by (simp add: funpow_swap1)
qed

section \<open>Header sets\<close>

text \<open>The decoder writes at most into the region it was offered.\<close>

inductive hsi_step :: "header_set \<Rightarrow> header_set \<Rightarrow> bool" where
  hsi_decoded: "hsi_prepare_decode False space hs = (Some (off, avail), hs') \<Longrightarrow> size_used \<le> avail \<Longrightarrow>
     hsi_step hs (hs'\<lparr>hs_dec_size := size_used\<rparr>)"
| hsi_field: "hsi_step hs (snd (hsi_process hdr hs))"

definition hsi_inv :: "header_set \<Rightarrow> bool" where
  "hsi_inv hs = (hs_decode_off hs + hs_dec_size hs \<le> decode_buf_size
     \<and> (\<not> hs_have_xhdr hs \<longrightarrow> hs_dec_size hs = 0))"

lemma hsi_inv_step: "hsi_inv hs \<Longrightarrow> hsi_step hs hs' \<Longrightarrow> hsi_inv hs'"
proof (erule hsi_step.cases)
  fix space hs1 off avail hs2 used
  assume "hsi_inv hs" "hs = hs1" "hs' = hs2\<lparr>hs_dec_size := used\<rparr>"
    "hsi_prepare_decode False space hs1 = (Some (off, avail), hs2)" "used \<le> avail"
  then show "hsi_inv hs'"
    by (auto simp: hsi_prepare_decode_def hsi_inv_def Let_def split: if_splits)
next
  fix hs1 hdr assume "hsi_inv hs" "hs = hs1" "hs' = snd (hsi_process hdr hs1)"
  then show "hsi_inv hs'" by (auto simp: hsi_process_def hsi_inv_def split: option.splits)
qed

interpretation hsi_sys: step_system "\<lambda>hs. hs = hsi_create" hsi_step hsi_inv
proof unfold_locales
  show "hs = hsi_create \<Longrightarrow> hsi_inv hs" for hs by (simp add: hsi_create_def hsi_inv_def)
qed (rule hsi_inv_step)

section \<open>Properties\<close>

text \<open>C4: the write queue is a byte queue.  Whatever the order of writes and writability events, and however
  few bytes the library accepts at a time, the bytes on the wire followed by the queued tails are
  exactly the submitted bytes in order; the callbacks called are those of the writes that left the
  queue, in order of submission, each with its full length.\<close>

theorem quic_write_fifo:
  assumes "obeys es new_qstream" "s = fold wstep es new_qstream"
  shows "bq_wire (bq_of s) @ bq_pending (bq_of s) = concat (map fst (submitted es))
    \<and> (\<exists>k \<le> length (submitted es).
         qs_fired s = map (\<lambda>(d, cb). F_write cb None (length d)) (take k (submitted es))
         \<and> map (\<lambda>op. (wo_data op, wo_cb op)) (qs_queue s) = drop k (submitted es))"
proof -
  have "fifo_ok [] new_qstream" by (simp add: fifo_ok_def new_qstream_def)
  from fifo_ok_run [OF this assms(1)] assms(2) show ?thesis by (simp add: fifo_ok_def bq_of_def)
qed

definition ex_writes :: "wevent list" where
  "ex_writes = [Submit ''abc'' 1 (Wrote 2), Submit ''de'' 2 (Wrote 0), Writable (Wrote 1), Writable (Wrote 1)]"

lemmas ex_writes_defs = ex_writes_def accepts_def new_op_def qs_async_write_some_def on_writeable_def
  pump_write_def new_qstream_def call_back_def Let_def

theorem quic_write_fifo_witness:
  "bq_wire (bq_of (fold wstep ex_writes new_qstream)) @ bq_pending (bq_of (fold wstep ex_writes new_qstream))
     = ''abcde''"
proof -
  have "obeys ex_writes new_qstream" by (simp add: ex_writes_defs)
  from quic_write_fifo [OF this refl] show ?thesis by (simp add: ex_writes_def)
qed

text \<open>Queued writes are finished.  When no queued write is empty and the library accepts at least one
  byte at each writability event, then as many events as there are queued bytes empty the queue.\<close>

theorem quic_write_completes:
  assumes "qs_open s" "\<forall>op \<in> set (qs_queue s). wo_offset op < length (wo_data op)"
    and "0 < k" "length (tails (qs_queue s)) \<le> m"
  shows "qs_queue ((offer k ^^ m) s) = []"
  using assms by (intro offer_all) (simp_all add: unsent_def)

theorem quic_write_completes_witness:
  "qs_queue ((offer 1 ^^ 3) (new_qstream\<lparr>qs_queue := [new_op ''abc'' 1]\<rparr>)) = []"
  by (rule quic_write_completes) (simp_all add: new_qstream_def new_op_def)

text \<open>C17: write callbacks are called exactly once.  A write adds its callback to those called or owed, a
  header block calls its own at once, every other operation leaves that account as it is, in every
  reachable state a queued write has the library's attention, and after a close nothing is queued.\<close>

theorem quic_write_callbacks:
  assumes "reachable (\<lambda>s. s = new_qstream) qs_step s"
  shows "write_account (qs_async_write_some res bs cb s) = add_mset cb (write_account s)
    \<and> write_account (snd (qs_async_send_headers ok hs cb s)) = add_mset cb (write_account s)
    \<and> write_account (on_writeable res s) = write_account s
    \<and> write_account (on_readable hset rd s) = write_account s
    \<and> write_account (on_reset how s) = write_account s
    \<and> write_account (on_close s) = write_account s
    \<and> (qs_queue s \<noteq> [] \<longrightarrow> qs_open s \<and> qs_wantwrite s) \<and> qs_queue (on_close s) = []"
proof -
  have inv: "qs_inv s" by (rule stream_sys.reachable_inv [OF assms])
  have w: "write_account (qs_async_write_some res bs cb s) = add_mset cb (write_account s)"
    by (simp add: qs_async_write_some_def flip: new_op_def)
  have h: "write_account (snd (qs_async_send_headers ok hs cb s)) = add_mset cb (write_account s)"
    by (simp add: qs_async_send_headers_def write_account_def)
  have r: "write_account (on_readable hset rd s) = write_account s"
  proof (cases "qs_headers s = None")
    case True
    then show ?thesis
      by (cases rd) (simp_all add: on_readable_def write_account_def Let_def split: option.splits)
  qed (auto simp: on_readable_def)
  have "write_account (on_reset how s) = write_account s" by (simp add: on_reset_def Let_def)
  with inv w h r show ?thesis by (simp add: on_writeable_def qs_inv_def)
qed

theorem quic_write_callbacks_witness:
  "write_account (qs_async_write_some (Wrote 1) ''a'' 4 new_qstream) = {#4#}"
proof -
  have "reachable (\<lambda>s. s = new_qstream) qs_step new_qstream" by (rule reach_init) simp
  from quic_write_callbacks [OF this, of "Wrote 1" "''a''" 4] show ?thesis
    by (simp add: write_account_def new_qstream_def)
qed

lemma closed_stays:
  assumes "qs_step s t" "\<not> qs_open s"
  shows "\<not> qs_open t \<and> qs_headers t = qs_headers s"
  using assms
  by cases (auto simp: qs_async_read_some_def qs_async_write_some_def qs_async_shutdown_def
      qs_async_take_headers_def qs_async_send_headers_def Let_def)

lemma closed_no_headers:
  assumes "qs_step s t" "\<not> qs_open s" "F_headers cb hs \<in> set (qs_fired t)"
  shows "F_headers cb hs \<in> set (qs_fired s)"
  using assms
  by cases (auto simp: qs_async_read_some_def qs_async_write_some_def qs_async_shutdown_def pump_write_def
      qs_async_take_headers_def qs_async_send_headers_def Let_def split: if_splits)

text \<open>A request for headers that is pending when the stream closes is never answered.  Closing leaves
  the callback in place, and no later operation of the stream calls it or any other header callback.\<close>

theorem quic_headers_lost:
  assumes "qs_headers s = Some cb" "reachable (\<lambda>x. x = on_close s) qs_step t"
  shows "qs_headers t = Some cb \<and> (F_headers cb' hs \<in> set (qs_fired t) \<longrightarrow> F_headers cb' hs \<in> set (qs_fired s))"
proof -
  have c: "F_headers cb' hs \<in> set (qs_fired s)" if "F_headers cb' hs \<in> set (qs_fired (on_close s))"
    using that by (auto simp: on_close_def fail_read_def Let_def split: option.splits)
  from assms(2) have "\<not> qs_open t \<and> qs_headers t = Some cb
      \<and> (F_headers cb' hs \<in> set (qs_fired t) \<longrightarrow> F_headers cb' hs \<in> set (qs_fired s))"
  proof (induction rule: reachable.induct)
    case (reach_init t)
    with assms(1) c show ?case by simp
  next
    case (reach_step t u)
    with closed_stays [of t u] closed_no_headers [of t u] show ?case by auto
  qed
  then show ?thesis by simp
qed

theorem quic_headers_lost_witness:
  "qs_headers (qs_async_shutdown False 9 (on_close (snd (qs_async_take_headers None 3 new_qstream)))) = Some 3"
proof -
  let ?s = "snd (qs_async_take_headers None 3 new_qstream)"
  have p: "qs_headers ?s = Some 3"
    by (simp add: qs_async_take_headers_def try_take_headers_def new_qstream_def)
  have "reachable (\<lambda>x. x = on_close ?s) qs_step (qs_async_shutdown False 9 (on_close ?s))"
    by (rule reach_step [where s = "on_close ?s"]) (simp_all add: reach_init st_shutdown)
  from quic_headers_lost [OF p this] show ?thesis by simp
qed

text \<open>Shutting a closed stream down.  Sending a header block on a closed stream answers the callback
  with end-of-file and returns false; the shutdown that such a callback goes on to request hands the null
  stream to the QUIC library, and its own callback is left pending on a stream that will not close
  again when the library refuses.\<close>

theorem quic_closed_shutdown:
  assumes "\<not> qs_open s"
  shows "fst (qs_async_send_headers ok hs cb s) = False
    \<and> last (qs_fired (snd (qs_async_send_headers ok hs cb s))) = F_write cb (Some Eof) 0
    \<and> qs_null_use (qs_async_shutdown r cb' (snd (qs_async_send_headers ok hs cb s)))
    \<and> (\<not> r \<longrightarrow> qs_shutdown (qs_async_shutdown r cb' s) = Some cb')"
  using assms by (simp add: qs_async_send_headers_def qs_async_shutdown_def Let_def)

theorem quic_closed_shutdown_witness:
  "qs_null_use (qs_async_shutdown False 2 (snd (qs_async_send_headers True [] 1 (on_close new_qstream))))"
  using quic_closed_shutdown [of "on_close new_qstream" True "[]" 1 False 2] by simp

text \<open>C30: header decoding stays inside its buffer.  In every state the header-set callbacks can reach, a
  region offered to the decoder lies inside the 64 KiB buffer, has at least the requested size and
  begins behind the field decoded before, so no decoded field is overwritten.\<close>

theorem hsi_decode_bounds:
  assumes "reachable (\<lambda>hs. hs = hsi_create) hsi_step hs"
    and "hsi_prepare_decode again space hs = (Some (off, avail), hs')"
  shows "off + avail = 65536 \<and> space \<le> avail \<and> off = hs_decode_off hs + hs_dec_size hs
    \<and> hs_headers hs' = hs_headers hs"
proof -
  have "hsi_inv hs" by (rule hsi_sys.reachable_inv [OF assms(1)])
  with assms(2) show ?thesis
    by (auto simp: hsi_prepare_decode_def hsi_inv_def decode_buf_size_def Let_def split: if_splits)
qed

theorem hsi_decode_bounds_witness:
  "\<exists>hs'. hsi_prepare_decode False 100 hsi_create = (Some (0, 65536), hs') \<and> (0::nat) + 65536 = 65536"
proof -
  have r: "reachable (\<lambda>hs. hs = hsi_create) hsi_step hsi_create" by (rule reach_init) simp
  have "\<exists>hs'. hsi_prepare_decode False 100 hsi_create = (Some (0, 65536), hs')"
    by (simp add: hsi_prepare_decode_def hsi_create_def decode_buf_size_def)
  then obtain hs' where p: "hsi_prepare_decode False 100 hsi_create = (Some (0, 65536), hs')" by blast
  from hsi_decode_bounds [OF r p] p show ?thesis by blast
qed

end
