(* ===== verification/Quic_Demux.thy ===== *)
theory Quic_Demux
  imports Transport "HOL-Library.Word" "HOL-Library.Monad_Syntax"
begin

text \<open>
  The QUIC ingress: \<^verbatim>\<open>src/transport/quic_demux.{h,cpp}\<close> (address conversion, batched sending, the table
  of connection IDs, routing of datagrams to workers, receive and write-watch loops), the parts of the
  server engine in \<^verbatim>\<open>src/transport/quic_transport.cpp\<close> that decide something (connection ID
  generation, the tick timer, the set of live sessions), and the kernel program
  \<^verbatim>\<open>ebpf/quic_steer.bpf.c\<close>.

  The QUIC library's packet parser \<^verbatim>\<open>lsquic_dcid_from_packet\<close> is a parameter \<open>dcid\<close>: it maps a datagram to
  the offset and length of the destination connection ID, a negative offset when there is none.  What
  system calls return is an argument.  Reads of the kernel program outside the packet are \<open>None\<close>.
\<close>

unbundle bit_operations_syntax

type_synonym bytes = "8 word list"

section \<open>Addresses\<close>

datatype ip_addr = V4 bytes | V6 bytes

record udp_endpoint =
  ue_addr :: ip_addr
  ue_port :: "16 word"

datatype sa_family = AF_INET | AF_INET6

record sockaddr =
  sa_fam :: sa_family
  sa_port :: bytes
  sa_addr :: bytes

definition htons :: "16 word \<Rightarrow> bytes" where
  "htons p = [ucast (drop_bit 8 p), ucast p]"

definition to_sockaddr :: "udp_endpoint \<Rightarrow> sockaddr" where
  "to_sockaddr ep = (case ue_addr ep of
       V4 bs \<Rightarrow> \<lparr>sa_fam = AF_INET, sa_port = htons (ue_port ep), sa_addr = take 4 bs\<rparr>
     | V6 bs \<Rightarrow> \<lparr>sa_fam = AF_INET6, sa_port = htons (ue_port ep), sa_addr = take 16 bs\<rparr>)"

section \<open>Sending a batch\<close>

datatype send_result = Sent | Would_block | Send_failed

record out_spec =
  os_fam :: sa_family
  os_result :: send_result

text \<open>The state of the loop: the count, the blocked flag and the positions that went out.\<close>

fun send_loop :: "int \<Rightarrow> int \<Rightarrow> out_spec list \<Rightarrow> nat \<Rightarrow> nat \<times> bool \<times> nat list \<Rightarrow> nat \<times> bool \<times> nat list" where
  "send_loop fd4 fd6 [] i st = st"
| "send_loop fd4 fd6 (sp # sps) i (sent, blocked, out) =
     send_loop fd4 fd6 sps (Suc i)
       (if (if os_fam sp = AF_INET then fd4 else fd6) < 0 then (sent, blocked, out)
        else case os_result sp of
          Sent \<Rightarrow> (sent + 1, blocked, out @ [i])
        | Would_block \<Rightarrow> (sent, True, out)
        | Send_failed \<Rightarrow> (sent, blocked, out))"

definition send_specs :: "int \<Rightarrow> int \<Rightarrow> out_spec list \<Rightarrow> nat \<times> bool \<times> nat list" where
  "send_specs fd4 fd6 sps = send_loop fd4 fd6 sps 0 (0, False, [])"

section \<open>The demultiplexer\<close>

definition kServerCidLen :: nat where
  "kServerCidLen = 8"

definition cid_key :: "bytes \<Rightarrow> bytes" where
  "cid_key cid = cid"

record demux =
  dx_workers :: nat
  dx_cids :: "bytes \<rightharpoonup> int"
  dx_open6 :: bool
  dx_recv4 :: nat
  dx_recv6 :: nat
  dx_armed4 :: bool
  dx_armed6 :: bool
  dx_posted :: "(nat \<times> bytes \<times> sockaddr) list"
  dx_flushes :: "nat list"

text \<open>The constructor; \<open>bind6\<close> says whether the second socket could be opened and bound.\<close>

definition new_demux :: "bool \<Rightarrow> bool \<Rightarrow> demux" where
  "new_demux dual_stack bind6 = \<lparr>dx_workers = 0, dx_cids = Map.empty, dx_open6 = (dual_stack \<and> bind6),
     dx_recv4 = 0, dx_recv6 = 0, dx_armed4 = False, dx_armed6 = False, dx_posted = [], dx_flushes = []\<rparr>"

definition add_worker :: "demux \<Rightarrow> int \<times> demux" where
  "add_worker d = (int (dx_workers d), d\<lparr>dx_workers := dx_workers d + 1\<rparr>)"

definition register_cid :: "bytes \<Rightarrow> int \<Rightarrow> demux \<Rightarrow> demux" where
  "register_cid key idx d = d\<lparr>dx_cids := (dx_cids d)(key \<mapsto> idx)\<rparr>"

definition remove_cid :: "bytes \<Rightarrow> demux \<Rightarrow> demux" where
  "remove_cid key d = d\<lparr>dx_cids := (dx_cids d)(key := None)\<rparr>"

definition fnv1a :: "bytes \<Rightarrow> 64 word" where
  "fnv1a bs = fold (\<lambda>b h. (h XOR ucast b) * 0x100000001b3) bs 0xcbf29ce484222325"

text \<open>The worker for a connection ID \<open>key\<close> whose first byte is \<open>b0\<close>.\<close>

definition route_cid :: "bytes \<Rightarrow> 8 word \<Rightarrow> demux \<Rightarrow> int" where
  "route_cid key b0 d = (case dx_cids d key of
       Some w \<Rightarrow> w
     | None \<Rightarrow>
         if unat b0 < dx_workers d then uint b0 else uint (fnv1a key) mod int (dx_workers d))"

definition route_packet :: "(bytes \<Rightarrow> int \<times> nat) \<Rightarrow> bytes \<Rightarrow> demux \<Rightarrow> int" where
  "route_packet dcid buf d =
     (if dx_workers d = 0 then -1
      else (let (off, cid_len) = dcid buf in
        if off < 0 \<or> cid_len = 0 then -1
        else route_cid (take cid_len (drop (nat off) buf)) (buf ! nat off) d))"

definition do_recv :: "bool \<Rightarrow> demux \<Rightarrow> demux" where
  "do_recv is_v6 d = (if is_v6 then d\<lparr>dx_recv6 := dx_recv6 d + 1\<rparr> else d\<lparr>dx_recv4 := dx_recv4 d + 1\<rparr>)"

definition demux_start :: "demux \<Rightarrow> demux" where
  "demux_start d = (let d1 = do_recv False d in if dx_open6 d1 then do_recv True d1 else d1)"

text \<open>The completion of a receive; the IPv4 socket is never closed.\<close>

definition on_packet ::
  "(bytes \<Rightarrow> int \<times> nat) \<Rightarrow> error_code \<Rightarrow> bytes \<Rightarrow> udp_endpoint \<Rightarrow> bool \<Rightarrow> demux \<Rightarrow> demux" where
  "on_packet dcid ec pkt ep is_v6 d = (case ec of
       Some e \<Rightarrow>
         if e = Operation_aborted then d
         else if \<not> is_v6 \<or> dx_open6 d then do_recv is_v6 d else d
     | None \<Rightarrow>
         (let w = route_packet dcid pkt d in
          if w < 0 \<or> w \<ge> int (dx_workers d) then do_recv is_v6 d
          else do_recv is_v6 (d\<lparr>dx_posted := dx_posted d @ [(nat w, pkt, to_sockaddr ep)]\<rparr>)))"

definition received ::
  "(bytes \<Rightarrow> int \<times> nat) \<Rightarrow> error_code \<Rightarrow> bytes \<Rightarrow> udp_endpoint \<Rightarrow> bool \<Rightarrow> demux \<Rightarrow> demux" where
  "received dcid ec pkt ep is_v6 d = on_packet dcid ec pkt ep is_v6
     (if is_v6 then d\<lparr>dx_recv6 := dx_recv6 d - 1\<rparr> else d\<lparr>dx_recv4 := dx_recv4 d - 1\<rparr>)"

definition arm_write_watch :: "bool \<Rightarrow> demux \<Rightarrow> demux" where
  "arm_write_watch is_v6 d =
     (if is_v6 then (if dx_armed6 d \<or> \<not> dx_open6 d then d else d\<lparr>dx_armed6 := True\<rparr>)
      else (if dx_armed4 d then d else d\<lparr>dx_armed4 := True\<rparr>))"

definition arm_send_retry :: "demux \<Rightarrow> demux" where
  "arm_send_retry d =
     (let d1 = arm_write_watch False d in if dx_open6 d1 then arm_write_watch True d1 else d1)"

text \<open>The completion of a write-watch: every worker is asked to flush.\<close>

definition write_ready :: "error_code \<Rightarrow> bool \<Rightarrow> demux \<Rightarrow> demux" where
  "write_ready ec is_v6 d =
     (let d1 = (if is_v6 then d\<lparr>dx_armed6 := False\<rparr> else d\<lparr>dx_armed4 := False\<rparr>) in
      if ec \<noteq> None then d1 else d1\<lparr>dx_flushes := dx_flushes d1 @ [0 ..< dx_workers d1]\<rparr>)"

section \<open>Decisions of the engines\<close>

text \<open>\<open>rng\<close> are the successive bytes of the random generator.\<close>

definition generate_scid :: "int \<Rightarrow> nat \<Rightarrow> bytes \<Rightarrow> bytes" where
  "generate_scid worker_idx len rng =
     (if worker_idx \<ge> 0 then word_of_int worker_idx else rng ! (len - 1)) # take (len - 1) rng"

definition on_new_scids :: "bytes list \<Rightarrow> int \<Rightarrow> demux \<Rightarrow> demux" where
  "on_new_scids cids worker_idx d = fold (\<lambda>c. register_cid (cid_key c) worker_idx) cids d"

definition on_old_scids :: "bytes list \<Rightarrow> demux \<Rightarrow> demux" where
  "on_old_scids cids d = fold (\<lambda>c. remove_cid (cid_key c)) cids d"

text \<open>\<open>next\<close> and \<open>diff\<close> are what \<^verbatim>\<open>lsquic_engine_earliest_adv_tick\<close> returned; the result is the timer's
  delay in milliseconds.\<close>

definition schedule_tick :: "32 word \<Rightarrow> 32 word \<Rightarrow> nat" where
  "schedule_tick nxt diff =
     (if sint diff < 0 then 0 else if nxt = 0 \<or> unat diff > 500 then 500 else unat diff)"

text \<open>A packet batch leaves through \<open>send_specs\<close>; a blocked one asks for a write-watch.\<close>

definition server_packets_out :: "int \<Rightarrow> int \<Rightarrow> out_spec list \<Rightarrow> demux \<Rightarrow> nat \<times> demux" where
  "server_packets_out fd4 fd6 sps d =
     (let (sent, blocked, out) = send_specs fd4 fd6 sps in (sent, if blocked then arm_send_retry d else d))"

record engine =
  en_live :: "nat list"
  en_dead :: "nat list"
  en_goaway :: "nat list"
  en_close :: "nat list"

definition new_engine :: engine where
  "new_engine = \<lparr>en_live = [], en_dead = [], en_goaway = [], en_close = []\<rparr>"

definition on_new_conn :: "nat \<Rightarrow> engine \<Rightarrow> engine" where
  "on_new_conn s e = e\<lparr>en_live := List.insert s (en_live e)\<rparr>"

definition conn_closed :: "nat \<Rightarrow> engine \<Rightarrow> engine" where
  "conn_closed s e = e\<lparr>en_live := removeAll s (en_live e), en_dead := en_dead e @ [s]\<rparr>"

definition prune_live :: "engine \<Rightarrow> engine" where
  "prune_live e = e\<lparr>en_live := filter (\<lambda>s. s \<notin> set (en_dead e)) (en_live e)\<rparr>"

definition engine_graceful_shutdown :: "engine \<Rightarrow> engine" where
  "engine_graceful_shutdown e = (let e1 = prune_live e in e1\<lparr>en_goaway := en_goaway e1 @ en_live e1\<rparr>)"

definition force_close_all :: "engine \<Rightarrow> engine" where
  "force_close_all e = (let e1 = prune_live e in e1\<lparr>en_close := en_close e1 @ en_live e1\<rparr>)"

section \<open>The kernel program\<close>

datatype steer = SK_DROP | Select nat

definition peek :: "bytes \<Rightarrow> nat \<Rightarrow> 8 word option" where
  "peek p i = (if i < length p then Some (p ! i) else None)"

definition N_WORKERS :: nat where "N_WORKERS = 4"
definition SCID_LEN :: nat where "SCID_LEN = 8"

definition worker_of :: "8 word \<Rightarrow> 8 word \<Rightarrow> nat" where
  "worker_of rb h = (if unat rb < N_WORKERS then unat rb else unat h mod N_WORKERS)"

definition steer_quic :: "bytes \<Rightarrow> nat \<Rightarrow> steer option" where
  "steer_quic p q =
     (if q + 1 + SCID_LEN > length p then Some SK_DROP
      else do {
        b0 \<leftarrow> peek p q;
        q6 \<leftarrow> peek p (q + 6);
        q7 \<leftarrow> peek p (q + 7);
        q1 \<leftarrow> peek p (q + 1);
        q2 \<leftarrow> peek p (q + 2);
        if b0 AND 0x80 = 0 then Some (Select (worker_of q1 (q1 + q2)))
        else do {
          q3 \<leftarrow> peek p (q + 3);
          q4 \<leftarrow> peek p (q + 4);
          if (q1 OR q2) OR (q3 OR q4) \<noteq> 0 then do {
            dcil \<leftarrow> peek p (q + 5);
            if 1 \<le> dcil \<and> dcil \<le> 20 \<and> q + 6 + unat dcil \<le> length p
            then Some (Select (worker_of q6 (q6 + dcil)))
            else Some (Select (worker_of 0xff 0))
          } else Some (Select (worker_of 0xff 0))
        }
      })"

definition quic_steer :: "bytes \<Rightarrow> steer option" where
  "quic_steer p =
     (if 20 > length p then Some SK_DROP
      else do {
        p0 \<leftarrow> peek p 0;
        if drop_bit 4 p0 \<noteq> 4 \<or> p0 AND 0x0f < 5 then Some SK_DROP
        else do {
          p9 \<leftarrow> peek p 9;
          if p9 \<noteq> 17 then Some SK_DROP
          else steer_quic p (unat (p0 AND 0x0f) * 4 + 8)
        }
      })"

section \<open>Lemmas\<close>

lemma htons_inject: "htons p = htons p' \<longleftrightarrow> p = p'"
proof
  assume eq: "htons p = htons p'"
  have "bit p n = bit p' n" if "n < 16" for n
  proof (cases "n < 8")
    case True
    from eq have "bit (ucast p :: 8 word) n = bit (ucast p' :: 8 word) n" by (simp add: htons_def)
    with True show ?thesis by (simp add: bit_simps)
  next
    case False
    from eq have "bit (ucast (drop_bit 8 p) :: 8 word) (n - 8) = bit (ucast (drop_bit 8 p') :: 8 word) (n - 8)"
      by (simp add: htons_def)
    moreover from False that have "n - 8 < 8" by arith
    ultimately show ?thesis using False by (simp add: bit_simps)
  qed
  then show "p = p'" by (intro bit_word_eqI) simp
qed simp

definition wf_addr :: "ip_addr \<Rightarrow> bool" where
  "wf_addr a = (case a of V4 bs \<Rightarrow> length bs = 4 | V6 bs \<Rightarrow> length bs = 16)"

lemma to_sockaddr_inject:
  "wf_addr (ue_addr e) \<Longrightarrow> wf_addr (ue_addr e') \<Longrightarrow> to_sockaddr e = to_sockaddr e' \<longleftrightarrow> e = e'"
  by (cases e; cases e') (auto simp: to_sockaddr_def wf_addr_def htons_inject split: ip_addr.splits)

text \<open>Sending.\<close>

definition goes_out :: "int \<Rightarrow> int \<Rightarrow> out_spec \<Rightarrow> send_result \<Rightarrow> bool" where
  "goes_out fd4 fd6 sp r = (0 \<le> (if os_fam sp = AF_INET then fd4 else fd6) \<and> os_result sp = r)"

fun positions :: "(out_spec \<Rightarrow> bool) \<Rightarrow> nat \<Rightarrow> out_spec list \<Rightarrow> nat list" where
  "positions P i [] = []"
| "positions P i (sp # sps) = (if P sp then [i] else []) @ positions P (Suc i) sps"

lemma send_loop_eq:
  "send_loop fd4 fd6 sps i (n, b, out) =
     (n + length (positions (\<lambda>sp. goes_out fd4 fd6 sp Sent) i sps),
      b \<or> (\<exists>sp \<in> set sps. goes_out fd4 fd6 sp Would_block),
      out @ positions (\<lambda>sp. goes_out fd4 fd6 sp Sent) i sps)"
proof (induction sps arbitrary: i n b out)
  case (Cons sp sps)
  show ?case by (cases "os_result sp") (simp_all add: Cons.IH goes_out_def)
qed simp

lemma positions_set:
  "j \<in> set (positions P i sps) \<longleftrightarrow> i \<le> j \<and> j < i + length sps \<and> P (sps ! (j - i))"
proof (induction sps arbitrary: i)
  case (Cons sp sps)
  show ?case
  proof (cases "j = i")
    case False
    then have "i \<le> j \<longleftrightarrow> Suc i \<le> j" by arith
    moreover have "Suc i \<le> j \<Longrightarrow> (sp # sps) ! (j - i) = sps ! (j - Suc i)"
      by (simp add: nth_Cons' )
    ultimately show ?thesis using False Cons.IH [of "Suc i"] by auto
  qed (use Cons.IH [of "Suc i"] in auto)
qed simp

text \<open>Routing.\<close>

definition cids_ok :: "demux \<Rightarrow> bool" where
  "cids_ok d = (\<forall>w \<in> ran (dx_cids d). 0 \<le> w \<and> w < int (dx_workers d))"

lemma route_cid_range:
  assumes "cids_ok d" "0 < dx_workers d"
  shows "0 \<le> route_cid key b0 d \<and> route_cid key b0 d < int (dx_workers d)"
proof (cases "dx_cids d key")
  case (Some w)
  then have "w \<in> ran (dx_cids d)" by (rule ranI)
  with assms(1) Some show ?thesis by (simp add: route_cid_def cids_ok_def)
next
  case None
  have "unat b0 < dx_workers d \<Longrightarrow> uint b0 < int (dx_workers d)"
    by (simp only: uint_nat of_nat_less_iff)
  moreover have "0 \<le> uint (fnv1a key) mod int (dx_workers d)"
    "uint (fnv1a key) mod int (dx_workers d) < int (dx_workers d)"
    using assms(2) by simp_all
  ultimately show ?thesis using None by (simp add: route_cid_def)
qed

lemma route_packet_range:
  assumes "cids_ok d"
  shows "route_packet dcid buf d = -1 \<or> 0 \<le> route_packet dcid buf d \<and> route_packet dcid buf d < int (dx_workers d)"
proof -
  obtain off len where dc: "dcid buf = (off, len)" by (cases "dcid buf")
  with route_cid_range [OF assms, of "take len (drop (nat off) buf)" "buf ! nat off"] show ?thesis
    by (simp add: route_packet_def)
qed

lemma cids_ok_register: "cids_ok d \<Longrightarrow> 0 \<le> w \<Longrightarrow> w < int (dx_workers d) \<Longrightarrow> cids_ok (register_cid k w d)"
  by (auto simp: cids_ok_def register_cid_def ran_def)

lemma cids_ok_remove: "cids_ok d \<Longrightarrow> cids_ok (remove_cid k d)"
  by (auto simp: cids_ok_def remove_cid_def ran_def)

lemma new_scids_lookup:
  "dx_cids (on_new_scids cids w d) k = (if k \<in> set cids then Some w else dx_cids d k)
   \<and> dx_workers (on_new_scids cids w d) = dx_workers d"
  by (induction cids arbitrary: d) (auto simp: on_new_scids_def register_cid_def cid_key_def)

lemma old_scids_lookup:
  "dx_cids (on_old_scids cids d) k = (if k \<in> set cids then None else dx_cids d k)
   \<and> dx_workers (on_old_scids cids d) = dx_workers d"
  by (induction cids arbitrary: d) (auto simp: on_old_scids_def remove_cid_def cid_key_def)

lemma generate_scid_head:
  "0 \<le> w \<Longrightarrow> w < 256 \<Longrightarrow> \<exists>b rest. generate_scid w len rng = b # rest \<and> uint b = w \<and> unat b = nat w"
proof -
  assume w: "0 \<le> w" "w < 256"
  then have u: "uint (word_of_int w :: 8 word) = w" by (simp add: uint_word_of_int)
  then have "unat (word_of_int w :: 8 word) = nat w" by (simp only: unat_eq_nat_uint)
  with u w show ?thesis by (simp add: generate_scid_def)
qed

text \<open>The kernel program.\<close>

lemma peek_Some [simp]: "i < length p \<Longrightarrow> peek p i = Some (p ! i)"
  by (simp add: peek_def)

lemma worker_of_less: "worker_of rb h < 4"
  by (simp add: worker_of_def N_WORKERS_def)

lemma steer_quic_safe: "steer_quic p q = Some SK_DROP \<or> (\<exists>i. steer_quic p q = Some (Select i) \<and> i < 4)"
proof (cases "q + 1 + SCID_LEN > length p")
  case False
  then have "q + 8 < length p" by (simp add: SCID_LEN_def)
  with worker_of_less show ?thesis by (simp add: steer_quic_def)
qed (simp add: steer_quic_def)

lemma steer_quic_short:
  assumes "length pre = q" "9 \<le> length pkt" "pkt ! 0 AND 0x80 = 0"
  shows "steer_quic (pre @ pkt) q = Some (Select (worker_of (pkt ! 1) (pkt ! 1 + pkt ! 2)))"
proof -
  from assms have "peek (pre @ pkt) q = Some (pkt ! 0)" by (cases pkt) (auto simp: peek_def nth_append)
  with assms show ?thesis by (simp add: steer_quic_def SCID_LEN_def nth_append)
qed

lemma steer_quic_long:
  assumes "length pre = q" "9 \<le> length pkt" "pkt ! 0 AND 0x80 \<noteq> 0"
    and "(pkt ! 1 OR pkt ! 2) OR (pkt ! 3 OR pkt ! 4) \<noteq> 0"
    and "1 \<le> pkt ! 5" "pkt ! 5 \<le> 20" "6 + unat (pkt ! 5) \<le> length pkt"
  shows "steer_quic (pre @ pkt) q = Some (Select (worker_of (pkt ! 6) (pkt ! 6 + pkt ! 5)))"
proof -
  from assms have "peek (pre @ pkt) q = Some (pkt ! 0)" by (cases pkt) (auto simp: peek_def nth_append)
  with assms show ?thesis by (simp add: steer_quic_def SCID_LEN_def nth_append)
qed

lemma route_cid_recv [simp]:
  "route_cid key b0 (d\<lparr>dx_recv4 := n\<rparr>) = route_cid key b0 d"
  "route_cid key b0 (d\<lparr>dx_recv6 := n\<rparr>) = route_cid key b0 d"
  by (simp_all add: route_cid_def split: option.splits)

lemma route_recv [simp]:
  "route_packet dcid buf (d\<lparr>dx_recv4 := n\<rparr>) = route_packet dcid buf d"
  "route_packet dcid buf (d\<lparr>dx_recv6 := n\<rparr>) = route_packet dcid buf d"
  by (simp_all add: route_packet_def split: prod.splits)

lemma route_packet_drop:
  assumes "cids_ok d" "dcid buf = (off, len)" "0 \<le> off"
  shows "route_packet dcid buf d = -1 \<longleftrightarrow> dx_workers d = 0 \<or> len = 0"
proof -
  have "0 < dx_workers d \<Longrightarrow> route_cid (take len (drop (nat off) buf)) (buf ! nat off) d \<noteq> -1"
    using route_cid_range [OF assms(1), of "take len (drop (nat off) buf)" "buf ! nat off"] by auto
  with assms(2,3) show ?thesis by (simp add: route_packet_def)
qed

lemma route_packet_key:
  assumes "dcid buf = (off, len)" "dcid buf' = (off', len)"
    and "take len (drop (nat off) buf) = take len (drop (nat off') buf')"
    and "nat off + len \<le> length buf" "nat off' + len \<le> length buf'" "0 \<le> off" "0 \<le> off'"
  shows "route_packet dcid buf' d = route_packet dcid buf d"
proof (cases "len = 0")
  case False
  have "take len (drop (nat off) buf) ! 0 = take len (drop (nat off') buf') ! 0" using assms(3) by simp
  with False assms(4,5) have "buf ! nat off = buf' ! nat off'" by simp
  with False assms(1-3,6,7) show ?thesis by (simp add: route_packet_def)
qed (use assms(1,2) in \<open>simp add: route_packet_def\<close>)

section \<open>Properties\<close>


definition short_dcid :: "bytes \<Rightarrow> int \<times> nat" where
  "short_dcid buf = (if length buf < 9 then (-1, 0) else (1, 8))"

definition ex_demux :: demux where
  "ex_demux = demux_start ((new_demux False False)\<lparr>dx_workers := 4\<rparr>)"

definition ex_datagram :: bytes where
  "ex_datagram = [0x40, 2, 1, 1, 1, 1, 1, 1, 1]"

lemmas ex_demux_defs = ex_demux_def demux_start_def do_recv_def new_demux_def ex_datagram_def short_dcid_def Let_def

definition ex_peer :: udp_endpoint where
  "ex_peer = \<lparr>ue_addr = V4 [127, 0, 0, 1], ue_port = 9\<rparr>"


text \<open>C14: a server's connection IDs lead home.  A datagram whose connection ID was generated by the engine of
  worker \<open>w\<close> (one of at most 256) is routed to \<open>w\<close> as soon as the ID is announced, and still after it
  was retired, because its first byte names the worker.\<close>

theorem scid_routes_home:
  assumes "0 \<le> w" "w < int (dx_workers d)" "w < 256" "0 < len"
    and "dcid buf = (off, len)" "0 \<le> off" "nat off + len \<le> length buf"
    and "take len (drop (nat off) buf) = generate_scid w len rng"
  shows "route_packet dcid buf (on_new_scids [generate_scid w len rng] w d) = w
    \<and> route_packet dcid buf (on_old_scids [generate_scid w len rng] (on_new_scids [generate_scid w len rng] w d)) = w"
proof -
  obtain b rest where g: "generate_scid w len rng = b # rest" "uint b = w" "unat b = nat w"
    using generate_scid_head [OF assms(1,3)] by blast
  have "take len (drop (nat off) buf) ! 0 = b" using assms(8) g by simp
  with assms(4,7) have b: "buf ! nat off = b" by simp
  let ?n = "on_new_scids [generate_scid w len rng] w d"
  let ?o = "on_old_scids [generate_scid w len rng] ?n"
  have n: "dx_cids ?n (b # rest) = Some w" "dx_workers ?n = dx_workers d"
    using new_scids_lookup [of "[generate_scid w len rng]" w d "b # rest"] g by simp_all
  have o: "dx_cids ?o (b # rest) = None" "dx_workers ?o = dx_workers d"
    using old_scids_lookup [of "[generate_scid w len rng]" ?n "b # rest"] n g by simp_all
  have small: "nat w < dx_workers d" using assms(1,2) by simp
  have "route_packet dcid buf ?n = w" using n small assms(4-6,8) g by (simp add: route_packet_def route_cid_def)
  moreover have "route_packet dcid buf ?o = w"
    using o small assms(4-6,8) g b by (simp add: route_packet_def route_cid_def)
  ultimately show ?thesis by blast
qed

theorem scid_routes_home_witness:
  "route_packet short_dcid ex_datagram (on_new_scids [generate_scid 2 8 (replicate 7 1)] 2 ex_demux) = 2"
proof -
  have "take 8 (drop (nat 1) ex_datagram) = generate_scid 2 8 (replicate 7 1)"
    by (simp add: ex_datagram_def generate_scid_def numeral_nat)
  moreover have "short_dcid ex_datagram = (1, 8)" "nat 1 + 8 \<le> length ex_datagram" "dx_workers ex_demux = 4"
    by (simp_all add: ex_demux_defs)
  ultimately show ?thesis using scid_routes_home [of 2 ex_demux 8 short_dcid ex_datagram 1 "replicate 7 1"] by simp
qed

text \<open>What the count of a sent batch means.  It is the number of packets that went out, and these are
  exactly the ones whose family has a socket and whose send succeeded; the blocked flag tells whether
  some send would have blocked.  The packets that went out need not be the first ones: after a failure
  the loop goes on, so a batch of a failed and a successful packet is reported as one sent packet while
  the first packet, which the library then forgets, is the one that did not go out.\<close>

theorem send_specs_count:
  assumes "send_specs fd4 fd6 sps = (sent, blocked, out)"
  shows "sent = length out
    \<and> (j \<in> set out \<longleftrightarrow> j < length sps \<and> goes_out fd4 fd6 (sps ! j) Sent)
    \<and> (blocked \<longleftrightarrow> (\<exists>sp \<in> set sps. goes_out fd4 fd6 sp Would_block))
    \<and> (sps = [a, b] \<and> \<not> goes_out fd4 fd6 a Sent \<and> goes_out fd4 fd6 b Sent \<longrightarrow> sent = 1 \<and> out = [1])"
proof -
  from assms have out: "out = positions (\<lambda>sp. goes_out fd4 fd6 sp Sent) 0 sps" "sent = length out"
    "blocked \<longleftrightarrow> (\<exists>sp \<in> set sps. goes_out fd4 fd6 sp Would_block)"
    by (auto simp: send_specs_def send_loop_eq)
  then show ?thesis using positions_set [of j _ 0 sps] by auto
qed

theorem send_specs_count_witness:
  "send_specs 3 (-1) [\<lparr>os_fam = AF_INET6, os_result = Sent\<rparr>, \<lparr>os_fam = AF_INET, os_result = Sent\<rparr>] = (1, False, [1])"
proof -
  let ?sps = "[\<lparr>os_fam = AF_INET6, os_result = Sent\<rparr>, \<lparr>os_fam = AF_INET, os_result = Sent\<rparr>]"
  obtain sent blocked out where r: "send_specs 3 (-1) ?sps = (sent, blocked, out)"
    by (cases "send_specs 3 (-1) ?sps") auto
  from send_specs_count [OF r, of 0 "?sps ! 0" "?sps ! 1"] r show ?thesis by (simp add: goes_out_def)
qed

text \<open>The kernel program is memory safe and total.  On every packet it returns without reading outside
  the packet, and a selected index is one of the four workers.\<close>

theorem steer_safe: "\<exists>r. quic_steer p = Some r \<and> (case r of SK_DROP \<Rightarrow> True | Select i \<Rightarrow> i < 4)"
proof (cases "20 > length p")
  case False
  then have "peek p 0 = Some (p ! 0)" "peek p 9 = Some (p ! 9)" by (cases p; simp add: peek_def)+
  with False steer_quic_safe [of p "unat (p ! 0 AND 0x0f) * 4 + 8"] show ?thesis
    by (auto simp: quic_steer_def)
qed (simp add: quic_steer_def)

text \<open>An IPv4 header with \<open>ihl\<close> words for UDP, followed by the UDP header: what the program expects
  in front of the QUIC packet.\<close>

definition ip_udp :: "nat \<Rightarrow> bytes \<Rightarrow> bool" where
  "ip_udp ihl pre = (5 \<le> ihl \<and> ihl \<le> 15 \<and> length pre = ihl * 4 + 8
     \<and> drop_bit 4 (pre ! 0) = 4 \<and> unat (pre ! 0 AND 0x0f) = ihl \<and> pre ! 9 = 17)"

lemma quic_steer_ip:
  assumes "ip_udp ihl pre"
  shows "quic_steer (pre @ pkt) = steer_quic (pre @ pkt) (ihl * 4 + 8)"
proof -
  have len: "28 \<le> length pre" using assms by (simp add: ip_udp_def)
  then have pk: "peek (pre @ pkt) 0 = Some (pre ! 0)" "peek (pre @ pkt) 9 = Some (pre ! 9)"
    by (cases pre; auto simp: peek_def nth_append)+
  have "\<not> (pre ! 0 AND 0x0f) < 5"
    using assms by (simp add: ip_udp_def word_less_nat_alt)
  with len pk assms show ?thesis by (simp add: quic_steer_def ip_udp_def)
qed

text \<open>The library's parser, as documented: a short header has a connection ID of the fixed length behind
  its first byte, a long header announces the length in its sixth byte.\<close>

definition parses_dcid :: "(bytes \<Rightarrow> int \<times> nat) \<Rightarrow> bool" where
  "parses_dcid dcid = (\<forall>pkt. 9 \<le> length pkt \<longrightarrow>
     (pkt ! 0 AND 0x80 = 0 \<longrightarrow> dcid pkt = (1, 8))
     \<and> (pkt ! 0 AND 0x80 \<noteq> 0 \<and> (pkt ! 1 OR pkt ! 2) OR (pkt ! 3 OR pkt ! 4) \<noteq> 0
          \<and> 1 \<le> pkt ! 5 \<and> pkt ! 5 \<le> 20 \<and> 6 + unat (pkt ! 5) \<le> length pkt \<longrightarrow>
        dcid pkt = (6, unat (pkt ! 5))))"

text \<open>The routing byte as both programs find it.\<close>

definition routing_byte :: "bytes \<Rightarrow> 8 word option" where
  "routing_byte pkt =
     (if length pkt < 9 then None
      else if pkt ! 0 AND 0x80 = 0 then Some (pkt ! 1)
      else if (pkt ! 1 OR pkt ! 2) OR (pkt ! 3 OR pkt ! 4) \<noteq> 0 \<and> 1 \<le> pkt ! 5 \<and> pkt ! 5 \<le> 20
              \<and> 6 + unat (pkt ! 5) \<le> length pkt
      then Some (pkt ! 6) else None)"


definition ex_dcid :: "bytes \<Rightarrow> int \<times> nat" where
  "ex_dcid pkt = (if length pkt < 9 then (-1, 0) else if pkt ! 0 AND 0x80 = 0 then (1, 8)
     else (6, unat (pkt ! 5)))"

definition ex_headers :: bytes where
  "ex_headers = [0x45, 0, 0, 37, 0, 0, 0, 0, 64, 17] @ replicate 18 0"


text \<open>C40: what the kernel program sees.  The data of a program of this kind begins with the UDP header, so its
  first two bytes are the source port.  Unless the client's port lies between 16384 and 20479, the
  program drops the datagram, whatever it contains.\<close>

theorem steer_drops_datagrams:
  assumes "unat sport div 4096 \<noteq> 4"
  shows "quic_steer (htons sport @ rest) = Some SK_DROP"
proof (cases "20 > length (htons sport @ rest)")
  case False
  have d: "unat (drop_bit n w) = unat w div 2 ^ n" for n and w :: "'l::len word"
    using unat_drop_bit_eq [of n w] drop_bit_eq_div [of n "unat w"] by (rule trans)
  have "unat sport div 256 < 256" using unsigned_less [of sport, where ?'a = nat] by simp
  then have "unat (ucast (drop_bit 8 sport) :: 8 word) = unat sport div 256"
    by (simp add: unsigned_ucast_eq d take_bit_nat_eq_self)
  then have "unat (drop_bit 4 (ucast (drop_bit 8 sport) :: 8 word)) = unat sport div 4096"
    by (simp add: d div_mult2_eq [symmetric])
  with assms have "drop_bit 4 (ucast (drop_bit 8 sport) :: 8 word) \<noteq> 4" by auto
  with False show ?thesis by (simp add: quic_steer_def htons_def peek_def)
qed (simp add: quic_steer_def)

theorem steer_drops_datagrams_witness:
  "quic_steer (htons 50000 @ [0x01, 0xbb, 0, 17, 0, 0] @ ex_datagram) = Some SK_DROP"
  by (rule steer_drops_datagrams) simp

text \<open>The tick timer and the live sessions of an engine.\<close>

lemma schedule_tick_bounds: "schedule_tick nxt diff \<le> 500"
  by (simp add: schedule_tick_def)

lemma engine_live_new: "set (en_live (on_new_conn s e)) = insert s (set (en_live e))"
  by (simp add: on_new_conn_def)

lemma engine_shutdown_live:
  "s \<in> set (en_goaway (engine_graceful_shutdown e)) \<longleftrightarrow>
     s \<in> set (en_goaway e) \<or> s \<in> set (en_live e) \<and> s \<notin> set (en_dead e)"
  "s \<in> set (en_close (force_close_all e)) \<longleftrightarrow>
     s \<in> set (en_close e) \<or> s \<in> set (en_live e) \<and> s \<notin> set (en_dead e)"
  by (auto simp: engine_graceful_shutdown_def force_close_all_def prune_live_def Let_def)

end
