(* ===== verification/Proxy_Core.thy ===== *)
theory Proxy_Core
  imports Relay_Session Quic_Stream Quic_Demux
begin

text \<open>
  One worker, \<^verbatim>\<open>src/proxy/proxy_core.{h,cpp}\<close>, with the one-stream TCP session of
  \<^verbatim>\<open>src/transport/tcp_transport.cpp\<close>: it builds router and pool from the configuration, turns the
  streams of its client sessions into relay sessions, and drains them at shutdown.

  The worker's set of weak references to relays is a list of numbered relay states.  A relay is
  kept alive by the callbacks in flight and by its armed timer, so the reference has expired when
  there is neither.  The relays run by the steps of \<open>relay_step\<close>; the worker adds relays, and its
  shutdown acts on all of them.
\<close>

section \<open>TCP sessions\<close>

text \<open>A TCP session has exactly one stream, until it is closed.\<close>

record tcp_session =
  tc_stream :: "nat option"

definition new_tcp_session :: "nat \<Rightarrow> tcp_session" where
  "new_tcp_session st = \<lparr>tc_stream = Some st\<rparr>"

definition tcp_protocol :: "tcp_session \<Rightarrow> transport_protocol" where
  "tcp_protocol s = TCP"

text \<open>The streams passed to the callback.\<close>

definition tcp_set_new_stream_cb :: "tcp_session \<Rightarrow> nat option list" where
  "tcp_set_new_stream_cb s = [tc_stream s]"

definition tcp_open_stream :: "tcp_session \<Rightarrow> nat option" where
  "tcp_open_stream s = None"

definition tcp_close :: "tcp_session \<Rightarrow> tcp_session" where
  "tcp_close s = s\<lparr>tc_stream := None\<rparr>"

section \<open>The worker\<close>

record core =
  co_router :: router
  co_pool :: pool
  co_idle :: int
  co_tcp_conns :: "64 word"
  co_quic_conns :: "64 word"
  co_relays :: "(nat \<times> relay) list"
  co_next :: nat
  co_quic :: "engine option"

definition new_core :: "proxy_config \<Rightarrow> core" where
  "new_core cfg = \<lparr>
     co_router = fold (\<lambda>r. add_rule (rr_host_match r) (rr_backend_id r)) (cf_routes cfg) [],
     co_pool = fold add_backend (cf_backends cfg) new_pool,
     co_idle = cf_idle_timeout_secs cfg, co_tcp_conns = 0, co_quic_conns = 0, co_relays = [],
     co_next = 0, co_quic = None\<rparr>"

text \<open>\<open>client_h1\<close>: the codec is the HTTP/1.1 codec.\<close>

definition on_stream :: "bool \<Rightarrow> core \<Rightarrow> core" where
  "on_stream client_h1 c =
     c\<lparr>co_relays := co_relays c
         @ [(co_next c, start_relay (new_relay (co_router c) client_h1 (co_idle c) zero_stats))],
       co_next := co_next c + 1\<rparr>"

text \<open>The session's streams go to the codec of its protocol; a TCP session delivers its stream at once.\<close>

definition on_session :: "transport_protocol \<Rightarrow> nat \<Rightarrow> core \<Rightarrow> core" where
  "on_session proto streams c = (on_stream (proto \<noteq> QUIC) ^^ streams) c"

definition on_new_tcp_socket :: "nat \<Rightarrow> core \<Rightarrow> core" where
  "on_new_tcp_socket st c =
     (let s = new_tcp_session st in
      on_session (tcp_protocol s) (length (tcp_set_new_stream_cb s)) (c\<lparr>co_tcp_conns := co_tcp_conns c + 1\<rparr>))"

definition start_quic :: "demux \<Rightarrow> core \<Rightarrow> int \<times> demux \<times> core" where
  "start_quic d c = (let (idx, d') = add_worker d in (idx, d', c\<lparr>co_quic := Some new_engine\<rparr>))"

text \<open>A new QUIC connection is counted; its streams arrive later.\<close>

definition on_quic_session :: "nat \<Rightarrow> core \<Rightarrow> core" where
  "on_quic_session s c =
     on_session QUIC 0
       (c\<lparr>co_quic_conns := co_quic_conns c + 1, co_quic := map_option (on_new_conn s) (co_quic c)\<rparr>)"

definition on_quic_stream :: "core \<Rightarrow> core" where
  "on_quic_stream c = on_stream False c"

definition expired :: "relay \<Rightarrow> bool" where
  "expired r = (ry_waits r = [] \<and> \<not> ry_timer r)"

definition core_graceful_shutdown :: "core \<Rightarrow> core" where
  "core_graceful_shutdown c =
     c\<lparr>co_relays := map (\<lambda>(i, r). (i, graceful_close r)) (filter (\<lambda>(i, r). \<not> expired r) (co_relays c)),
       co_quic := map_option engine_graceful_shutdown (co_quic c)\<rparr>"

definition force_close_quic :: "core \<Rightarrow> core" where
  "force_close_quic c = c\<lparr>co_quic := map_option force_close_all (co_quic c)\<rparr>"

section \<open>Runs of a worker\<close>

datatype core_event =
    C_tcp nat
  | C_quic_session nat
  | C_quic_stream
  | C_relay nat event
  | C_shutdown
  | C_force_close

text \<open>A relay that has used a null stream has taken the whole process down: nothing happens after it.\<close>

definition crashed :: "core \<Rightarrow> bool" where
  "crashed c = (\<exists>x \<in> set (co_relays c). ry_fault (snd x))"

definition update_relay :: "nat \<Rightarrow> relay \<Rightarrow> (nat \<times> relay) list \<Rightarrow> (nat \<times> relay) list" where
  "update_relay i r = map (\<lambda>(j, r'). if j = i then (j, r) else (j, r'))"

fun core_apply :: "core_event \<Rightarrow> core \<Rightarrow> core option" where
  "core_apply (C_tcp st) c = Some (on_new_tcp_socket st c)"
| "core_apply (C_quic_session s) c = Some (on_quic_session s c)"
| "core_apply C_quic_stream c = Some (on_quic_stream c)"
| "core_apply (C_relay i e) c = (case map_of (co_relays c) i of
     None \<Rightarrow> None
   | Some r \<Rightarrow> (case event_step e r of
       None \<Rightarrow> None
     | Some r' \<Rightarrow> Some (c\<lparr>co_relays := update_relay i r' (co_relays c)\<rparr>)))"
| "core_apply C_shutdown c = Some (core_graceful_shutdown c)"
| "core_apply C_force_close c = Some (force_close_quic c)"

definition core_step :: "core_event \<Rightarrow> core \<Rightarrow> core option" where
  "core_step e c = (if crashed c then None else core_apply e c)"

fun core_run :: "core_event list \<Rightarrow> core \<Rightarrow> core option" where
  "core_run [] c = Some c"
| "core_run (e # es) c = (case core_step e c of None \<Rightarrow> None | Some c' \<Rightarrow> core_run es c')"

section \<open>Lemmas\<close>

definition fresh_relay :: "bool \<Rightarrow> core \<Rightarrow> relay" where
  "fresh_relay h1 c = start_relay (new_relay (co_router c) h1 (co_idle c) zero_stats)"

definition core_inv :: "core \<Rightarrow> bool" where
  "core_inv c = (distinct (map fst (co_relays c)) \<and> (\<forall>(i, r) \<in> set (co_relays c).
     i < co_next c \<and> reachable relay_init relay_step r \<and> ry_router r = co_router c))"

lemma update_relay_fst [simp]: "map fst (update_relay i r xs) = map fst xs"
  by (induction xs) (auto simp: update_relay_def)

lemma update_relay_lookup:
  "map_of (update_relay i r xs) j = (if j = i then map_option (\<lambda>_. r) (map_of xs i) else map_of xs j)"
  by (induction xs) (auto simp: update_relay_def)

lemma update_relay_set: "x \<in> set (update_relay i r xs) \<Longrightarrow> x \<in> set xs \<or> x = (i, r) \<and> i \<in> fst ` set xs"
  by (force simp: update_relay_def)

lemma on_stream_relays:
  "co_relays (on_stream h1 c) = co_relays c @ [(co_next c, fresh_relay h1 c)]"
  "co_next (on_stream h1 c) = Suc (co_next c)" "co_router (on_stream h1 c) = co_router c"
  by (simp_all add: on_stream_def fresh_relay_def)

text \<open>The router of a relay never changes.\<close>

lemma router_complete: "ry_router (complete w res r) = ry_router r"
proof -
  have a: "ry_router (after_client_response r) = ry_router r" for r
    by (auto simp: after_client_response_def gracefully_close_client_def drain_client_def request_phase_def
        await_def relay_parts)
  have d: "ry_router (dispatch h b r) = ry_router r" for h b r
    by (auto simp: dispatch_def handle_connect_def handle_forward_def write_error_def await_def relay_parts
        split: option.splits)
  have t: "ry_router (teardown r) = ry_router r" "ry_router (finish_backend ka r) = ry_router r" for r ka
    by (auto simp: teardown_def finish_backend_def relay_parts split: option.splits)
  show ?thesis
    by (cases "(w, res, r)" rule: complete.cases)
      (auto simp: a d t on_request_def use_backend_def on_tunnel_connect_def on_request_written_def
        on_reconnect_def on_response_def write_error_def send_backend_request_def start_tunnel_def
        response_phase_def reconnect_backend_fresh_def drain_client_def bridge_mode_def pump_bytes_def
        await_def relay_parts split: sum.splits option.splits prod.splits)
qed

lemma router_step: "event_step e r = Some r' \<Longrightarrow> ry_router r' = ry_router r"
proof -
  have "ry_router (idle_timeout r) = ry_router r" "ry_router (graceful_close r) = ry_router r"
    by (auto simp: idle_timeout_def teardown_def graceful_close_def relay_parts split: option.splits)
  then show "event_step e r = Some r' \<Longrightarrow> ry_router r' = ry_router r"
    by (cases e) (auto simp: event_step_def finish_op_def router_complete split: if_splits)
qed

lemma core_inv_on_stream: "core_inv c \<Longrightarrow> core_inv (on_stream h1 c)"
proof -
  assume inv: "core_inv c"
  have "reachable relay_init relay_step (fresh_relay h1 c)"
    unfolding fresh_relay_def by (intro reach_init relay_init.intros)
  moreover have "ry_router (fresh_relay h1 c) = co_router c"
    by (simp add: fresh_relay_def start_relay_def request_phase_def new_relay_def await_def relay_parts)
  ultimately show ?thesis using inv
    by (fastforce simp: core_inv_def on_stream_relays)
qed

lemma core_inv_same_relays:
  "core_inv c \<Longrightarrow> co_relays c' = co_relays c \<Longrightarrow> co_next c' = co_next c \<Longrightarrow> co_router c' = co_router c \<Longrightarrow> core_inv c'"
  by (simp add: core_inv_def)

text \<open>What one event does to the relays: it may add one, let one take a step, or let all of them take the
  step of a graceful close.\<close>

lemma core_step_relay:
  assumes "core_step e c = Some c'" "core_inv c" "map_of (co_relays c') i = Some r'"
  shows "(\<exists>r ev. map_of (co_relays c) i = Some r \<and> (r' = r \<or> event_step ev r = Some r'))
    \<or> i = co_next c \<and> map_of (co_relays c) i = None \<and> (\<exists>h1. r' = fresh_relay h1 c)"
proof -
  have fr: "map_of (co_relays c) (co_next c) = None"
    using assms(2) by (auto simp: core_inv_def map_of_eq_None_iff)
  have nf: "\<not> crashed c" and ap: "core_apply e c = Some c'"
    using assms(1) by (auto simp: core_step_def split: if_splits)
  have new: ?thesis if "co_relays c' = co_relays c @ [(co_next c, fresh_relay h1 c)]" for h1
    using that assms(3) fr by (auto simp: map_add_def split: if_splits option.splits)
  have same: ?thesis if "co_relays c' = co_relays c" using that assms(3) by auto
  show ?thesis
  proof (cases e)
    case (C_tcp st)
    with ap have "co_relays c' = co_relays c @ [(co_next c, fresh_relay True c)]"
      by (auto simp: on_new_tcp_socket_def on_session_def tcp_set_new_stream_cb_def tcp_protocol_def
          on_stream_def fresh_relay_def Let_def)
    then show ?thesis by (rule new)
  next
    case C_quic_stream
    with ap have "co_relays c' = co_relays c @ [(co_next c, fresh_relay False c)]"
      by (auto simp: on_quic_stream_def on_stream_relays)
    then show ?thesis by (rule new)
  next
    case (C_relay j ev)
    with ap obtain r r1 where "map_of (co_relays c) j = Some r" "event_step ev r = Some r1"
      "c' = c\<lparr>co_relays := update_relay j r1 (co_relays c)\<rparr>"
      by (auto split: option.splits)
    with assms(3) show ?thesis by (auto simp: update_relay_lookup split: if_splits)
  next
    case C_shutdown
    with ap assms(3) have "(i, r') \<in> (\<lambda>(i, r). (i, graceful_close r)) ` set (co_relays c)"
      by (auto simp: core_graceful_shutdown_def dest!: map_of_SomeD)
    then obtain r where r: "(i, r) \<in> set (co_relays c)" "r' = graceful_close r" by auto
    with assms(2) have "map_of (co_relays c) i = Some r" by (simp add: core_inv_def map_of_is_SomeI)
    moreover have "event_step E_graceful r = Some r'"
      using r nf by (auto simp: event_step_def crashed_def)
    ultimately show ?thesis by blast
  qed (use ap same in \<open>auto simp: on_quic_session_def on_session_def force_close_quic_def\<close>)
qed

lemma core_step_ids:
  assumes "core_step e c = Some c'" "core_inv c"
  shows "distinct (map fst (co_relays c')) \<and> co_router c' = co_router c \<and> (\<forall>x \<in> set (co_relays c'). fst x < co_next c')"
proof -
  have ap: "core_apply e c = Some c'" using assms(1) by (auto simp: core_step_def split: if_splits)
  from assms(2) have d: "distinct (map fst (co_relays c))" and b: "\<forall>x \<in> set (co_relays c). fst x < co_next c"
    by (auto simp: core_inv_def)
  have str: "distinct (map fst (co_relays (on_stream h1 c0))) \<and> co_router (on_stream h1 c0) = co_router c0
      \<and> (\<forall>x \<in> set (co_relays (on_stream h1 c0)). fst x < co_next (on_stream h1 c0))"
    if "co_relays c0 = co_relays c" "co_next c0 = co_next c" for h1 c0
    using d b that by (auto simp: on_stream_relays less_Suc_eq)
  show ?thesis
  proof (cases e)
    case (C_tcp st)
    with ap str [of "c\<lparr>co_tcp_conns := co_tcp_conns c + 1\<rparr>" True] show ?thesis
      by (auto simp: on_new_tcp_socket_def on_session_def tcp_set_new_stream_cb_def tcp_protocol_def Let_def)
  next
    case C_quic_stream
    with ap str [of c False] show ?thesis by (auto simp: on_quic_stream_def)
  next
    case (C_relay i ev)
    with ap obtain r where c': "c' = c\<lparr>co_relays := update_relay i r (co_relays c)\<rparr>"
      by (auto split: option.splits)
    have "fst x < co_next c" if "x \<in> set (update_relay i r (co_relays c))" for x
      using update_relay_set [OF that] b by auto
    with c' d show ?thesis by simp
  next
    case C_shutdown
    with ap have c': "c' = core_graceful_shutdown c" by simp
    then have "map fst (co_relays c') = map fst (filter (\<lambda>(i, r). \<not> expired r) (co_relays c))"
      by (simp add: core_graceful_shutdown_def case_prod_beta)
    moreover have "distinct (map fst (filter P (co_relays c)))" for P using d by (rule distinct_map_filter)
    moreover have "\<forall>x \<in> set (co_relays c'). fst x < co_next c'"
      using b c' by (auto simp: core_graceful_shutdown_def)
    moreover have "co_router c' = co_router c" using c' by (simp add: core_graceful_shutdown_def)
    ultimately show ?thesis by presburger
  qed (use ap d b in \<open>force simp: on_quic_session_def on_session_def force_close_quic_def\<close>)+
qed

lemma core_inv_step:
  assumes "core_step e c = Some c'" "core_inv c"
  shows "core_inv c'"
proof -
  note ids = core_step_ids [OF assms]
  have "reachable relay_init relay_step r' \<and> ry_router r' = co_router c'" if "(i, r') \<in> set (co_relays c')" for i r'
  proof -
    have "map_of (co_relays c') i = Some r'" using that ids by (simp add: map_of_is_SomeI)
    from core_step_relay [OF assms this] show ?thesis
    proof
      assume "\<exists>r ev. map_of (co_relays c) i = Some r \<and> (r' = r \<or> event_step ev r = Some r')"
      then obtain r ev where r: "(i, r) \<in> set (co_relays c)" "r' = r \<or> event_step ev r = Some r'"
        by (auto dest: map_of_SomeD)
      then have "reachable relay_init relay_step r" "ry_router r = co_router c"
        using assms(2) by (auto simp: core_inv_def)
      with r(2) ids show ?thesis
        by (auto dest: router_step intro: reach_step event_step_relay_step)
    next
      assume "i = co_next c \<and> map_of (co_relays c) i = None \<and> (\<exists>h1. r' = fresh_relay h1 c)"
      then obtain h1 where "r' = fresh_relay h1 c" by blast
      with core_inv_on_stream [OF assms(2), of h1] ids show ?thesis
        by (simp add: core_inv_def on_stream_relays)
    qed
  qed
  with ids show ?thesis by (auto simp: core_inv_def)
qed

lemma core_inv_run: "core_run es c = Some c' \<Longrightarrow> core_inv c \<Longrightarrow> core_inv c'"
  by (induction es arbitrary: c) (auto split: option.splits intro: core_inv_step)

lemma core_run_router: "core_run es c = Some c' \<Longrightarrow> core_inv c \<Longrightarrow> co_router c' = co_router c"
proof (induction es arbitrary: c)
  case (Cons e es)
  then obtain c1 where c1: "core_step e c = Some c1" "core_run es c1 = Some c'" by (auto split: option.splits)
  with Cons.IH [OF c1(2) core_inv_step [OF c1(1) Cons.prems(2)]] core_step_ids [OF c1(1) Cons.prems(2)]
  show ?case by simp
qed simp

lemma core_inv_new: "core_inv (new_core cfg)"
  by (simp add: core_inv_def new_core_def)

interpretation core_sys: step_system "\<lambda>c. \<exists>cfg. c = new_core cfg" "\<lambda>c c'. \<exists>e. core_step e c = Some c'" core_inv
  by unfold_locales (auto intro: core_inv_new core_inv_step)

lemma core_run_reachable:
  "core_run es c = Some c' \<Longrightarrow> reachable (\<lambda>c. \<exists>cfg. c = new_core cfg) (\<lambda>c c'. \<exists>e. core_step e c = Some c') c
    \<Longrightarrow> reachable (\<lambda>c. \<exists>cfg. c = new_core cfg) (\<lambda>c c'. \<exists>e. core_step e c = Some c') c'"
proof (induction es arbitrary: c)
  case (Cons e es)
  then obtain c1 where "core_step e c = Some c1" "core_run es c1 = Some c'" by (auto split: option.splits)
  with Cons show ?case by (blast intro: reach_step)
qed simp

text \<open>A relay that is being closed.\<close>

definition closing :: "relay \<Rightarrow> bool" where
  "closing r = (ry_draining r \<or> ry_done r)"

lemma closing_step:
  assumes "relay_inv r" "closing r" "event_step e r = Some r'"
  shows "closing r' \<and> (W_parse_request \<notin> set (ry_waits r) \<longrightarrow> W_parse_request \<notin> set (ry_waits r'))"
proof -
  have "closing r'" using assms(2,3) by (auto simp: closing_def dest: draining_stays done_stays)
  with closing_no_request [OF assms(1) _ _ assms(3)] assms(2) show ?thesis by (auto simp: closing_def)
qed

lemma core_step_next: "core_step e c = Some c' \<Longrightarrow> co_next c \<le> co_next c'"
  by (cases e) (auto simp: core_step_def on_new_tcp_socket_def on_session_def tcp_set_new_stream_cb_def
      on_quic_session_def on_quic_stream_def on_stream_def core_graceful_shutdown_def force_close_quic_def Let_def
      split: if_splits option.splits)

text \<open>Numbers of relays are not used again.\<close>

lemma gone_stays:
  "core_run es c = Some c' \<Longrightarrow> core_inv c \<Longrightarrow> i < co_next c \<Longrightarrow> map_of (co_relays c) i = None
    \<Longrightarrow> map_of (co_relays c') i = None"
proof (induction es arbitrary: c)
  case (Cons e es)
  then obtain c1 where c1: "core_step e c = Some c1" "core_run es c1 = Some c'" by (auto split: option.splits)
  have "map_of (co_relays c1) i = None"
  proof (rule ccontr)
    assume "map_of (co_relays c1) i \<noteq> None"
    then obtain r1 where "map_of (co_relays c1) i = Some r1" by blast
    from core_step_relay [OF c1(1) Cons.prems(2) this] Cons.prems(3,4) show False by auto
  qed
  moreover have "i < co_next c1" using core_step_next [OF c1(1)] Cons.prems(3) by simp
  ultimately show ?case using Cons.IH [OF c1(2) core_inv_step [OF c1(1) Cons.prems(2)]] by blast
qed simp

lemma closing_run:
  assumes "core_run es c = Some c'" "core_inv c" "map_of (co_relays c) i = Some r" "closing r"
    and "map_of (co_relays c') i = Some r'"
  shows "closing r' \<and> (W_parse_request \<notin> set (ry_waits r) \<longrightarrow> W_parse_request \<notin> set (ry_waits r'))"
  using assms
proof (induction es arbitrary: c r)
  case (Cons e es)
  then obtain c1 where c1: "core_step e c = Some c1" "core_run es c1 = Some c'" by (auto split: option.splits)
  have inv1: "core_inv c1" by (rule core_inv_step [OF c1(1) Cons.prems(2)])
  have "map_of (co_relays c1) i \<noteq> None"
  proof
    assume "map_of (co_relays c1) i = None"
    moreover have "i < co_next c1"
      using Cons.prems(2,3) core_step_next [OF c1(1)] by (fastforce simp: core_inv_def dest: map_of_SomeD)
    ultimately show False using gone_stays [OF c1(2) inv1] Cons.prems(5) by simp
  qed
  then obtain r1 where r1: "map_of (co_relays c1) i = Some r1" by blast
  have "relay_inv r" using Cons.prems(2,3)
    by (auto simp: core_inv_def dest!: map_of_SomeD intro: relay_sys.reachable_inv)
  with core_step_relay [OF c1(1) Cons.prems(2) r1] Cons.prems(3,4)
  have "closing r1 \<and> (W_parse_request \<notin> set (ry_waits r) \<longrightarrow> W_parse_request \<notin> set (ry_waits r1))"
    using closing_step by fastforce
  with Cons.IH [OF c1(2) inv1 r1 _ Cons.prems(5)] show ?case by blast
qed simp

section \<open>Properties\<close>

text \<open>C29: every relay of a worker is a relay that the configuration's router serves and that keeps its
  invariant.  Whatever connections, streams, relay completions and shutdown requests a worker has
  processed, its relays are numbered apart, each uses the router built from the configured routes in
  their order, and the worker is brought down by a null stream only through a relay that was torn down
  before.\<close>

theorem core_relays_ok:
  assumes "core_run es (new_core cfg) = Some c" "(i, r) \<in> set (co_relays c)"
  shows "distinct (map fst (co_relays c)) \<and> relay_inv r \<and> (ry_fault r \<longrightarrow> ry_done r)
    \<and> map rr_host_match (ry_router r) = map rr_host_match (cf_routes cfg)
    \<and> map rr_backend_id (ry_router r) = map rr_backend_id (cf_routes cfg)"
proof -
  have rt: "map rr_host_match (fold (\<lambda>r. add_rule (rr_host_match r) (rr_backend_id r)) rs acc)
        = map rr_host_match acc @ map rr_host_match rs
      \<and> map rr_backend_id (fold (\<lambda>r. add_rule (rr_host_match r) (rr_backend_id r)) rs acc)
        = map rr_backend_id acc @ map rr_backend_id rs" for rs acc
    by (induction rs arbitrary: acc) (auto simp: add_rule_def)
  have inv: "core_inv c" by (rule core_inv_run [OF assms(1) core_inv_new])
  have "co_router c = co_router (new_core cfg)" by (rule core_run_router [OF assms(1) core_inv_new])
  with rt [of "cf_routes cfg" "[]"]
  have "map rr_host_match (co_router c) = map rr_host_match (cf_routes cfg)
      \<and> map rr_backend_id (co_router c) = map rr_backend_id (cf_routes cfg)"
    by (simp add: new_core_def)
  moreover from inv assms(2) have "reachable relay_init relay_step r" "ry_router r = co_router c"
    by (auto simp: core_inv_def)
  moreover from this(1) have "relay_inv r" by (rule relay_sys.reachable_inv)
  moreover from this have "ry_fault r \<longrightarrow> ry_done r" by (auto simp: relay_inv_def live_ok_def)
  ultimately show ?thesis using inv by (simp add: core_inv_def)
qed

definition ex_core :: core where
  "ex_core = on_new_tcp_socket 5 (new_core (default_config\<lparr>cf_routes := [\<lparr>rr_host_match = ''*'', rr_backend_id = ''b''\<rparr>]\<rparr>))"

lemma ex_core_run:
  "core_run [C_tcp 5] (new_core (default_config\<lparr>cf_routes := [\<lparr>rr_host_match = ''*'', rr_backend_id = ''b''\<rparr>]\<rparr>)) = Some ex_core"
  by (simp add: core_step_def crashed_def new_core_def ex_core_def)

lemma ex_core_relays: "co_relays ex_core = [(0, ex_relay)]"
  by (simp add: ex_core_def on_new_tcp_socket_def on_session_def tcp_set_new_stream_cb_def tcp_protocol_def
      on_stream_def new_core_def default_config_def ex_relay_def add_rule_def Let_def)

theorem core_relays_ok_witness: "(0, ex_relay) \<in> set (co_relays ex_core) \<and> relay_inv ex_relay"
  using core_relays_ok [OF ex_core_run, of 0 ex_relay] by (simp add: ex_core_relays)

text \<open>C10: a worker that shuts down drains its clients.  After \<^verbatim>\<open>graceful_shutdown\<close> no expired relay is kept, and
  every relay that was live is draining or torn down for the rest of its life, whatever the worker does
  next; one that was in the middle of an exchange never reads another request.\<close>

theorem core_shutdown_drains:
  assumes "core_run es (new_core cfg) = Some c" "\<not> crashed c"
    and "core_run es' (core_graceful_shutdown c) = Some c'"
    and "map_of (co_relays (core_graceful_shutdown c)) i = Some r" "map_of (co_relays c') i = Some r'"
  shows "\<not> expired r \<and> (ry_draining r' \<or> ry_done r')
    \<and> (W_parse_request \<notin> set (ry_waits r) \<longrightarrow> W_parse_request \<notin> set (ry_waits r'))"
proof -
  have inv: "core_inv c" by (rule core_inv_run [OF assms(1) core_inv_new])
  have inv1: "core_inv (core_graceful_shutdown c)"
    by (rule core_inv_step [OF _ inv, of C_shutdown]) (simp add: core_step_def assms(2))
  from assms(4) obtain r0 where r0: "r = graceful_close r0" "\<not> expired r0"
    by (auto simp: core_graceful_shutdown_def dest!: map_of_SomeD)
  have cl: "closing r" and ex: "\<not> expired r"
    using r0 by (auto simp: graceful_close_def closing_def expired_def act_def Let_def split: if_splits)
  from closing_run [OF assms(3) inv1 assms(4) cl assms(5)] ex show ?thesis by (simp add: closing_def)
qed

theorem core_shutdown_drains_witness:
  "\<exists>c' r'. core_run [C_relay 0 ex_parsed] (core_graceful_shutdown ex_core) = Some c'
     \<and> map_of (co_relays c') 0 = Some r' \<and> (ry_draining r' \<or> ry_done r')"
proof -
  have w: "ry_waits ex_relay = [W_parse_request]" "\<not> ry_fault ex_relay" "\<not> ry_done ex_relay"
    by (simp_all add: ex_relay_defs relay_defs)
  have nc: "\<not> crashed ex_core" using w by (simp add: crashed_def ex_core_relays)
  have sh: "co_relays (core_graceful_shutdown ex_core) = [(0, graceful_close ex_relay)]"
    using w by (simp add: core_graceful_shutdown_def ex_core_relays expired_def)
  have g: "ry_waits (graceful_close ex_relay) = [W_parse_request]" "\<not> ry_fault (graceful_close ex_relay)"
    using w by (simp_all add: graceful_close_def act_def Let_def)
  then obtain r' where r': "event_step ex_parsed (graceful_close ex_relay) = Some r'"
    by (auto simp: event_step_def ex_parsed_def)
  let ?c' = "(core_graceful_shutdown ex_core)\<lparr>co_relays := [(0, r')]\<rparr>"
  have run: "core_run [C_relay 0 ex_parsed] (core_graceful_shutdown ex_core) = Some ?c'"
    using g r' by (simp add: core_step_def crashed_def sh update_relay_def)
  have "ry_draining r' \<or> ry_done r'"
    using core_shutdown_drains [OF ex_core_run nc run, of 0 "graceful_close ex_relay" r'] sh by simp
  with run show ?thesis by (intro exI [of _ ?c'] exI [of _ r']) simp
qed

end
