(* ===== verification/Worker.thy ===== *)
theory Worker
  imports Proxy_Core
begin

text \<open>
  The relays of a worker together with its upstream pool: \<^verbatim>\<open>RelaySession\<close> calls \<^verbatim>\<open>async_connect\<close>,
  \<^verbatim>\<open>async_connect_fresh\<close> and \<^verbatim>\<open>release\<close> of \<^verbatim>\<open>UpstreamPool\<close> (\<^verbatim>\<open>src/proxy/relay_session.cpp\<close>,
  \<^verbatim>\<open>src/proxy/upstream_pool.cpp\<close>), and the pool calls back with a backend stream or an error.

  The state is the worker's core with its pool.  The callback a relay passes to the pool carries the
  relay's number, and a reply of the pool is heard when that callback has run.  Backend streams are
  numbered in the order in which they come into being.  The pool's actions of a relay are performed
  when its handler has run; the callbacks run in the order in which the pool called them.

  \<open>flow\<close> says what a handler of the relay does with backend streams and pool requests.  From it follow
  the two properties that need both components: a backend stream has one owner, and the pool's
  callbacks and the waiting relays match.
\<close>

section \<open>The composed system\<close>

record worker =
  wk_core :: core
  wk_heard :: nat
  wk_next :: nat

definition new_worker :: "proxy_config \<Rightarrow> worker" where
  "new_worker cfg = \<lparr>wk_core = new_core cfg, wk_heard = 0, wk_next = 0\<rparr>"

text \<open>The operation of the pool that an action of relay \<open>i\<close> is; \<open>None\<close> when it throws.\<close>

definition perform :: "pool_env \<Rightarrow> nat \<Rightarrow> action \<Rightarrow> pool \<Rightarrow> pool option" where
  "perform env i a p = (case a of
       A_pool_connect bid \<Rightarrow> async_connect env bid i p
     | A_pool_fresh ep \<Rightarrow> async_connect_fresh env ep i p
     | A_pool_release ep st \<Rightarrow> Some (release ep st p)
     | _ \<Rightarrow> Some p)"

fun perform_all :: "pool_env \<Rightarrow> nat \<Rightarrow> action list \<Rightarrow> pool \<Rightarrow> pool option" where
  "perform_all env i [] p = Some p"
| "perform_all env i (a # as) p = (case perform env i a p of None \<Rightarrow> None | Some p' \<Rightarrow> perform_all env i as p')"

text \<open>Relay \<open>i\<close> takes a step; then its new actions are performed.\<close>

definition relay_event :: "pool_env \<Rightarrow> nat \<Rightarrow> event \<Rightarrow> core \<Rightarrow> core option" where
  "relay_event env i e c = (case (map_of (co_relays c) i, core_step (C_relay i e) c) of
       (Some r, Some c') \<Rightarrow> (case map_of (co_relays c') i of
           None \<Rightarrow> None
         | Some r' \<Rightarrow> (case perform_all env i (drop (length (ry_log r)) (ry_log r')) (co_pool c') of
               None \<Rightarrow> None
             | Some p \<Rightarrow> Some (c'\<lparr>co_pool := p\<rparr>)))
     | _ \<Rightarrow> None)"

fun connecting :: "wait \<Rightarrow> bool" where
  "connecting (W_connect head body) = True"
| "connecting W_tunnel_connect = True"
| "connecting W_reconnect = True"
| "connecting w = False"

text \<open>The arguments of the pool's callback.\<close>

definition reply_result :: "reply \<Rightarrow> connect_result option" where
  "reply_result rp = (case (rp_ec rp, rp_stream rp) of
       (Some e, _) \<Rightarrow> Some (Inl e)
     | (None, Some st) \<Rightarrow> Some (Inr (st, rp_endpoint rp, rp_from_pool rp))
     | (None, None) \<Rightarrow> None)"

definition hear_reply :: "pool_env \<Rightarrow> worker \<Rightarrow> worker option" where
  "hear_reply env k = (let log = pl_log (co_pool (wk_core k)) in
     if wk_heard k < length log then
       (let rp = log ! wk_heard k in
        case (map_of (co_relays (wk_core k)) (rp_cb rp), reply_result rp) of
          (Some r, Some res) \<Rightarrow>
            (case find connecting (ry_waits r) of
               None \<Rightarrow> None
             | Some w \<Rightarrow>
                 map_option (\<lambda>c. k\<lparr>wk_core := c, wk_heard := wk_heard k + 1\<rparr>)
                   (relay_event env (rp_cb rp) (E_complete w (R_connect res)) (wk_core k)))
        | _ \<Rightarrow> None)
     else None)"

datatype worker_event =
    K_accept nat
  | K_quic_session nat
  | K_quic_stream
  | K_relay nat event
  | K_reply
  | K_tcp "backend_endpoint \<times> nat" "asio_error option"
  | K_stream nat bool
  | K_closed nat
  | K_shutdown

definition on_pool :: "(pool \<Rightarrow> pool) \<Rightarrow> worker \<Rightarrow> worker" where
  "on_pool f k = k\<lparr>wk_core := (wk_core k)\<lparr>co_pool := f (co_pool (wk_core k))\<rparr>\<rparr>"

definition core_event :: "core_event \<Rightarrow> worker \<Rightarrow> worker option" where
  "core_event e k = map_option (\<lambda>c. k\<lparr>wk_core := c\<rparr>) (core_step e (wk_core k))"

text \<open>One event; \<open>env\<close> is what the surroundings answer to the pool meanwhile.  The completion of a connect
  comes from the pool only.\<close>

definition worker_exec :: "pool_env \<Rightarrow> worker_event \<Rightarrow> worker \<Rightarrow> worker option" where
  "worker_exec env ev k = (let p = co_pool (wk_core k) in
     if crashed (wk_core k) then None
     else case ev of
       K_accept fd \<Rightarrow> core_event (C_tcp fd) k
     | K_quic_session s \<Rightarrow> core_event (C_quic_session s) k
     | K_quic_stream \<Rightarrow> core_event C_quic_stream k
     | K_relay i e \<Rightarrow>
         (case e of
            E_complete w (R_connect res) \<Rightarrow> None
          | _ \<Rightarrow> map_option (\<lambda>c. k\<lparr>wk_core := c\<rparr>) (relay_event env i e (wk_core k)))
     | K_reply \<Rightarrow> hear_reply env k
     | K_tcp req err \<Rightarrow>
         if req \<in> set (pl_tcp p) then
           (case err of
              Some e \<Rightarrow> Some (on_pool (tcp_connected req (Inl e)) k)
            | None \<Rightarrow> Some ((on_pool (tcp_connected req (Inr (wk_next k))) k)\<lparr>wk_next := wk_next k + 1\<rparr>))
         else None
     | K_stream s ok \<Rightarrow>
         if s \<in> set (pl_dead p) then None
         else if ok then Some ((on_pool (on_new_stream env s (Some (wk_next k))) k)\<lparr>wk_next := wk_next k + 1\<rparr>)
         else Some (on_pool (on_new_stream env s None) k)
     | K_closed s \<Rightarrow> if s \<in> set (pl_dead p) then None else Some (on_pool (session_closed s) k)
     | K_shutdown \<Rightarrow> core_event C_shutdown k)"

text \<open>The QUIC library hands out sessions not seen before.\<close>

inductive worker_step :: "worker \<Rightarrow> worker \<Rightarrow> bool" where
  "new_sessions env (co_pool (wk_core k)) \<Longrightarrow> worker_exec env ev k = Some k' \<Longrightarrow> worker_step k k'"

definition worker_init :: "worker \<Rightarrow> bool" where
  "worker_init k \<longleftrightarrow> (\<exists>cfg. k = new_worker cfg)"

section \<open>What a handler of the relay does with streams and requests\<close>

fun releases :: "action \<Rightarrow> nat list" where
  "releases (A_pool_release ep st) = [st]"
| "releases a = []"

fun shuts :: "action \<Rightarrow> nat list" where
  "shuts (A_backend_shutdown st) = [st]"
| "shuts a = []"

fun connects :: "action \<Rightarrow> bool" where
  "connects (A_pool_connect bid) = True"
| "connects (A_pool_fresh ep) = True"
| "connects a = False"

definition held :: "relay \<Rightarrow> nat list" where
  "held r = (case ry_backend r of None \<Rightarrow> [] | Some st \<Rightarrow> [st])"

text \<open>The streams a relay holds, gives back and shuts down are among those it held and those it was given,
  and every request to the pool is paired with a wait for the answer.\<close>

definition flow :: "nat list \<Rightarrow> relay \<Rightarrow> relay \<Rightarrow> bool" where
  "flow given r r' \<longleftrightarrow> (\<exists>acts. ry_log r' = ry_log r @ acts
     \<and> mset (held r') + mset (concat (map releases acts)) + mset (concat (map shuts acts)) \<subseteq># mset (held r) + mset given
     \<and> length (filter connecting (ry_waits r')) = length (filter connecting (ry_waits r)) + length (filter connects acts))"

lemma flow_trans:
  assumes "flow xs r s" "flow ys s t"
  shows "flow (xs @ ys) r t"
proof -
  from assms obtain a b where a: "ry_log s = ry_log r @ a"
      "mset (held s) + mset (concat (map releases a)) + mset (concat (map shuts a)) \<subseteq># mset (held r) + mset xs"
      "length (filter connecting (ry_waits s)) = length (filter connecting (ry_waits r)) + length (filter connects a)"
    and b: "ry_log t = ry_log s @ b"
      "mset (held t) + mset (concat (map releases b)) + mset (concat (map shuts b)) \<subseteq># mset (held s) + mset ys"
      "length (filter connecting (ry_waits t)) = length (filter connecting (ry_waits s)) + length (filter connects b)"
    unfolding flow_def by blast
  have "mset (held t) + mset (concat (map releases (a @ b))) + mset (concat (map shuts (a @ b))) + mset (held s)
      \<subseteq># mset (held r) + mset (xs @ ys) + mset (held s)"
    using subset_mset.add_mono [OF a(2) b(2)] by (simp add: ac_simps)
  then have "mset (held t) + mset (concat (map releases (a @ b))) + mset (concat (map shuts (a @ b)))
      \<subseteq># mset (held r) + mset (xs @ ys)" by simp
  with a(1,3) b(1,3) show ?thesis unfolding flow_def by (intro exI [of _ "a @ b"]) simp
qed

lemmas flow_then = flow_trans [where xs = "[]", simplified]

lemma flow_same:
  "ry_log r' = ry_log r \<Longrightarrow> ry_backend r' = ry_backend r
    \<Longrightarrow> length (filter connecting (ry_waits r')) = length (filter connecting (ry_waits r)) \<Longrightarrow> flow [] r r'"
  unfolding flow_def by (intro exI [of _ "[]"]) (simp add: held_def)

lemma flow_refl [simp]: "flow [] r r"
  by (rule flow_same) simp_all

lemma flow_await: "\<not> connecting w \<Longrightarrow> flow [] r (await w r)"
  by (rule flow_same) (simp_all add: await_def)

lemma flow_act: "releases a = [] \<Longrightarrow> shuts a = [] \<Longrightarrow> \<not> connects a \<Longrightarrow> flow [] r (act a r)"
  unfolding flow_def by (intro exI [of _ "[a]"]) (simp add: act_def held_def)

lemma flow_connect: "connecting w \<Longrightarrow> connects a \<Longrightarrow> flow [] r (await w (act a r))"
  unfolding flow_def by (intro exI [of _ "[a]"], cases a) (simp_all add: act_def await_def held_def)

lemma flow_op:
  "releases a = [] \<Longrightarrow> shuts a = [] \<Longrightarrow> \<not> connects a \<Longrightarrow> \<not> connecting w \<Longrightarrow> flow [] r (await w (act a r))"
  by (rule flow_then [OF flow_act flow_await])

lemma flow_fault: "flow [] r (r\<lparr>ry_fault := b\<rparr>)"
  by (rule flow_same) simp_all

lemma flow_given: "flow [st] r (r\<lparr>ry_backend := Some st\<rparr>)"
  unfolding flow_def by (intro exI [of _ "[]"]) (simp add: held_def split: option.splits)

lemma flow_close_backend: "flow [] r (close_backend r)"
proof (cases "ry_backend r")
  case (Some st)
  then show ?thesis unfolding flow_def
    by (intro exI [of _ "[A_backend_shutdown st]"]) (simp add: close_backend_def act_def held_def)
qed (simp add: close_backend_def)


lemma flow_quiet:
  "flow [] r (goto_phase ph r)" "flow [] r (kick_idle_timer r)" "flow [] r (bump_requests r)" "flow [] r (bump_err r)"
  "flow [] r (bump_ok r)" "flow [] r (bump_connects r)"
  by (rule flow_same; simp add: goto_phase_def kick_idle_timer_def bump_requests_def bump_err_def bump_ok_def
      bump_connects_def)+

lemma flow_write_error: "flow [] r (write_error st msg r)"
  unfolding write_error_def
  by (rule flow_then [OF flow_quiet(4) flow_op]) simp_all

lemma flow_teardown: "flow [] r (teardown r)"
proof (cases "ry_done r")
  case False
  have "flow [] r (goto_phase kClosed (r\<lparr>ry_done := True, ry_timer := False\<rparr>))"
    by (rule flow_same) (simp_all add: goto_phase_def)
  then have "flow [] r (close_backend (act A_client_shutdown (goto_phase kClosed (r\<lparr>ry_done := True, ry_timer := False\<rparr>))))"
    by (intro flow_then [OF _ flow_close_backend] flow_then [OF _ flow_act]) simp_all
  with False show ?thesis by (simp add: teardown_def)
qed (simp add: teardown_def)

lemma flow_drain: "flow [] r (drain_client r)"
  by (simp add: drain_client_def flow_await)

lemma flow_after_client_response: "flow [] r (after_client_response r)"
proof -
  have "flow [] r (act A_client_shutdown (r\<lparr>ry_draining := True\<rparr>))"
    by (rule flow_then [OF flow_same flow_act]) simp_all
  then have "flow [] r (gracefully_close_client r)"
    by (simp add: gracefully_close_client_def flow_then [OF _ flow_drain])
  moreover have "flow [] r (request_phase r)" unfolding request_phase_def
    by (rule flow_then [OF flow_quiet(1) flow_then [OF flow_quiet(2) flow_await]]) simp
  ultimately show ?thesis by (simp add: after_client_response_def flow_drain)
qed

lemma flow_finish_backend: "flow [] r (finish_backend ka r)"
proof (cases "ry_backend r")
  case (Some st)
  let ?r = "r\<lparr>ry_pending_head := None, ry_pending_body := None\<rparr>"
  have "flow [] ?r ((act (A_pool_release (ry_endpoint ?r) st) ?r)\<lparr>ry_backend := None\<rparr>)"
    unfolding flow_def
    by (intro exI [of _ "[A_pool_release (ry_endpoint r) st]"]) (use Some in \<open>simp add: act_def held_def\<close>)
  moreover have "flow [] r ?r" by (rule flow_same) simp_all
  ultimately have "flow [] r ((act (A_pool_release (ry_endpoint ?r) st) ?r)\<lparr>ry_backend := None\<rparr>)"
    "flow [] r (close_backend ?r)"
    by (blast intro: flow_then [OF \<open>flow [] r ?r\<close>] flow_close_backend)+
  with Some show ?thesis by (simp add: finish_backend_def Let_def)
qed (simp add: finish_backend_def flow_same)

lemma flow_send_backend_request: "flow [] r (send_backend_request retry r)"
  unfolding send_backend_request_def
  by (simp add: flow_op flow_fault split: option.split)

lemma flow_response_phase: "flow [] r (response_phase r)"
proof -
  have "flow [] r (kick_idle_timer (goto_phase kResponse r))" by (rule flow_then [OF flow_quiet(1,2)])
  moreover have "flow [] s (case ry_backend s of None \<Rightarrow> s\<lparr>ry_fault := True\<rparr>
      | Some st \<Rightarrow> await W_parse_response (act (A_parse_response st) s))" for s
    by (simp add: flow_op flow_fault split: option.split)
  ultimately show ?thesis unfolding response_phase_def Let_def by (rule flow_then)
qed

lemma flow_use_backend: "flow (case res of Inl e \<Rightarrow> [] | Inr (st, ep, fp) \<Rightarrow> [st]) r (use_backend res head body r)"
proof (cases res)
  case (Inr x)
  obtain st ep fp where x: "x = (st, ep, fp)" by (cases x)
  have "flow [] (r\<lparr>ry_backend := Some st\<rparr>) (use_backend res head body r)"
    unfolding use_backend_def Let_def Inr x sum.case prod.case
    by (rule flow_then [OF flow_same flow_send_backend_request])
       (simp_all add: kick_idle_timer_def bump_connects_def)
  with flow_trans [OF flow_given [of st r]] Inr x show ?thesis by fastforce
qed (simp add: use_backend_def flow_write_error)

lemma flow_on_tunnel_connect:
  "flow (case res of Inl e \<Rightarrow> [] | Inr (st, ep, fp) \<Rightarrow> [st]) r (on_tunnel_connect res r)"
proof (cases res)
  case (Inr x)
  obtain st ep fp where x: "x = (st, ep, fp)" by (cases x)
  have "flow [] (r\<lparr>ry_backend := Some st\<rparr>) (start_tunnel (r\<lparr>ry_backend := Some st, ry_endpoint := ep\<rparr>))"
    unfolding start_tunnel_def
    by (rule flow_then [OF flow_same flow_op]) simp_all
  with flow_trans [OF flow_given [of st r]] Inr x show ?thesis by (fastforce simp: on_tunnel_connect_def)
qed (simp add: on_tunnel_connect_def flow_write_error)

lemma flow_on_reconnect:
  "flow (case res of Inl e \<Rightarrow> [] | Inr (st, ep, fp) \<Rightarrow> [st]) r (on_reconnect res r)"
proof (cases res)
  case (Inr x)
  obtain st ep fp where x: "x = (st, ep, fp)" by (cases x)
  have "flow [] (r\<lparr>ry_backend := Some st\<rparr>) (on_reconnect res r)"
    unfolding on_reconnect_def Inr x sum.case prod.case
    by (rule flow_then [OF flow_same flow_send_backend_request]) (simp_all add: bump_connects_def)
  with flow_trans [OF flow_given [of st r]] Inr x show ?thesis by fastforce
qed (simp add: on_reconnect_def flow_write_error)

lemma flow_on_request: "flow [] r (on_request res r)"
proof (cases res)
  case (Inr x)
  obtain head body ka where x: "x = (head, body, ka)" by (cases x)
  have d: "flow [] s (dispatch head body s)" for s
    by (auto simp: dispatch_def handle_connect_def handle_forward_def Let_def flow_write_error
        intro!: flow_connect split: option.splits)
  show ?thesis unfolding on_request_def Inr x sum.case prod.case
    by (rule flow_then [OF flow_same d])
       (simp_all add: kick_idle_timer_def bump_requests_def goto_phase_def)
qed (simp add: on_request_def flow_teardown)

lemma flow_on_request_written: "flow [] r (on_request_written retry ec r)"
proof -
  have "flow [] r (reconnect_backend_fresh r)"
    unfolding reconnect_backend_fresh_def by (rule flow_then [OF flow_close_backend flow_connect]) simp_all
  moreover have "flow [] r (response_phase (kick_idle_timer (r\<lparr>ry_pending_head := None, ry_pending_body := None\<rparr>)))"
    by (rule flow_then [OF flow_same flow_response_phase]) (simp_all add: kick_idle_timer_def)
  ultimately show ?thesis
    by (simp add: on_request_written_def flow_then [OF flow_close_backend flow_write_error])
qed

lemma flow_on_response: "flow [] r (on_response us res r)"
proof (cases res)
  case (Inl e)
  then show ?thesis by (simp add: on_response_def flow_then [OF flow_close_backend flow_write_error])
next
  case (Inr x)
  obtain resp body ka where x: "x = (resp, body, ka)" by (cases x)
  have w: "flow [] r (await w (act (A_write_response h b) s))"
    if "\<not> connecting w" "ry_log s = ry_log r" "ry_backend s = ry_backend r" "ry_waits s = ry_waits r" for w h b s
    using that by (intro flow_then [OF flow_same flow_op]) simp_all
  show ?thesis unfolding on_response_def Inr x sum.case prod.case Let_def
    by (auto intro!: w simp: kick_idle_timer_def bump_err_def bump_ok_def)
qed

lemma flow_pump_bytes: "flow [] r (pump_bytes d b r)"
  by (simp add: pump_bytes_def flow_await flow_same)

lemma flow_bridge_mode: "flow [] r (bridge_mode r)"
  unfolding bridge_mode_def Let_def
  by (rule flow_then [OF flow_quiet(1) flow_then [OF flow_pump_bytes flow_pump_bytes]])

text \<open>The stream that comes with a result.\<close>

definition given :: "result \<Rightarrow> nat list" where
  "given res = (case res of R_connect (Inr (st, ep, fp)) \<Rightarrow> [st] | _ \<Rightarrow> [])"

lemma flow_handlers:
  "flow [] r (on_tunnel_established ec r)" "flow [] r (on_upgraded ec r)" "flow [] r (on_drained ec n r)"
  "flow [] r (on_pump_read d b ec n r)" "flow [] r (on_pump_written d b ec r)"
proof -
  have "flow [] r (bridge_mode (r\<lparr>ry_from_pool := False\<rparr>))"
    by (rule flow_then [OF flow_same flow_bridge_mode]) simp_all
  then show "flow [] r (on_tunnel_established ec r)" "flow [] r (on_upgraded ec r)"
    by (simp_all add: flow_teardown flow_bridge_mode)
  show "flow [] r (on_drained ec n r)"
    by (simp add: flow_teardown flow_then [OF flow_quiet(2) flow_drain])
  show "flow [] r (on_pump_read d b ec n r)"
    by (simp add: flow_teardown flow_then [OF flow_quiet(2) flow_await] flow_then [OF flow_quiet(2) flow_fault])
  show "flow [] r (on_pump_written d b ec r)"
    by (simp add: flow_teardown flow_then [OF flow_quiet(2) flow_pump_bytes])
qed

lemma flow_complete:
  assumes "fits w res"
  shows "flow (given res) r (complete w res r)"
  using assms
  by (cases "(w, res, r)" rule: complete.cases)
    (simp_all add: given_def flow_on_request flow_use_backend flow_on_tunnel_connect flow_on_request_written
      flow_on_reconnect flow_on_response flow_then [OF flow_finish_backend flow_after_client_response]
      flow_after_client_response flow_handlers del: on_tunnel_established_def on_upgraded_def on_drained_def
      on_pump_read_def on_pump_written_def)


section \<open>What the pool does with streams and requests\<close>

definition idle_streams :: "pool \<Rightarrow> nat multiset" where
  "idle_streams p = mset (concat (map ee_idle (pl_endpoints p)))"

definition reply_streams :: "nat \<Rightarrow> pool \<Rightarrow> nat multiset" where
  "reply_streams h p = mset (List.map_filter rp_stream (drop h (pl_log p)))"

definition pool_streams :: "nat \<Rightarrow> pool \<Rightarrow> nat multiset" where
  "pool_streams h p = idle_streams p + reply_streams h p"

text \<open>The callbacks that the pool has still to call or that are called and not yet heard.\<close>

definition pending :: "nat \<Rightarrow> pool \<Rightarrow> nat multiset" where
  "pending h p = mset (map rp_cb (drop h (pl_log p))) + mset (map snd (pl_tcp p))
     + mset (map (\<lambda>e. oq_cb (snd e)) (pl_open p))"

definition replies_ok :: "pool \<Rightarrow> bool" where
  "replies_ok p \<longleftrightarrow> (\<forall>rp \<in> set (pl_log p). rp_ec rp = None \<longrightarrow> rp_stream rp \<noteq> None)"

text \<open>\<open>extends q p\<close>: the pool went on from \<open>p\<close> to \<open>q\<close>, with sound replies.\<close>

definition extends :: "pool \<Rightarrow> pool \<Rightarrow> bool" where
  "extends q p \<longleftrightarrow> (\<exists>new. pl_log q = pl_log p @ new) \<and> (replies_ok p \<longrightarrow> replies_ok q)"

lemma callbacks_pending: "callbacks p = mset (map rp_cb (take h (pl_log p))) + pending h p"
proof -
  have "mset (map rp_cb (pl_log p)) = mset (map rp_cb (take h (pl_log p))) + mset (map rp_cb (drop h (pl_log p)))"
    by (metis append_take_drop_id map_append mset_append)
  then show ?thesis by (simp add: callbacks_def pending_def)
qed

lemma pending_from_callbacks:
  assumes "extends q p" "h \<le> length (pl_log p)" "callbacks q = callbacks p + M"
  shows "pending h q = pending h p + M"
proof -
  have "take h (pl_log q) = take h (pl_log p)" using assms(1,2) by (auto simp: extends_def)
  with assms(3) callbacks_pending [of p h] callbacks_pending [of q h] show ?thesis by (simp add: ac_simps)
qed

lemma extends_trans: "extends r q \<Longrightarrow> extends q p \<Longrightarrow> extends r p"
  by (auto simp: extends_def)

lemma extends_length: "extends q p \<Longrightarrow> h \<le> length (pl_log p) \<Longrightarrow> h \<le> length (pl_log q)"
  by (auto simp: extends_def)

lemma extends_same: "pl_log q = pl_log p \<Longrightarrow> extends q p"
  by (simp add: extends_def replies_ok_def)

lemma extends_fire: "(ec = None \<longrightarrow> st \<noteq> None) \<Longrightarrow> extends (fire cb ec st ep fp p) p"
  by (auto simp: extends_def replies_ok_def fire_def)

lemma pool_streams_fire:
  "h \<le> length (pl_log p) \<Longrightarrow> pool_streams h (fire cb ec st ep fp p) =
     pool_streams h p + (case st of None \<Rightarrow> {#} | Some x \<Rightarrow> {#x#})"
  by (auto simp: pool_streams_def idle_streams_def reply_streams_def fire_def map_filter_def split: option.splits)

lemma pool_streams_same:
  "pl_log q = pl_log p \<Longrightarrow> pl_endpoints q = pl_endpoints p \<Longrightarrow> pool_streams h q = pool_streams h p"
  by (simp add: pool_streams_def idle_streams_def reply_streams_def)

text \<open>Reaching the endpoints or the replies needs a stream: connecting over QUIC does neither.\<close>

lemma quic_connect_fresh_keeps:
  assumes "h \<le> length (pl_log p)"
  shows "extends (quic_connect_fresh env ep cb p) p \<and> pool_streams h (quic_connect_fresh env ep cb p) = pool_streams h p"
proof -
  let ?n = "p\<lparr>pl_pending := None\<rparr>"
  have n: "extends ?n p" "pool_streams h ?n = pool_streams h p" "h \<le> length (pl_log ?n)"
    using assms by (auto intro: extends_same pool_streams_same)
  have f: "extends (fire cb (Some e) None ep False q) q \<and> pool_streams h (fire cb (Some e) None ep False q) = pool_streams h q"
    if "h \<le> length (pl_log q)" for e q
    using that by (simp add: pool_streams_fire extends_fire)
  have o: "extends (open_quic_stream s ep False cb (?n\<lparr>pl_closed_cb := m\<rparr>)) p
      \<and> pool_streams h (open_quic_stream s ep False cb (?n\<lparr>pl_closed_cb := m\<rparr>)) = pool_streams h p" for s m
    by (auto simp: open_quic_stream_def intro!: extends_same pool_streams_same)
  show ?thesis
  proof (cases "pl_engine p")
    case True
    with o f [OF n(3)] n show ?thesis
      by (auto simp: quic_connect_fresh_def on_client_conn_def Let_def split: option.splits intro: extends_trans)
  qed (use f [OF assms] in \<open>simp add: quic_connect_fresh_def\<close>)
qed

lemma quic_connect_keeps:
  assumes "h \<le> length (pl_log p)"
  shows "extends (quic_connect env ep cb p) p \<and> pool_streams h (quic_connect env ep cb p) = pool_streams h p"
  using quic_connect_fresh_keeps [OF assms]
  by (auto simp: quic_connect_def open_quic_stream_def intro!: extends_same pool_streams_same
      split: option.splits list.splits)

lemma connect_fresh_to_keeps:
  "connect_fresh_to env ep cb p = Some q \<Longrightarrow> extends q p \<and> pool_streams h q = pool_streams h p"
  by (auto simp: connect_fresh_to_def intro!: extends_same pool_streams_same split: if_splits)

lemma idle_take:
  assumes "i < length es" "ee_idle (es ! i) = st # rest"
  shows "mset (concat (map ee_idle es)) = add_mset st (mset (concat (map ee_idle (es[i := (es ! i)\<lparr>ee_idle := rest\<rparr>]))))"
proof -
  from assms(1) have "es = take i es @ es ! i # drop (Suc i) es" by (simp add: id_take_nth_drop)
  then have "mset (concat (map ee_idle es)) = mset (concat (map ee_idle (take i es @ es ! i # drop (Suc i) es)))" by simp
  with assms show ?thesis by (simp add: upd_conv_take_nth_drop)
qed

lemma rr_pick_valid: "candidates bid p \<noteq> [] \<Longrightarrow> rr_pick bid p < length (pl_endpoints p)"
proof -
  assume "candidates bid p \<noteq> []"
  then have "rr_pick bid p \<in> set (candidates bid p)" by (simp add: rr_pick_def Let_def)
  then show ?thesis by (simp add: candidates_def)
qed

lemma async_connect_keeps:
  assumes "async_connect env bid cb p = Some q" "h \<le> length (pl_log p)"
  shows "extends q p \<and> pool_streams h q = pool_streams h p"
proof (cases "candidates bid p = []")
  case True
  with assms show ?thesis by (auto simp: async_connect_def pool_streams_fire extends_fire)
next
  case False
  let ?i = "rr_pick bid p" and ?p1 = "p\<lparr>pl_rr := pl_rr p + 1\<rparr>"
  let ?e = "pl_endpoints p ! ?i"
  have p1: "extends ?p1 p" "pool_streams h ?p1 = pool_streams h p" "h \<le> length (pl_log ?p1)"
    using assms(2) by (auto intro: extends_same pool_streams_same)
  have c: "(be_protocol (ee_be ?e) = QUIC \<and> q = quic_connect env (ee_be ?e) cb ?p1)
    \<or> (\<exists>st rest. ee_idle ?e = st # rest \<and> q = fire cb None (Some st) (ee_be ?e) True
          (?p1\<lparr>pl_endpoints := (pl_endpoints p)[?i := ?e\<lparr>ee_idle := rest\<rparr>]\<rparr>))
    \<or> connect_fresh_to env (ee_be ?e) cb ?p1 = Some q"
    using assms(1) False by (auto simp: async_connect_def entry_take_def Let_def split: if_splits list.splits)
  then consider (quic) "q = quic_connect env (ee_be ?e) cb ?p1"
    | (idle) st rest where "ee_idle ?e = st # rest" "q = fire cb None (Some st) (ee_be ?e) True
          (?p1\<lparr>pl_endpoints := (pl_endpoints p)[?i := ?e\<lparr>ee_idle := rest\<rparr>]\<rparr>)"
    | (fresh) "connect_fresh_to env (ee_be ?e) cb ?p1 = Some q" by blast
  then show ?thesis
  proof cases
    case quic
    with quic_connect_keeps [OF p1(3), of env "ee_be ?e" cb] p1(1,2) show ?thesis
      by (auto intro: extends_trans)
  next
    case idle
    with idle_take [OF rr_pick_valid [OF False] idle(1)] assms(2) show ?thesis
      by (auto simp: pool_streams_def idle_streams_def reply_streams_def fire_def map_filter_def extends_def replies_ok_def)
  next
    case fresh
    from connect_fresh_to_keeps [OF fresh, of h] p1(1,2) show ?thesis by (auto intro: extends_trans)
  qed
qed


lemma async_connect_fresh_keeps:
  assumes "async_connect_fresh env ep cb p = Some q" "h \<le> length (pl_log p)"
  shows "extends q p \<and> pool_streams h q = pool_streams h p"
  using assms connect_fresh_to_keeps [of env ep cb p q h] quic_connect_fresh_keeps [OF assms(2)]
  by (auto simp: async_connect_fresh_def split: if_splits)

lemma release_to_idle: "mset (concat (map ee_idle (release_to ep st es))) \<subseteq># add_mset st (mset (concat (map ee_idle es)))"
proof (induction es)
  case (Cons e es)
  then have "mset (ee_idle e) + mset (concat (map ee_idle (release_to ep st es)))
      \<subseteq># mset (ee_idle e) + add_mset st (mset (concat (map ee_idle es)))"
    by (simp only: subset_mset.add_le_cancel_left)
  then show ?case by (simp add: entry_put_def subset_mset.add_increasing)
qed simp

lemma release_keeps: "extends (release ep st p) p \<and> pool_streams h (release ep st p) \<subseteq># add_mset st (pool_streams h p)"
proof -
  have "idle_streams (release ep st p) \<subseteq># add_mset st (idle_streams p)"
    using release_to_idle [of ep st "pl_endpoints p"] by (simp add: release_def idle_streams_def)
  then have "idle_streams (release ep st p) + reply_streams h p \<subseteq># add_mset st (idle_streams p) + reply_streams h p"
    by (simp only: subset_mset.add_le_cancel_right)
  moreover have "reply_streams h (release ep st p) = reply_streams h p" by (simp add: release_def reply_streams_def)
  ultimately show ?thesis by (simp add: pool_streams_def extends_same release_def)
qed

lemma tcp_connected_keeps:
  assumes "h \<le> length (pl_log p)"
  shows "extends (tcp_connected req res p) p
    \<and> pool_streams h (tcp_connected req res p) = pool_streams h p + (case res of Inl e \<Rightarrow> {#} | Inr st \<Rightarrow> {#st#})"
proof -
  obtain ep cb where req: "req = (ep, cb)" by (cases req)
  let ?p = "p\<lparr>pl_tcp := remove1 req (pl_tcp p)\<rparr>"
  have p: "extends ?p p" "pool_streams h ?p = pool_streams h p" "h \<le> length (pl_log ?p)"
    using assms by (auto intro: extends_same pool_streams_same)
  have "extends (fire cb ec st ep False ?p) p" if "ec = None \<longrightarrow> st \<noteq> None" for ec st
    using extends_trans [OF extends_fire p(1)] that .
  with p pool_streams_fire [OF p(3)] show ?thesis
    by (auto simp: tcp_connected_def req split: sum.splits)
qed

lemma remove_quic_conn_keeps:
  "pl_log (remove_quic_conn ep s p) = pl_log p" "pl_endpoints (remove_quic_conn ep s p) = pl_endpoints p"
  by (simp_all add: remove_quic_conn_def Let_def split: option.splits)

lemma on_new_stream_keeps:
  assumes "h \<le> length (pl_log p)"
  shows "extends (on_new_stream env s st p) p
    \<and> pool_streams h (on_new_stream env s st p) \<subseteq># pool_streams h p + (case st of None \<Rightarrow> {#} | Some x \<Rightarrow> {#x#})"
proof (cases "map_of (pl_open p) s")
  case (Some oq)
  let ?q = "p\<lparr>pl_open := filter (\<lambda>e. fst e \<noteq> s) (pl_open p)\<rparr>" and ?ep = "oq_endpoint oq"
  let ?r = "remove_quic_conn ?ep s ?q"
  have r: "extends ?r p" "pool_streams h ?r = pool_streams h p" "h \<le> length (pl_log ?r)"
    using assms by (auto simp: remove_quic_conn_keeps intro: extends_same pool_streams_same)
  have u: "extends (?q\<lparr>pl_conns := m\<rparr>) p" "pool_streams h (?q\<lparr>pl_conns := m\<rparr>) = pool_streams h p"
    "h \<le> length (pl_log (?q\<lparr>pl_conns := m\<rparr>))" for m
    using assms by (auto intro: extends_same pool_streams_same)
  show ?thesis
  proof (cases st)
    case None
    have "extends (fire (oq_cb oq) (Some Eof) None ?ep False ?r) p"
      using extends_trans [OF extends_fire r(1)] by simp
    moreover have "extends (quic_connect env ?ep (oq_cb oq) ?r) p"
      using extends_trans quic_connect_keeps [OF r(3)] r(1) by blast
    ultimately show ?thesis
      using None Some r quic_connect_keeps [OF r(3), of env ?ep "oq_cb oq"] pool_streams_fire [OF r(3)]
      by (simp add: on_new_stream_def Let_def)
  next
    case (Some x)
    have "extends (fire (oq_cb oq) None st ?ep fp (?q\<lparr>pl_conns := m\<rparr>)) p" for fp m
      using extends_trans [OF extends_fire u(1)] Some by simp
    with Some \<open>map_of (pl_open p) s = Some oq\<close> pool_streams_fire [OF u(3)] u(2) show ?thesis
      by (simp add: on_new_stream_def Let_def)
  qed
qed (simp add: on_new_stream_def extends_same)

lemma session_closed_keeps: "extends (session_closed s p) p \<and> pool_streams h (session_closed s p) = pool_streams h p"
  by (auto simp: session_closed_def remove_quic_conn_keeps Let_def intro!: extends_same pool_streams_same
      split: option.splits)

text \<open>The actions of one handler: at most one of them asks for a connection.\<close>

lemma perform_keeps:
  assumes "perform env i a p = Some q" "h \<le> length (pl_log p)" "pool_inv p" "connects a \<longrightarrow> new_sessions env p"
  shows "extends q p \<and> pool_inv q \<and> pool_streams h q \<subseteq># pool_streams h p + mset (releases a)
    \<and> pending h q = pending h p + (if connects a then {#i#} else {#})"
proof (cases a)
  case (A_pool_connect bid)
  with assms have c: "async_connect env bid i p = Some q" "new_sessions env p" by (simp_all add: perform_def)
  from async_connect_keeps [OF c(1) assms(2)] have k: "extends q p" "pool_streams h q = pool_streams h p" by auto
  have "callbacks q = callbacks p + {#i#}"
    using callbacks_async_connect [OF assms(3) c(2,1)] by simp
  from pending_from_callbacks [OF k(1) assms(2) this] k A_pool_connect
    pool_inv_step [OF assms(3) step_connect [OF c(2,1)]] show ?thesis by simp
next
  case (A_pool_fresh ep)
  with assms have c: "async_connect_fresh env ep i p = Some q" "new_sessions env p" by (simp_all add: perform_def)
  from async_connect_fresh_keeps [OF c(1) assms(2)] have k: "extends q p" "pool_streams h q = pool_streams h p" by auto
  have "callbacks q = callbacks p + {#i#}"
    using callbacks_async_connect_fresh [OF assms(3) c(2,1)] by simp
  from pending_from_callbacks [OF k(1) assms(2) this] k A_pool_fresh
    pool_inv_step [OF assms(3) step_fresh [OF c(2,1)]] show ?thesis by simp
next
  case (A_pool_release ep st)
  with assms have q: "q = release ep st p" by (simp add: perform_def)
  have "callbacks q = callbacks p + {#}" by (simp add: q callbacks_release)
  with release_keeps [of ep st p h] pending_from_callbacks [OF _ assms(2) this] A_pool_release q
    pool_inv_release [OF assms(3)] show ?thesis by simp
qed (use assms in \<open>simp_all add: perform_def extends_same\<close>)


lemma perform_sessions: "perform env i a p = Some q \<Longrightarrow> \<not> connects a \<Longrightarrow> new_sessions env q = new_sessions env p"
proof -
  have "new_sessions env (release ep st p) = new_sessions env p" for ep st
    by (simp add: release_def new_sessions_def)
  then show "perform env i a p = Some q \<Longrightarrow> \<not> connects a \<Longrightarrow> new_sessions env q = new_sessions env p"
    by (cases a) (auto simp: perform_def)
qed

lemma perform_all_keeps:
  assumes "perform_all env i acts p = Some q" "h \<le> length (pl_log p)" "pool_inv p"
    and "length (filter connects acts) \<le> 1" "filter connects acts \<noteq> [] \<longrightarrow> new_sessions env p"
  shows "extends q p \<and> pool_inv q \<and> pool_streams h q \<subseteq># pool_streams h p + mset (concat (map releases acts))
    \<and> pending h q = pending h p + replicate_mset (length (filter connects acts)) i"
  using assms
proof (induction acts arbitrary: p)
  case (Cons a acts)
  then obtain p1 where p1: "perform env i a p = Some p1" "perform_all env i acts p1 = Some q"
    by (auto split: option.splits)
  have k: "extends p1 p" "pool_inv p1" "pool_streams h p1 \<subseteq># pool_streams h p + mset (releases a)"
    "pending h p1 = pending h p + (if connects a then {#i#} else {#})"
    using perform_keeps [OF p1(1) Cons.prems(2,3)] Cons.prems(5) by auto
  have "h \<le> length (pl_log p1)" by (rule extends_length [OF k(1) Cons.prems(2)])
  moreover have "length (filter connects acts) \<le> 1" "filter connects acts \<noteq> [] \<longrightarrow> new_sessions env p1"
    using Cons.prems(4,5) perform_sessions [OF p1(1)] by (auto split: if_splits)
  ultimately have q: "extends q p1" "pool_inv q"
    "pool_streams h q \<subseteq># pool_streams h p1 + mset (concat (map releases acts))"
    "pending h q = pending h p1 + replicate_mset (length (filter connects acts)) i"
    using Cons.IH [OF p1(2) _ k(2)] by auto
  have "pool_streams h q \<subseteq># pool_streams h p + mset (releases a) + mset (concat (map releases acts))"
    using q(3) k(3) by (meson subset_mset.add_le_cancel_right subset_mset.order_trans)
  with q k show ?case by (auto simp: ac_simps intro: extends_trans)
qed (simp add: extends_same)

section \<open>The invariant of the worker\<close>

definition relay_streams :: "(nat \<times> relay) list \<Rightarrow> nat multiset" where
  "relay_streams rs = mset (concat (map (\<lambda>x. held (snd x)) rs))"

text \<open>The owners of backend streams: the pool's idle queues, the replies on their way, the relays.\<close>

definition owned :: "worker \<Rightarrow> nat multiset" where
  "owned k = pool_streams (wk_heard k) (co_pool (wk_core k)) + relay_streams (co_relays (wk_core k))"

definition shut_streams :: "worker \<Rightarrow> nat set" where
  "shut_streams k = (\<Union>x \<in> set (co_relays (wk_core k)). \<Union>a \<in> set (ry_log (snd x)). set (shuts a))"

definition waiting :: "nat \<Rightarrow> core \<Rightarrow> nat" where
  "waiting i c = (case map_of (co_relays c) i of None \<Rightarrow> 0 | Some r \<Rightarrow> length (filter connecting (ry_waits r)))"

definition owners_ok :: "worker \<Rightarrow> bool" where
  "owners_ok k \<longleftrightarrow> (\<forall>st. count (owned k) st \<le> 1) \<and> (\<forall>st \<in># owned k. st < wk_next k)
     \<and> (\<forall>st \<in> shut_streams k. st < wk_next k \<and> st \<notin># owned k)"

definition worker_inv :: "worker \<Rightarrow> bool" where
  "worker_inv k \<longleftrightarrow> core_inv (wk_core k) \<and> pool_inv (co_pool (wk_core k)) \<and> replies_ok (co_pool (wk_core k))
     \<and> wk_heard k \<le> length (pl_log (co_pool (wk_core k)))
     \<and> (\<forall>i. count (pending (wk_heard k) (co_pool (wk_core k))) i = waiting i (wk_core k)) \<and> owners_ok k"

text \<open>Streams may be dropped, and one may be shut down, while the others keep their owner.\<close>

lemma owners_ok_mono:
  assumes "owners_ok k" "owned k' + mset sh \<subseteq># owned k" "shut_streams k' \<subseteq> shut_streams k \<union> set sh"
    and "wk_next k \<le> wk_next k'"
  shows "owners_ok k'"
proof -
  have le: "count (owned k') st + count (mset sh) st \<le> count (owned k) st" for st
    using assms(2) by (metis count_union subseteq_mset_def)
  have one: "count (owned k) st \<le> 1" for st using assms(1) by (simp add: owners_ok_def)
  have sub: "st \<in># owned k" if "st \<in># owned k'" for st
    using le [of st] that by (simp add: count_greater_zero_iff [symmetric] del: count_greater_zero_iff)
  have sh: "st \<in># owned k \<and> st \<notin># owned k'" if "st \<in> set sh" for st
  proof -
    have "0 < count (mset sh) st" using that by simp
    with le [of st] one [of st] have "count (owned k') st = 0" "0 < count (owned k) st" by linarith+
    then show ?thesis by (simp add: not_in_iff count_greater_zero_iff)
  qed
  have "count (owned k') st \<le> 1" for st using le [of st] one [of st] by linarith
  moreover have "st < wk_next k'" if "st \<in># owned k'" for st
    using sub [OF that] assms(1,4) by (auto simp: owners_ok_def dest!: bspec)
  moreover have "st < wk_next k' \<and> st \<notin># owned k'" if "st \<in> shut_streams k'" for st
    using that assms(1,3,4) sub sh by (fastforce simp: owners_ok_def)
  ultimately show ?thesis by (simp add: owners_ok_def)
qed

lemma relay_streams_update:
  assumes "distinct (map fst rs)" "map_of rs i = Some r"
  shows "relay_streams (update_relay i r' rs) + mset (held r) = relay_streams rs + mset (held r')"
  using assms
proof (induction rs)
  case (Cons x rs)
  show ?case
  proof (cases "fst x = i")
    case True
    with Cons.prems have "i \<notin> fst ` set rs" "snd x = r" by (cases x; simp)+
    then have "update_relay i r' rs = rs" by (force simp: update_relay_def intro: map_idI)
    with True \<open>snd x = r\<close> show ?thesis
      by (cases x) (simp add: relay_streams_def update_relay_def ac_simps)
  next
    case False
    with Cons.prems have "relay_streams (update_relay i r' rs) + mset (held r) = relay_streams rs + mset (held r')"
      by (intro Cons.IH) (cases x; simp)+
    with False show ?thesis by (cases x) (simp add: relay_streams_def update_relay_def ac_simps)
  qed
qed simp

lemma connecting_at_most_one:
  assumes "relay_inv r"
  shows "length (filter connecting (ry_waits r)) \<le> 1"
proof -
  have "one_chain (ry_waits r)" using assms by (simp add: relay_inv_def)
  moreover have "\<not> connecting w" if "pump w" for w using that by (cases w) auto
  ultimately show ?thesis unfolding one_chain_def
    by (auto split: list.splits intro: order_trans [OF length_filter_le])
qed


definition event_given :: "event \<Rightarrow> nat list" where
  "event_given e = (case e of E_complete w res \<Rightarrow> given res | _ \<Rightarrow> [])"

definition answers :: "event \<Rightarrow> nat" where
  "answers e = (case e of E_complete w res \<Rightarrow> if connecting w then 1 else 0 | _ \<Rightarrow> 0)"

lemma filter_remove1_length:
  "x \<in> set xs \<Longrightarrow> length (filter P (remove1 x xs)) + (if P x then 1 else 0) = length (filter P xs)"
  by (induction xs) auto

lemma event_flow:
  assumes "event_step e r = Some r'"
  obtains acts where "ry_log r' = ry_log r @ acts"
    and "mset (held r') + mset (concat (map releases acts)) + mset (concat (map shuts acts))
      \<subseteq># mset (held r) + mset (event_given e)"
    and "length (filter connecting (ry_waits r')) + answers e = length (filter connecting (ry_waits r)) + length (filter connects acts)"
proof -
  have t: "flow [] r (idle_timeout r)" unfolding idle_timeout_def
    by (rule flow_then [OF flow_same flow_teardown]) simp_all
  have "flow [] r (act A_client_shutdown (r\<lparr>ry_draining := True\<rparr>))"
    by (rule flow_then [OF flow_same flow_act]) simp_all
  moreover have "flow [] r (r\<lparr>ry_draining := True\<rparr>)" by (rule flow_same) simp_all
  ultimately have g: "flow [] r (graceful_close r)" by (simp add: graceful_close_def Let_def)
  show thesis
  proof (cases e)
    case (E_complete w res)
    with assms have w: "w \<in> set (ry_waits r)" "fits w res" "r' = finish_op w res r"
      by (auto simp: event_step_def split: if_splits)
    from flow_complete [OF w(2), of "r\<lparr>ry_waits := remove1 w (ry_waits r)\<rparr>"] obtain acts where
      "ry_log r' = ry_log r @ acts"
      "mset (held r') + mset (concat (map releases acts)) + mset (concat (map shuts acts))
        \<subseteq># mset (held r) + mset (given res)"
      "length (filter connecting (ry_waits r'))
        = length (filter connecting (remove1 w (ry_waits r))) + length (filter connects acts)"
      unfolding flow_def w(3) finish_op_def by (auto simp: held_def)
    with that [of acts] filter_remove1_length [OF w(1), of connecting] E_complete show thesis
      by (simp add: event_given_def answers_def)
  next
    case E_timeout
    with assms have "r' = idle_timeout r" by (auto simp: event_step_def split: if_splits)
    with t E_timeout that show thesis by (auto simp: flow_def event_given_def answers_def)
  next
    case E_graceful
    with assms have "r' = graceful_close r" by (auto simp: event_step_def split: if_splits)
    with g E_graceful that show thesis by (auto simp: flow_def event_given_def answers_def)
  qed
qed

lemma answers_one:
  "event_step e r = Some r' \<Longrightarrow> answers e \<le> length (filter connecting (ry_waits r))"
  by (cases e) (auto simp: answers_def event_step_def Suc_le_eq filter_empty_conv split: if_splits)

lemma relay_event_effect:
  assumes "relay_event env i e c = Some c'" "core_inv c" "pool_inv (co_pool c)" "new_sessions env (co_pool c)"
    and "h \<le> length (pl_log (co_pool c))"
  obtains r r' acts where "map_of (co_relays c) i = Some r" "co_relays c' = update_relay i r' (co_relays c)"
    and "event_step e r = Some r'" "core_inv c'" "ry_log r' = ry_log r @ acts"
    and "mset (held r') + mset (concat (map releases acts)) + mset (concat (map shuts acts))
      \<subseteq># mset (held r) + mset (event_given e)"
    and "length (filter connecting (ry_waits r')) + answers e = length (filter connecting (ry_waits r)) + length (filter connects acts)"
    and "extends (co_pool c') (co_pool c)" "pool_inv (co_pool c')"
    and "pool_streams h (co_pool c') \<subseteq># pool_streams h (co_pool c) + mset (concat (map releases acts))"
    and "pending h (co_pool c') = pending h (co_pool c) + replicate_mset (length (filter connects acts)) i"
proof -
  from assms(1) obtain r c1 r1 p where r: "map_of (co_relays c) i = Some r" "core_step (C_relay i e) c = Some c1"
      "map_of (co_relays c1) i = Some r1" "perform_all env i (drop (length (ry_log r)) (ry_log r1)) (co_pool c1) = Some p"
      "c' = c1\<lparr>co_pool := p\<rparr>"
    by (auto simp: relay_event_def split: option.splits)
  from r(1,2) obtain r' where r': "event_step e r = Some r'" "c1 = c\<lparr>co_relays := update_relay i r' (co_relays c)\<rparr>"
    by (auto simp: core_step_def split: if_splits option.splits)
  with r(1,3) have [simp]: "r1 = r'" by (simp add: update_relay_lookup)
  obtain acts where acts: "ry_log r' = ry_log r @ acts"
      "mset (held r') + mset (concat (map releases acts)) + mset (concat (map shuts acts))
        \<subseteq># mset (held r) + mset (event_given e)"
      "length (filter connecting (ry_waits r')) + answers e = length (filter connecting (ry_waits r)) + length (filter connects acts)"
    using event_flow [OF r'(1)] .
  have inv: "core_inv c1" by (rule core_inv_step [OF r(2) assms(2)])
  have "relay_inv r" using assms(2) r(1)
    by (auto simp: core_inv_def dest!: map_of_SomeD intro: relay_sys.reachable_inv)
  moreover have "relay_inv r'" using inv r(3)
    by (auto simp: core_inv_def dest!: map_of_SomeD intro: relay_sys.reachable_inv)
  ultimately have "length (filter connects acts) \<le> 1"
    using acts(3) connecting_at_most_one [of r'] connecting_at_most_one [of r] answers_one [OF r'(1)] by linarith
  from perform_all_keeps [of env i acts "co_pool c" p h, OF _ assms(5,3) this] assms(4) r(4,5) acts(1) r'(2)
  have "extends p (co_pool c)" "pool_inv p" "pool_streams h p \<subseteq># pool_streams h (co_pool c) + mset (concat (map releases acts))"
    "pending h p = pending h (co_pool c) + replicate_mset (length (filter connects acts)) i" by auto
  moreover have "core_inv c'" using inv r(5) by (simp add: core_inv_def)
  ultimately show thesis using that r r' acts by simp
qed


lemma waiting_update:
  "map_of (co_relays c) i = Some r \<Longrightarrow> co_relays c' = update_relay i r' (co_relays c)
    \<Longrightarrow> waiting j c' = (if j = i then length (filter connecting (ry_waits r')) else waiting j c)"
  by (simp add: waiting_def update_relay_lookup)

lemma shut_streams_update:
  assumes "map_of (co_relays (wk_core k)) i = Some r" "co_relays (wk_core k') = update_relay i r' (co_relays (wk_core k))"
    and "ry_log r' = ry_log r @ acts"
  shows "shut_streams k' \<subseteq> shut_streams k \<union> set (concat (map shuts acts))"
proof
  fix st assume "st \<in> shut_streams k'"
  then obtain x a where x: "x \<in> set (update_relay i r' (co_relays (wk_core k)))" "a \<in> set (ry_log (snd x))" "st \<in> set (shuts a)"
    using assms(2) by (auto simp: shut_streams_def)
  have old: "st \<in> shut_streams k" if "y \<in> set (co_relays (wk_core k))" "a \<in> set (ry_log (snd y))" for y
    using that x(3) by (auto simp: shut_streams_def)
  show "st \<in> shut_streams k \<union> set (concat (map shuts acts))"
  proof (cases "x \<in> set (co_relays (wk_core k))")
    case False
    with update_relay_set [OF x(1)] x(2) assms(3) have "a \<in> set (ry_log r) \<or> a \<in> set acts" by auto
    with old [OF map_of_SomeD [OF assms(1)]] x(3) show ?thesis by auto
  qed (use old x(2) in blast)
qed

lemma worker_inv_relay:
  assumes inv: "worker_inv k" and ev: "relay_event env i e (wk_core k) = Some c'"
    and ns: "new_sessions env (co_pool (wk_core k))" and h': "h' \<le> length (pl_log (co_pool (wk_core k)))"
    and ps: "pool_streams h' (co_pool (wk_core k)) + mset (event_given e) \<subseteq># pool_streams (wk_heard k) (co_pool (wk_core k))"
    and pd: "pending (wk_heard k) (co_pool (wk_core k)) = pending h' (co_pool (wk_core k)) + replicate_mset (answers e) i"
  shows "worker_inv (k\<lparr>wk_core := c', wk_heard := h'\<rparr>)"
proof -
  let ?c = "wk_core k" and ?p = "co_pool (wk_core k)" and ?k = "k\<lparr>wk_core := c', wk_heard := h'\<rparr>"
  have ci: "core_inv ?c" and pi: "pool_inv ?p" using inv by (simp_all add: worker_inv_def)
  obtain r r' acts where r: "map_of (co_relays ?c) i = Some r" "co_relays c' = update_relay i r' (co_relays ?c)"
    "event_step e r = Some r'" "core_inv c'" "ry_log r' = ry_log r @ acts"
    and fl: "mset (held r') + mset (concat (map releases acts)) + mset (concat (map shuts acts))
      \<subseteq># mset (held r) + mset (event_given e)"
    and cw: "length (filter connecting (ry_waits r')) + answers e = length (filter connecting (ry_waits r)) + length (filter connects acts)"
    and q: "extends (co_pool c') ?p" "pool_inv (co_pool c')"
      "pool_streams h' (co_pool c') \<subseteq># pool_streams h' ?p + mset (concat (map releases acts))"
      "pending h' (co_pool c') = pending h' ?p + replicate_mset (length (filter connects acts)) i"
    using relay_event_effect [OF ev ci pi ns h'] .
  have rs: "relay_streams (co_relays c') + mset (held r) = relay_streams (co_relays ?c) + mset (held r')"
    using relay_streams_update [OF _ r(1), of r'] ci by (simp add: r(2) core_inv_def)
  have "count (pending h' (co_pool c')) j = waiting j c'" for j
  proof -
    have "count (pending (wk_heard k) ?p) j = waiting j ?c" using inv by (simp add: worker_inv_def)
    then have "count (pending h' ?p) j + (if j = i then answers e else 0) = waiting j ?c"
      unfolding pd by (simp split: if_splits)
    moreover have "waiting i ?c = length (filter connecting (ry_waits r))" using r(1) by (simp add: waiting_def)
    ultimately show ?thesis using cw waiting_update [OF r(1,2), of j] unfolding q(4) by (cases "j = i") simp_all
  qed
  moreover have "owned ?k + mset (concat (map shuts acts)) \<subseteq># owned k"
    unfolding subseteq_mset_def
  proof
    fix st
    have "count (pool_streams h' (co_pool c')) st \<le> count (pool_streams h' ?p) st + count (mset (concat (map releases acts))) st"
      using mset_subset_eq_count [OF q(3), of st] by simp
    moreover have "count (mset (held r')) st + count (mset (concat (map releases acts))) st + count (mset (concat (map shuts acts))) st
        \<le> count (mset (held r)) st + count (mset (event_given e)) st"
      using mset_subset_eq_count [OF fl, of st] by simp
    moreover have "count (relay_streams (co_relays c')) st + count (mset (held r)) st
        = count (relay_streams (co_relays ?c)) st + count (mset (held r')) st"
      using arg_cong [OF rs, of "\<lambda>m. count m st"] by simp
    ultimately show "count (owned ?k + mset (concat (map shuts acts))) st \<le> count (owned k) st"
      using mset_subset_eq_count [OF ps, of st] by (simp add: owned_def)
  qed
  then have "owners_ok ?k"
  proof (rule owners_ok_mono [rotated])
    show "owners_ok k" using inv by (simp add: worker_inv_def)
    show "shut_streams ?k \<subseteq> shut_streams k \<union> set (concat (map shuts acts))"
      by (rule shut_streams_update [OF r(1) _ r(5)]) (simp add: r(2))
  qed simp
  moreover have "replies_ok (co_pool c')" "h' \<le> length (pl_log (co_pool c'))"
    using inv q(1) extends_length [OF q(1) h'] by (simp_all add: worker_inv_def extends_def)
  ultimately show ?thesis using r(4) q(2) by (simp add: worker_inv_def)
qed

lemma worker_inv_core:
  assumes "worker_inv k" "core_inv c'" "co_pool c' = co_pool (wk_core k)" "\<And>i. waiting i c' = waiting i (wk_core k)"
    and "relay_streams (co_relays c') \<subseteq># relay_streams (co_relays (wk_core k))"
    and "shut_streams (k\<lparr>wk_core := c'\<rparr>) \<subseteq> shut_streams k"
  shows "worker_inv (k\<lparr>wk_core := c'\<rparr>)"
proof -
  have "owners_ok (k\<lparr>wk_core := c'\<rparr>)"
  proof (rule owners_ok_mono)
    show "owners_ok k" using assms(1) by (simp add: worker_inv_def)
    show "owned (k\<lparr>wk_core := c'\<rparr>) + mset [] \<subseteq># owned k" using assms(3,5) by (simp add: owned_def)
  qed (use assms(6) in simp_all)
  with assms(1-4) show ?thesis by (simp add: worker_inv_def)
qed

text \<open>What happens to the pool alone: a stream that comes into being gets the next number.\<close>

lemma worker_inv_pool:
  assumes inv: "worker_inv k" and q: "extends (f (co_pool (wk_core k))) (co_pool (wk_core k))" "pool_inv (f (co_pool (wk_core k)))"
    and cb: "callbacks (f (co_pool (wk_core k))) = callbacks (co_pool (wk_core k))"
    and st: "pool_streams (wk_heard k) (f (co_pool (wk_core k)))
      \<subseteq># pool_streams (wk_heard k) (co_pool (wk_core k)) + (if n = wk_next k then {#} else {#wk_next k#})"
    and n: "n = wk_next k \<or> n = wk_next k + 1"
  shows "worker_inv ((on_pool f k)\<lparr>wk_next := n\<rparr>)"
proof -
  let ?k = "(on_pool f k)\<lparr>wk_next := n\<rparr>" and ?p = "co_pool (wk_core k)"
  have h: "wk_heard k \<le> length (pl_log ?p)" using inv by (simp add: worker_inv_def)
  have own: "owned ?k \<subseteq># owned k + (if n = wk_next k then {#} else {#wk_next k#})"
    using st by (auto simp: owned_def on_pool_def)
  have ok: "owners_ok k" using inv by (simp add: worker_inv_def)
  have new: "wk_next k \<notin># owned k" "wk_next k \<notin> shut_streams k" using ok by (auto simp: owners_ok_def)
  have cnt: "count (owned ?k) x \<le> count (owned k) x + (if n = wk_next k then 0 else of_bool (x = wk_next k))" for x
    using mset_subset_eq_count [OF own, of x] by (cases "x = wk_next k") (simp_all split: if_splits)
  have "count (owned ?k) x \<le> 1" for x
  proof (cases "x = wk_next k")
    case True
    with cnt [of x] new(1) show ?thesis by (simp add: not_in_iff split: if_splits)
  next
    case False
    moreover have "count (owned k) x \<le> 1" using ok by (simp add: owners_ok_def)
    ultimately show ?thesis using cnt [of x] by (simp split: if_splits)
  qed
  moreover have mem: "x \<in># owned k \<or> x = wk_next k \<and> n \<noteq> wk_next k" if "x \<in># owned ?k" for x
    using mset_subset_eqD [OF own that] by (auto split: if_splits)
  moreover have "shut_streams ?k = shut_streams k" by (simp add: shut_streams_def on_pool_def)
  moreover have "x < wk_next ?k" if "x \<in># owned ?k" for x
    using mem [OF that] ok n by (auto simp: owners_ok_def dest!: bspec [of _ _ x])
  moreover have "x < wk_next ?k \<and> x \<notin># owned ?k" if "x \<in> shut_streams k" for x
  proof -
    from ok that have "x < wk_next k" "x \<notin># owned k" by (auto simp: owners_ok_def)
    with mem [of x] n show ?thesis by auto
  qed
  ultimately have "owners_ok ?k" by (simp add: owners_ok_def)
  moreover have "pending (wk_heard k) (f ?p) = pending (wk_heard k) ?p"
    using pending_from_callbacks [OF q(1) h, of "{#}"] cb by simp
  ultimately show ?thesis
    using inv q extends_length [OF q(1) h]
    by (auto simp: worker_inv_def on_pool_def core_inv_def waiting_def extends_def)
qed


lemma fresh_relay_idle:
  "held (fresh_relay h1 c) = []" "ry_log (fresh_relay h1 c) = []" "filter connecting (ry_waits (fresh_relay h1 c)) = []"
  by (simp_all add: fresh_relay_def start_relay_def request_phase_def new_relay_def held_def await_def relay_parts)

lemma worker_inv_new_relay:
  assumes inv: "worker_inv k" and c': "core_inv c'" "co_pool c' = co_pool (wk_core k)"
    and rs: "co_relays c' = co_relays (wk_core k) @ [(co_next (wk_core k), fresh_relay h1 (wk_core k))]"
  shows "worker_inv (k\<lparr>wk_core := c'\<rparr>)"
proof (rule worker_inv_core [OF inv c'])
  have "map_of (co_relays (wk_core k)) (co_next (wk_core k)) = None"
    using inv by (auto simp: worker_inv_def core_inv_def map_of_eq_None_iff)
  then show "waiting i c' = waiting i (wk_core k)" for i
    by (auto simp: waiting_def rs map_add_def fresh_relay_idle split: option.splits)
  show "relay_streams (co_relays c') \<subseteq># relay_streams (co_relays (wk_core k))"
    by (simp add: rs relay_streams_def fresh_relay_idle)
  show "shut_streams (k\<lparr>wk_core := c'\<rparr>) \<subseteq> shut_streams k"
    by (auto simp: shut_streams_def rs fresh_relay_idle)
qed

lemma graceful_close_frame:
  "held (graceful_close r) = held r" "ry_waits (graceful_close r) = ry_waits r"
  "a \<in> set (ry_log (graceful_close r)) \<Longrightarrow> a \<in> set (ry_log r) \<or> a = A_client_shutdown"
  by (auto simp: graceful_close_def held_def act_def Let_def split: if_splits)

lemma shutdown_lookup:
  assumes "distinct (map fst rs)"
  shows "map_of (map (\<lambda>(i, r). (i, graceful_close r)) (filter (\<lambda>(i, r). \<not> expired r) rs)) i =
    (case map_of rs i of None \<Rightarrow> None | Some r \<Rightarrow> if expired r then None else Some (graceful_close r))"
  using assms
proof (induction rs)
  case (Cons x rs)
  obtain j r where x: "x = (j, r)" by (cases x)
  show ?case
  proof (cases "j = i")
    case True
    with Cons x have "map_of rs i = None" by (simp add: map_of_eq_None_iff)
    with True Cons x show ?thesis by simp
  qed (use Cons x in simp)
qed simp

lemma shutdown_streams:
  "relay_streams (map (\<lambda>(i, r). (i, graceful_close r)) (filter (\<lambda>(i, r). \<not> expired r) rs)) \<subseteq># relay_streams rs"
proof (induction rs)
  case (Cons x rs)
  obtain j r where x: "x = (j, r)" by (cases x)
  have r: "relay_streams ((j, r') # rs') = mset (held r') + relay_streams rs'" for r' rs'
    by (simp add: relay_streams_def)
  show ?case using Cons by (simp add: x r graceful_close_frame subset_mset.add_increasing)
qed simp

lemma worker_inv_shutdown:
  assumes inv: "worker_inv k" and nc: "\<not> crashed (wk_core k)"
  shows "worker_inv (k\<lparr>wk_core := core_graceful_shutdown (wk_core k)\<rparr>)"
proof (rule worker_inv_core [OF inv])
  let ?rs = "co_relays (wk_core k)" and ?c = "core_graceful_shutdown (wk_core k)"
  have rs: "co_relays ?c = map (\<lambda>(i, r). (i, graceful_close r)) (filter (\<lambda>(i, r). \<not> expired r) ?rs)"
    by (simp add: core_graceful_shutdown_def)
  have d: "distinct (map fst ?rs)" using inv by (simp add: worker_inv_def core_inv_def)
  show "core_inv ?c"
    by (rule core_inv_step [of C_shutdown "wk_core k"]) (use inv nc in \<open>simp_all add: core_step_def worker_inv_def\<close>)
  show "co_pool ?c = co_pool (wk_core k)" by (simp add: core_graceful_shutdown_def)
  show "waiting i ?c = waiting i (wk_core k)" for i
    unfolding waiting_def rs shutdown_lookup [OF d]
    by (cases "map_of ?rs i") (simp_all add: graceful_close_frame expired_def)
  show "relay_streams (co_relays ?c) \<subseteq># relay_streams ?rs" unfolding rs by (rule shutdown_streams)
  show "shut_streams (k\<lparr>wk_core := ?c\<rparr>) \<subseteq> shut_streams k"
  proof
    fix st assume "st \<in> shut_streams (k\<lparr>wk_core := ?c\<rparr>)"
    then obtain x a where x: "x \<in> set (co_relays ?c)" "a \<in> set (ry_log (snd x))" "st \<in> set (shuts a)"
      by (auto simp: shut_streams_def)
    from x(1) obtain i r where r: "(i, r) \<in> set ?rs" "x = (i, graceful_close r)" unfolding rs by auto
    with x graceful_close_frame(3) [of a r] have "a \<in> set (ry_log r)" by auto
    with r(1) x(3) show "st \<in> shut_streams k" unfolding shut_streams_def by force
  qed
qed


lemma hear_reply_inv:
  assumes inv: "worker_inv k" and ns: "new_sessions env (co_pool (wk_core k))" and k': "hear_reply env k = Some k'"
  shows "worker_inv k'"
proof -
  let ?p = "co_pool (wk_core k)" and ?h = "wk_heard k"
  from k' obtain r res w c' where len: "?h < length (pl_log ?p)"
    and r: "map_of (co_relays (wk_core k)) (rp_cb (pl_log ?p ! ?h)) = Some r" "reply_result (pl_log ?p ! ?h) = Some res"
      "find connecting (ry_waits r) = Some w"
    and c': "relay_event env (rp_cb (pl_log ?p ! ?h)) (E_complete w (R_connect res)) (wk_core k) = Some c'"
      "k' = k\<lparr>wk_core := c', wk_heard := Suc ?h\<rparr>"
    by (auto simp: hear_reply_def Let_def split: if_splits option.splits)
  let ?rp = "pl_log ?p ! ?h"
  have w: "connecting w" using r(3) by (auto simp: find_Some_iff)
  have d: "drop ?h (pl_log ?p) = ?rp # drop (Suc ?h) (pl_log ?p)" using len by (simp add: Cons_nth_drop_Suc)
  have "pool_streams ?h ?p \<supseteq># pool_streams (Suc ?h) ?p + mset (given (R_connect res))"
    using r(2) by (auto simp: pool_streams_def reply_streams_def d map_filter_def reply_result_def given_def split: option.splits)
  moreover have "pending ?h ?p = pending (Suc ?h) ?p + {#rp_cb ?rp#}" by (simp add: pending_def d)
  ultimately show ?thesis
    using worker_inv_relay [OF inv c'(1) ns, of "Suc ?h"] len w by (simp add: c'(2) event_given_def answers_def)
qed


lemma worker_inv_pool_same:
  assumes "worker_inv k" "extends (f (co_pool (wk_core k))) (co_pool (wk_core k))" "pool_inv (f (co_pool (wk_core k)))"
    and "callbacks (f (co_pool (wk_core k))) = callbacks (co_pool (wk_core k))"
    and "pool_streams (wk_heard k) (f (co_pool (wk_core k))) \<subseteq># pool_streams (wk_heard k) (co_pool (wk_core k))"
  shows "worker_inv (on_pool f k)"
proof -
  have "worker_inv ((on_pool f k)\<lparr>wk_next := wk_next k\<rparr>)"
    using assms by (intro worker_inv_pool) simp_all
  then show ?thesis by (simp add: on_pool_def)
qed

lemma worker_inv_tcp:
  assumes inv: "worker_inv k" and req: "req \<in> set (pl_tcp (co_pool (wk_core k)))"
  shows "worker_inv (on_pool (tcp_connected req (Inl e)) k)"
    and "worker_inv ((on_pool (tcp_connected req (Inr (wk_next k))) k)\<lparr>wk_next := wk_next k + 1\<rparr>)"
proof -
  have pi: "pool_inv (co_pool (wk_core k))" and h: "wk_heard k \<le> length (pl_log (co_pool (wk_core k)))"
    using inv by (simp_all add: worker_inv_def)
  note t = tcp_connected_keeps [OF h, of req] callbacks_tcp_connected [OF req] pool_inv_step [OF pi step_tcp [OF req]]
  from t [of "Inl e"] show "worker_inv (on_pool (tcp_connected req (Inl e)) k)"
    by (intro worker_inv_pool_same [OF inv]) simp_all
  from t [of "Inr (wk_next k)"]
  show "worker_inv ((on_pool (tcp_connected req (Inr (wk_next k))) k)\<lparr>wk_next := wk_next k + 1\<rparr>)"
    by (intro worker_inv_pool [OF inv]) simp_all
qed

lemma worker_inv_stream:
  assumes inv: "worker_inv k" and ns: "new_sessions env (co_pool (wk_core k))" and s: "s \<notin> set (pl_dead (co_pool (wk_core k)))"
  shows "worker_inv (on_pool (on_new_stream env s None) k)"
    and "worker_inv ((on_pool (on_new_stream env s (Some (wk_next k))) k)\<lparr>wk_next := wk_next k + 1\<rparr>)"
proof -
  have pi: "pool_inv (co_pool (wk_core k))" and h: "wk_heard k \<le> length (pl_log (co_pool (wk_core k)))"
    using inv by (simp_all add: worker_inv_def)
  note t = on_new_stream_keeps [OF h, of env s] callbacks_on_new_stream [OF pi ns, of s]
    pool_inv_step [OF pi step_stream [OF ns s]]
  from t [of None] show "worker_inv (on_pool (on_new_stream env s None) k)"
    by (intro worker_inv_pool_same [OF inv]) simp_all
  from t [of "Some (wk_next k)"]
  show "worker_inv ((on_pool (on_new_stream env s (Some (wk_next k))) k)\<lparr>wk_next := wk_next k + 1\<rparr>)"
    by (intro worker_inv_pool [OF inv]) simp_all
qed

lemma worker_inv_closed:
  assumes inv: "worker_inv k" and s: "s \<notin> set (pl_dead (co_pool (wk_core k)))"
  shows "worker_inv (on_pool (session_closed s) k)"
  using session_closed_keeps [of s "co_pool (wk_core k)" "wk_heard k"] callbacks_session_closed [of s "co_pool (wk_core k)"]
    pool_inv_step [OF _ step_closed [OF s]] inv
  by (intro worker_inv_pool_same) (simp_all add: worker_inv_def)

lemma worker_inv_core_event:
  assumes inv: "worker_inv k" and e: "e \<in> {C_tcp fd, C_quic_session s, C_quic_stream}" and k': "core_event e k = Some k'"
  shows "worker_inv k'"
proof -
  let ?c = "wk_core k"
  from k' obtain c' where c': "core_step e ?c = Some c'" "k' = k\<lparr>wk_core := c'\<rparr>" by (auto simp: core_event_def)
  have "core_inv c'" using core_inv_step [OF c'(1)] inv by (simp add: worker_inv_def)
  moreover have "co_pool c' = co_pool ?c
    \<and> (co_relays c' = co_relays ?c \<or> (\<exists>h1. co_relays c' = co_relays ?c @ [(co_next ?c, fresh_relay h1 ?c)]))"
    using c'(1) e
    by (auto simp: core_step_def on_new_tcp_socket_def on_session_def tcp_set_new_stream_cb_def on_quic_session_def
        on_quic_stream_def on_stream_def fresh_relay_def Let_def split: if_splits; blast)
  moreover have "worker_inv (k\<lparr>wk_core := c'\<rparr>)" if "core_inv c'" "co_pool c' = co_pool ?c" "co_relays c' = co_relays ?c"
    using that by (intro worker_inv_core [OF inv]) (simp_all add: waiting_def shut_streams_def)
  ultimately show ?thesis using worker_inv_new_relay [OF inv] c'(2) by blast
qed

lemma worker_inv_relay_event:
  assumes inv: "worker_inv k" and ns: "new_sessions env (co_pool (wk_core k))"
    and e: "\<nexists>w res. e = E_complete w (R_connect res)" and c': "relay_event env i e (wk_core k) = Some c'"
  shows "worker_inv (k\<lparr>wk_core := c'\<rparr>)"
proof -
  have "answers e = 0 \<and> event_given e = []"
  proof (cases e)
    case (E_complete w res)
    with c' have "fits w res"
      by (auto simp: relay_event_def core_step_def event_step_def split: option.splits if_splits)
    with E_complete e show ?thesis
      by (cases w; cases res) (auto simp: answers_def event_given_def given_def)
  qed (simp_all add: answers_def event_given_def)
  moreover have "wk_heard k \<le> length (pl_log (co_pool (wk_core k)))" using inv by (simp add: worker_inv_def)
  ultimately show ?thesis using worker_inv_relay [OF inv c' ns, of "wk_heard k"] by simp
qed

lemma worker_inv_step:
  assumes inv: "worker_inv k" and "worker_step k k'"
  shows "worker_inv k'"
proof -
  from assms(2) obtain env ev where ns: "new_sessions env (co_pool (wk_core k))" and ex: "worker_exec env ev k = Some k'"
    by (auto elim: worker_step.cases)
  have nc: "\<not> crashed (wk_core k)" using ex by (auto simp: worker_exec_def Let_def)
  note ex = ex [unfolded worker_exec_def Let_def if_not_P [OF nc]]
  show ?thesis
  proof (cases ev)
    case (K_relay i e)
    with ex obtain c' where "relay_event env i e (wk_core k) = Some c'" "k' = k\<lparr>wk_core := c'\<rparr>"
      "\<nexists>w res. e = E_complete w (R_connect res)"
      by (auto split: event.splits result.splits)
    with worker_inv_relay_event [OF inv ns] show ?thesis by blast
  next
    case K_shutdown
    with ex nc have "k' = k\<lparr>wk_core := core_graceful_shutdown (wk_core k)\<rparr>"
      by (auto simp: core_event_def core_step_def)
    with worker_inv_shutdown [OF inv nc] show ?thesis by simp
  next
    case (K_stream s ok)
    with ex worker_inv_stream [OF inv ns, of s] show ?thesis by (auto split: if_splits)
  next
    case (K_tcp req err)
    with ex worker_inv_tcp [OF inv, of req] show ?thesis by (auto split: if_splits option.splits)
  qed (use ex in \<open>auto split: if_splits intro: worker_inv_core_event [OF inv] hear_reply_inv [OF inv ns] worker_inv_closed [OF inv]\<close>)
qed


lemma fold_add_backend:
  assumes "pool_inv p" "pl_log p = []" "pl_tcp p = []" "pl_open p = []" "idle_streams p = {#}"
  shows "pool_inv (fold add_backend bs p) \<and> pl_log (fold add_backend bs p) = [] \<and> pl_tcp (fold add_backend bs p) = []
    \<and> pl_open (fold add_backend bs p) = [] \<and> idle_streams (fold add_backend bs p) = {#}"
  using assms
proof (induction bs arbitrary: p)
  case (Cons b bs)
  have "idle_streams (add_backend b p) = {#}" "pl_log (add_backend b p) = []" "pl_tcp (add_backend b p) = []"
    "pl_open (add_backend b p) = []"
    using Cons.prems by (simp_all add: idle_streams_def add_backend_def)
  with Cons.IH [OF pool_inv_add_backend [OF Cons.prems(1)]] show ?case by simp
qed simp

lemma worker_inv_new: "worker_inv (new_worker cfg)"
proof -
  have "pool_inv (fold add_backend (cf_backends cfg) new_pool)" "pl_log (fold add_backend (cf_backends cfg) new_pool) = []"
    "pl_tcp (fold add_backend (cf_backends cfg) new_pool) = []" "pl_open (fold add_backend (cf_backends cfg) new_pool) = []"
    "idle_streams (fold add_backend (cf_backends cfg) new_pool) = {#}"
    using fold_add_backend [OF pool_inv_new] by (simp_all add: new_pool_def idle_streams_def)
  then show ?thesis
    using core_inv_new [of cfg]
    by (simp add: worker_inv_def new_worker_def new_core_def replies_ok_def pending_def waiting_def owners_ok_def owned_def
        pool_streams_def reply_streams_def relay_streams_def shut_streams_def map_filter_def)
qed

interpretation worker_sys: step_system worker_init worker_step worker_inv
  by unfold_locales (auto simp: worker_init_def worker_inv_new intro: worker_inv_step)

text \<open>A handler that a connection was handed to does not ask for another one.\<close>

lemma answered_no_connect:
  assumes "connecting w" "fits w res"
  shows "filter connecting (ry_waits (complete w res r)) = filter connecting (ry_waits r)"
proof -
  have e: "filter connecting (ry_waits (write_error st msg r)) = filter connecting (ry_waits r)" for st msg
    by (simp add: write_error_def await_def act_def bump_err_def)
  have s: "filter connecting (ry_waits (send_backend_request b r)) = filter connecting (ry_waits r)" for b r
    by (simp add: send_backend_request_def await_def act_def split: option.splits)
  show ?thesis
    using assms
    by (cases w; cases res)
      (auto simp: use_backend_def on_tunnel_connect_def on_reconnect_def start_tunnel_def e s await_def act_def
        kick_idle_timer_def bump_connects_def Let_def split: sum.splits)
qed

lemma perform_all_no_connect: "filter connects acts = [] \<Longrightarrow> perform_all env i acts p \<noteq> None"
proof (induction acts arbitrary: p)
  case (Cons a acts)
  then show ?case by (cases a) (auto simp: perform_def)
qed simp

lemma hear_reply_enabled:
  assumes inv: "worker_inv k" and nc: "\<not> crashed (wk_core k)" and len: "wk_heard k < length (pl_log (co_pool (wk_core k)))"
  shows "hear_reply env k \<noteq> None"
proof -
  let ?p = "co_pool (wk_core k)" and ?c = "wk_core k"
  let ?rp = "pl_log ?p ! wk_heard k"
  have "rp_cb ?rp \<in># pending (wk_heard k) ?p"
    using len by (simp add: pending_def Cons_nth_drop_Suc [symmetric])
  then have "0 < waiting (rp_cb ?rp) ?c" using inv by (simp add: worker_inv_def count_greater_zero_iff [symmetric] del: count_greater_zero_iff)
  then obtain r where r: "map_of (co_relays ?c) (rp_cb ?rp) = Some r" "filter connecting (ry_waits r) \<noteq> []"
    by (auto simp: waiting_def split: option.splits)
  then obtain w where w: "find connecting (ry_waits r) = Some w" "connecting w" "w \<in> set (ry_waits r)"
    by (cases "find connecting (ry_waits r)") (auto simp: find_None_iff find_Some_iff filter_empty_conv)
  have "replies_ok ?p" using inv by (simp add: worker_inv_def)
  then obtain res where res: "reply_result ?rp = Some res"
    using len by (fastforce simp: replies_ok_def reply_result_def split: option.splits)
  have "\<not> ry_fault r" using nc map_of_SomeD [OF r(1)] by (force simp: crashed_def)
  moreover have f: "fits w (R_connect res)" using w(2) by (cases w) auto
  ultimately have st: "event_step (E_complete w (R_connect res)) r = Some (finish_op w (R_connect res) r)"
    using w(3) by (simp add: event_step_def)
  obtain acts where acts: "ry_log (finish_op w (R_connect res) r) = ry_log r @ acts"
    "length (filter connecting (ry_waits (finish_op w (R_connect res) r))) + answers (E_complete w (R_connect res))
       = length (filter connecting (ry_waits r)) + length (filter connects acts)"
    using event_flow [OF st] by metis
  have "filter connects acts = []"
    using acts(2) answered_no_connect [OF w(2) f] filter_remove1_length [OF w(3), of connecting] w(2)
    by (simp add: finish_op_def answers_def)
  from perform_all_no_connect [OF this, of env "rp_cb ?rp"] show ?thesis
    using len r w res st acts(1) nc
    by (simp add: hear_reply_def relay_event_def core_step_def update_relay_lookup Let_def split: option.splits)
qed


lemma relay_streams_mem: "(i, r) \<in> set rs \<Longrightarrow> ry_backend r = Some st \<Longrightarrow> st \<in># relay_streams rs"
  by (force simp: relay_streams_def held_def)

lemma relay_streams_two:
  assumes "distinct (map fst rs)" "map_of rs i = Some r" "map_of rs j = Some s"
    and "ry_backend r = Some st" "ry_backend s = Some st" "i \<noteq> j"
  shows "2 \<le> count (relay_streams rs) st"
proof -
  let ?rs = "update_relay i (r\<lparr>ry_backend := None\<rparr>) rs"
  have "map_of ?rs j = Some s" using assms(3,6) by (simp add: update_relay_lookup)
  from relay_streams_mem [OF map_of_SomeD [OF this] assms(5)] have "1 \<le> count (relay_streams ?rs) st"
    by (simp add: Suc_le_eq)
  moreover have "relay_streams ?rs + {#st#} = relay_streams rs"
    using relay_streams_update [OF assms(1,2), of "r\<lparr>ry_backend := None\<rparr>"] assms(4) by (simp add: held_def)
  then have "count (relay_streams ?rs + {#st#}) st = count (relay_streams rs) st" by (rule arg_cong)
  ultimately show ?thesis by (simp only: count_union count_single refl if_True)
qed

section \<open>Properties\<close>

text \<open>C7: a backend connection has one owner.  In every reachable state of a worker a backend stream is in at
  most one place: in one idle queue of the pool, once, or in one callback on its way, or with one relay.
  So no two relays ever use the same backend stream and none that a relay uses can be handed out again;
  and a stream that a relay has shut down is in none of these places.\<close>

theorem worker_exclusive_streams:
  assumes "reachable worker_init worker_step k"
    and "map_of (co_relays (wk_core k)) i = Some r" "ry_backend r = Some st"
  shows "st \<notin># idle_streams (co_pool (wk_core k)) \<and> st \<notin># reply_streams (wk_heard k) (co_pool (wk_core k))
    \<and> (map_of (co_relays (wk_core k)) j = Some s \<and> ry_backend s = Some st \<longrightarrow> j = i)
    \<and> (map_of (co_relays (wk_core k)) j = Some s \<and> A_backend_shutdown st' \<in> set (ry_log s) \<longrightarrow>
        st' \<noteq> st \<and> st' \<notin># idle_streams (co_pool (wk_core k)) \<and> st' \<notin># reply_streams (wk_heard k) (co_pool (wk_core k)))
    \<and> count (idle_streams (co_pool (wk_core k))) st'' \<le> 1"
proof -
  let ?rs = "co_relays (wk_core k)"
  have inv: "worker_inv k" by (rule worker_sys.reachable_inv [OF assms(1)])
  then have ok: "owners_ok k" and d: "distinct (map fst ?rs)" by (simp_all add: worker_inv_def core_inv_def)
  have one: "count (idle_streams (co_pool (wk_core k))) x + count (reply_streams (wk_heard k) (co_pool (wk_core k))) x
      + count (relay_streams ?rs) x \<le> 1" for x
    using ok by (simp add: owners_ok_def owned_def pool_streams_def add.assoc)
  have mine: "0 < count (relay_streams ?rs) st"
    using relay_streams_mem [OF map_of_SomeD [OF assms(2)] assms(3)] by simp
  have "j = i" if "map_of ?rs j = Some s" "ry_backend s = Some st"
    using relay_streams_two [OF d assms(2) that(1) assms(3) that(2)] one [of st] by (cases "i = j") simp_all
  moreover have "st' \<notin># owned k" if "map_of ?rs j = Some s" "A_backend_shutdown st' \<in> set (ry_log s)"
  proof -
    have "st' \<in> shut_streams k" using map_of_SomeD [OF that(1)] that(2)
      unfolding shut_streams_def by force
    with ok show ?thesis by (simp add: owners_ok_def)
  qed
  moreover have "count (idle_streams (co_pool (wk_core k))) x \<le> 1" for x using one [of x] by linarith
  moreover have "st \<notin># idle_streams (co_pool (wk_core k))"
    "st \<notin># reply_streams (wk_heard k) (co_pool (wk_core k))"
    unfolding not_in_iff using one [of st] mine by linarith+
  ultimately show ?thesis using relay_streams_mem [OF map_of_SomeD [OF assms(2)] assms(3)]
    by (auto simp: owned_def pool_streams_def)
qed

text \<open>C8: requests for a backend are answered.  In every reachable state of a worker, a relay waits for a
  connection exactly when one callback of the pool for it is owed or on its way, and never for more than one;
  no callback belongs to a relay that does not wait for it.  A callback on its way can always run, whatever
  the surroundings answer.\<close>

theorem worker_callbacks_match:
  assumes "reachable worker_init worker_step k"
  shows "count (pending (wk_heard k) (co_pool (wk_core k))) i =
      (case map_of (co_relays (wk_core k)) i of
         Some r \<Rightarrow> if \<exists>w \<in> set (ry_waits r). connecting w then 1 else 0 | None \<Rightarrow> 0)
    \<and> (\<not> crashed (wk_core k) \<and> wk_heard k < length (pl_log (co_pool (wk_core k))) \<longrightarrow> hear_reply env k \<noteq> None)"
proof -
  have inv: "worker_inv k" by (rule worker_sys.reachable_inv [OF assms])
  then have c: "count (pending (wk_heard k) (co_pool (wk_core k))) i = waiting i (wk_core k)" by (simp add: worker_inv_def)
  have "waiting i (wk_core k) = (case map_of (co_relays (wk_core k)) i of
      Some r \<Rightarrow> if \<exists>w \<in> set (ry_waits r). connecting w then 1 else 0 | None \<Rightarrow> 0)"
  proof (cases "map_of (co_relays (wk_core k)) i")
    case (Some r)
    then have "relay_inv r" using inv
      by (auto simp: worker_inv_def core_inv_def dest!: map_of_SomeD intro: relay_sys.reachable_inv)
    from connecting_at_most_one [OF this] have "length (filter connecting (ry_waits r)) =
        (if filter connecting (ry_waits r) = [] then 0 else 1)" by (cases "filter connecting (ry_waits r)") auto
    with Some show ?thesis by (simp add: waiting_def filter_empty_conv)
  qed (simp add: waiting_def)
  with c hear_reply_enabled [OF inv] show ?thesis by simp
qed

text \<open>Runs, for examples.\<close>

fun worker_run :: "pool_env \<Rightarrow> worker_event list \<Rightarrow> worker \<Rightarrow> worker option" where
  "worker_run env [] k = Some k"
| "worker_run env (e # es) k = (case worker_exec env e k of None \<Rightarrow> None | Some k' \<Rightarrow> worker_run env es k')"

lemma worker_run_reachable:
  "worker_run env es k = Some k' \<Longrightarrow> ev_quic_conn env = (\<lambda>_. None) \<Longrightarrow> reachable worker_init worker_step k
    \<Longrightarrow> reachable worker_init worker_step k'"
proof (induction es arbitrary: k)
  case (Cons e es)
  then obtain k1 where "worker_exec env e k = Some k1" "worker_run env es k1 = Some k'" by (auto split: option.splits)
  moreover have "new_sessions env (co_pool (wk_core k))" using Cons.prems(2) by (simp add: new_sessions_def)
  ultimately show ?case using Cons by (blast intro: reach_step worker_step.intros)
qed simp

definition ex_config :: proxy_config where
  "ex_config = default_config\<lparr>cf_backends := [\<lparr>be_backend_id = ''b'', be_host = ''h'', be_port = 80, be_weight = 1,
     be_protocol = TCP\<rparr>], cf_routes := [\<lparr>rr_host_match = ''*'', rr_backend_id = ''b''\<rparr>]\<rparr>"

definition ex_tcp_env :: pool_env where
  "ex_tcp_env = \<lparr>ev_resolves = (\<lambda>_. True), ev_quic_conn = (\<lambda>_. None)\<rparr>"

definition ex_head :: request_head where
  "ex_head = empty_request_head\<lparr>rq_method := ''GET'', rq_path := ''/'', rq_headers := [(''host'', ''a'')]\<rparr>"

text \<open>A client connects and asks, the backend's connection comes up.\<close>

definition ex_asked :: "worker_event list" where
  "ex_asked = [K_accept 3, K_relay 0 (E_complete W_parse_request (R_request (Inr (ex_head, None, True)))),
     K_tcp (hd (cf_backends ex_config), 0) None]"

lemma ex_run_reachable:
  "worker_run ex_tcp_env es (new_worker ex_config) = Some k \<Longrightarrow> reachable worker_init worker_step k"
proof -
  have "reachable worker_init worker_step (new_worker ex_config)"
    by (rule reach_init) (auto simp: worker_init_def)
  moreover have "ev_quic_conn ex_tcp_env = (\<lambda>_. None)" by (simp add: ex_tcp_env_def)
  ultimately show "worker_run ex_tcp_env es (new_worker ex_config) = Some k \<Longrightarrow> reachable worker_init worker_step k"
    by (blast intro: worker_run_reachable)
qed

lemma ex_run_asked:
  "map_option (\<lambda>k. (map (\<lambda>(i, r). (i, ry_waits r, ry_backend r)) (co_relays (wk_core k)), wk_heard k,
       length (pl_log (co_pool (wk_core k))), crashed (wk_core k)))
     (worker_run ex_tcp_env ex_asked (new_worker ex_config))
   = Some ([(0, [W_connect ex_head None], None)], 0, 1, False)"
  by code_simp

lemma ex_run_answered:
  "map_option (\<lambda>k. map (\<lambda>(i, r). (i, ry_waits r, ry_backend r)) (co_relays (wk_core k)))
     (worker_run ex_tcp_env (ex_asked @ [K_reply]) (new_worker ex_config))
   = Some [(0, [W_write_request True], Some 0)]"
  by code_simp

theorem worker_exclusive_streams_witness:
  "\<exists>k r. worker_run ex_tcp_env (ex_asked @ [K_reply]) (new_worker ex_config) = Some k
     \<and> map_of (co_relays (wk_core k)) 0 = Some r \<and> ry_backend r = Some 0 \<and> 0 \<notin># idle_streams (co_pool (wk_core k))"
proof -
  from ex_run_answered obtain k r where k: "worker_run ex_tcp_env (ex_asked @ [K_reply]) (new_worker ex_config) = Some k"
    and r: "co_relays (wk_core k) = [(0, r)]" "ry_backend r = Some 0" by auto
  with worker_exclusive_streams [OF ex_run_reachable [OF k], of 0 r 0] show ?thesis by auto
qed

theorem worker_callbacks_match_witness:
  "\<exists>k. worker_run ex_tcp_env ex_asked (new_worker ex_config) = Some k
     \<and> count (pending (wk_heard k) (co_pool (wk_core k))) 0 = 1 \<and> hear_reply ex_tcp_env k \<noteq> None"
proof -
  from ex_run_asked obtain k r where k: "worker_run ex_tcp_env ex_asked (new_worker ex_config) = Some k"
    and r: "co_relays (wk_core k) = [(0, r)]" "ry_waits r = [W_connect ex_head None]"
      "wk_heard k = 0" "length (pl_log (co_pool (wk_core k))) = 1" "\<not> crashed (wk_core k)" by auto
  with worker_callbacks_match [OF ex_run_reachable [OF k], of 0 ex_tcp_env] show ?thesis by auto
qed

end
