(* ===== verification/Exchange.thy ===== *)
theory Exchange
  imports H1_Properties Worker
begin

text \<open>
  A response on its way through the codec and the relay when the client goes away: the HTTP/1 reader on
  the backend's stream (\<^verbatim>\<open>src/codec/h1_codec.cpp\<close>), the writer on the client's, and the callback of
  \<^verbatim>\<open>async_write_response\<close> in \<^verbatim>\<open>RelaySession::response_phase\<close> (\<^verbatim>\<open>src/proxy/relay_session.cpp\<close>), which
  does not look at its error code.  The worker's pool then holds a connection on which the rest of the old
  response is still to be read.
\<close>

section \<open>A head that comes in a read of its own\<close>

lemma read_response_alone:
  assumes "wf_response h" "ts_in s = RdData (response_wire h) # q" "length (response_wire h) \<le> 4096"
  shows "h1_parse_response s = Some (Inr (h, framing h [],
    compute_keep_alive (rs_headers h) (rs_version h) \<and> \<not> close_delimited h), s\<lparr>ts_in := q\<rparr>)"
proof -
  have ne: "response_wire h \<noteq> []" using rs_syntax.print_long [OF assms(1)] by auto
  have "fill_header_buf [] s = Some (Inr (response_wire h, length (response_wire h) - 4), s\<lparr>ts_in := q\<rparr>)"
    using assms ne rs_syntax.blank_line [OF assms(1)]
    by (simp add: fill_header_buf.simps [of "[]" s] async_read_some_def)
  from read_response_header_step [OF this, of h] rs_syntax.print_long [OF assms(1)] rs_syntax.parse_print [OF assms(1)]
  show ?thesis by (simp add: h1_parse_response_def)
qed

lemma write_response_refused:
  assumes "ts_wr dst = WrErr e n # ws" "\<not> ts_shut dst"
  shows "\<exists>dst'. h1_write_response seen h body src dst = Some (Some e, src, dst')"
  using assms by (simp add: h1_write_response_def write_message_def async_write_some_def split: option.split)

lemma finish_releases:
  assumes "ry_backend r = Some st"
  shows "\<exists>more. ry_log (complete (W_write_response True) (R_written ec) r) =
    ry_log r @ A_pool_release (ry_endpoint r) st # more \<and> list_all (\<lambda>a. \<not> connects a \<and> releases a = []) more"
  using assms by (auto simp: relay_defs)

lemma perform_all_quiet:
  "list_all (\<lambda>a. \<not> connects a \<and> releases a = []) acts \<Longrightarrow> perform_all env i acts p = Some p"
proof (induction acts)
  case (Cons a acts)
  then show ?case by (cases a) (simp_all add: perform_def)
qed simp

lemma worker_releases:
  assumes "\<not> crashed (wk_core k)" "map_of (co_relays (wk_core k)) i = Some r"
    and "W_write_response True \<in> set (ry_waits r)" "ry_backend r = Some st"
  shows "\<exists>k'. worker_exec env (K_relay i (E_complete (W_write_response True) (R_written ec))) k = Some k'
    \<and> co_pool (wk_core k') = release (ry_endpoint r) st (co_pool (wk_core k))"
proof -
  let ?r = "finish_op (W_write_response True) (R_written ec) r"
  let ?c = "(wk_core k)\<lparr>co_relays := update_relay i ?r (co_relays (wk_core k))\<rparr>"
  have "\<not> ry_fault r" using assms(1) map_of_SomeD [OF assms(2)] by (force simp: crashed_def)
  with assms have "core_step (C_relay i (E_complete (W_write_response True) (R_written ec))) (wk_core k) = Some ?c"
    by (simp add: core_step_def event_step_def)
  moreover have "map_of (co_relays ?c) i = Some ?r" using assms(2) by (simp add: update_relay_lookup)
  moreover have "ry_backend (r\<lparr>ry_waits := remove1 (W_write_response True) (ry_waits r)\<rparr>) = Some st"
    using assms(4) by simp
  from finish_releases [OF this] have "perform_all env i (drop (length (ry_log r)) (ry_log ?r)) p =
      Some (release (ry_endpoint r) st p)" for p
    by (auto simp: finish_op_def perform_all_quiet perform_def)
  ultimately show ?thesis using assms(1,2) by (simp add: worker_exec_def relay_event_def)
qed

text \<open>C36: an unread body goes into the pool.  A backend answers with a keep-alive response whose Content-Length
  body is not read yet when the client's connection refuses the response.  The write reports the error, yet the
  relay returns the backend's connection to the pool, with the body still to be read.  Whoever is given the
  connection next reads the old body as its response: if it begins with the text of a response head, that head is
  what the codec delivers.\<close>

theorem unread_body_pooled:
  assumes "wf_response h" "\<not> bodyless h" "\<not> says_chunked h" "compute_keep_alive (rs_headers h) (rs_version h)"
    and "rs_content_length h = Some (length body)" "length (response_wire h) \<le> 4096"
    and "ts_in s = RdData (response_wire h) # q" "in_bytes q = body @ later"
    and "wf_response h2" "body = response_wire h2 @ body2"
    and "ts_wr dst = WrErr e n # ws" "\<not> ts_shut dst"
    and "\<not> crashed (wk_core k)" "map_of (co_relays (wk_core k)) i = Some r"
    and "W_write_response True \<in> set (ry_waits r)" "ry_backend r = Some st"
  shows "\<exists>b s' dst' k'. h1_parse_response s = Some (Inr (h, b, True), s')
    \<and> h1_write_response seen h' b s' dst = Some (Some e, s', dst')
    \<and> worker_exec env (K_relay i (E_complete (W_write_response True) (R_written (Some e)))) k = Some k'
    \<and> co_pool (wk_core k') = release (ry_endpoint r) st (co_pool (wk_core k))
    \<and> (\<exists>b2 ka2 s2. h1_parse_response s' = Some (Inr (h2, b2, ka2), s2))"
proof -
  let ?s = "s\<lparr>ts_in := q\<rparr>"
  have "h1_parse_response s = Some (Inr (h, framing h [], True), ?s)"
    using read_response_alone [OF assms(1,7,6)] assms(4,5) by (simp add: close_delimited_def)
  moreover obtain dst' where "h1_write_response seen h' (framing h []) ?s dst = Some (Some e, ?s, dst')"
    using write_response_refused [OF assms(11,12)] by blast
  moreover obtain k' where "worker_exec env (K_relay i (E_complete (W_write_response True) (R_written (Some e)))) k = Some k'"
    "co_pool (wk_core k') = release (ry_endpoint r) st (co_pool (wk_core k))"
    using worker_releases [OF assms(13-16)] by blast
  moreover have "in_bytes (ts_in ?s) = response_wire h2 @ body2 @ later" using assms(8,10) by simp
  from read_response_printed [OF assms(9) this] have "\<exists>b2 ka2 s2. h1_parse_response ?s = Some (Inr (h2, b2, ka2), s2)"
    by blast
  ultimately show ?thesis by blast
qed

text \<open>The body of the one response is the text of another, and the client resets its connection.\<close>

definition ex_inner :: response_head where
  "ex_inner = \<lparr>rs_status = 200, rs_reason = ''OK'', rs_version = ''HTTP/1.1'',
     rs_headers = [(''content-length'', ''0'')], rs_content_length = Some 0\<rparr>"

definition ex_outer :: response_head where
  "ex_outer = \<lparr>rs_status = 200, rs_reason = ''OK'', rs_version = ''HTTP/1.1'',
     rs_headers = [(''content-length'', ''38'')], rs_content_length = Some 38\<rparr>"

lemma ex_length_facts:
  assumes "h = H1_Properties.ex_response [(''content-length'', show_nat n)]" "n \<le> 4096"
  shows "rs_content_length h = Some n" "wf_response h" "\<not> bodyless h" "\<not> says_chunked h"
proof -
  have names: "lower ''transfer-encoding'' = ''transfer-encoding''" by code_simp
  show "rs_content_length h = Some n"
    using strtoul_show_nat [of n] assms(2) by (simp add: assms(1) H1_Properties.ex_response_def content_length_of_def)
  show "wf_response h" "\<not> bodyless h" "\<not> says_chunked h"
    using wf_text_show_nat [of n]
    by (simp_all add: assms(1) H1_Properties.ex_response_def wf_response_def wf_token_def wf_field_def wf_text_def
        starts_with_def isspace_def bodyless_def says_chunked_def lower_names names)
qed

lemma ex_heads:
  "ex_inner = H1_Properties.ex_response [(''content-length'', show_nat 0)]"
  "ex_outer = H1_Properties.ex_response [(''content-length'', show_nat 38)]"
proof -
  have "show_nat 0 = ''0''" "show_nat 38 = ''38''" by code_simp+
  then show "ex_inner = H1_Properties.ex_response [(''content-length'', show_nat 0)]"
    "ex_outer = H1_Properties.ex_response [(''content-length'', show_nat 38)]"
    using strtoul_show_nat [of 0] strtoul_show_nat [of 38]
    by (simp_all add: ex_inner_def ex_outer_def H1_Properties.ex_response_def content_length_of_def)
qed

definition ex_answered :: "worker_event list" where
  "ex_answered = ex_asked @ [K_reply, K_relay 0 (E_complete (W_write_request True) (R_written None)),
     K_relay 0 (E_complete W_parse_response (R_response 5 (Inr (ex_outer,
       Some (Basic (StreamBodySource 38)), True))))]"

lemma ex_run_writing:
  "map_option (\<lambda>k. (map (\<lambda>(i, r). (i, ry_waits r, ry_backend r, ry_endpoint r)) (co_relays (wk_core k)),
       crashed (wk_core k)))
     (worker_run ex_tcp_env ex_answered (new_worker ex_config))
   = Some ([(0, [W_write_response True], Some 0, hd (cf_backends ex_config))], False)"
  by code_simp

theorem unread_body_pooled_witness:
  "\<exists>b s' dst' k k'. h1_parse_response (ex_stream [response_wire ex_outer, response_wire ex_inner]) =
      Some (Inr (ex_outer, b, True), s')
    \<and> h1_write_response (\<lambda>s c. c) ex_outer b s' (sink\<lparr>ts_wr := [WrErr Connection_reset 0]\<rparr>) =
      Some (Some Connection_reset, s', dst')
    \<and> worker_run ex_tcp_env ex_answered (new_worker ex_config) = Some k
    \<and> worker_exec ex_tcp_env (K_relay 0 (E_complete (W_write_response True) (R_written (Some Connection_reset)))) k = Some k'
    \<and> co_pool (wk_core k') = release (hd (cf_backends ex_config)) 0 (co_pool (wk_core k))
    \<and> (\<exists>b2 ka2 s2. h1_parse_response s' = Some (Inr (ex_inner, b2, ka2), s2))"
proof -
  from ex_run_writing obtain k r where k: "worker_run ex_tcp_env ex_answered (new_worker ex_config) = Some k"
    and r: "co_relays (wk_core k) = [(0, r)]" "ry_waits r = [W_write_response True]" "ry_backend r = Some 0"
      "ry_endpoint r = hd (cf_backends ex_config)" "\<not> crashed (wk_core k)" by auto
  have "length (response_wire ex_inner) = 38" by code_simp
  moreover have "rs_content_length ex_outer = Some 38" by (simp add: ex_outer_def)
  ultimately have cl: "rs_content_length ex_outer = Some (length (response_wire ex_inner))" by simp
  have len: "length (response_wire ex_outer) \<le> 4096" by code_simp
  have ka: "compute_keep_alive (rs_headers ex_outer) (rs_version ex_outer)" by code_simp
  have i: "response_wire ex_inner \<noteq> []" by code_simp
  let ?s = "ex_stream [response_wire ex_outer, response_wire ex_inner]"
  have s: "ts_in ?s = RdData (response_wire ex_outer) # [RdData (response_wire ex_inner)]"
    by (simp add: ex_stream_def fragments_def fresh_stream_def)
  have "in_bytes [RdData (response_wire ex_inner)] = response_wire ex_inner @ []" using i by simp
  from unread_body_pooled [OF ex_length_facts(2-4) [OF ex_heads(2)] ka cl len s this
    ex_length_facts(2) [OF ex_heads(1)], of "[]" "sink\<lparr>ts_wr := [WrErr Connection_reset 0]\<rparr>" Connection_reset 0 "[]" k 0 r 0
      "\<lambda>s c. c" ex_outer ex_tcp_env] r k
  show ?thesis by (simp add: fresh_stream_def)
qed

end
