(* ===== verification/H3_Codec.thy ===== *)
theory H3_Codec
  imports H1_Codec "HOL-Library.Word"
begin

unbundle bit_operations_syntax

text \<open>
  The HTTP/3 codec, \<^verbatim>\<open>src/codec/h3_codec.{h,cpp}\<close>: QUIC variable-length integers at their machine
  widths, the literal header-block parser, the translation between decoded header lists and the
  message heads, and the four message operations.

  Header compression is done by the QUIC library behind the stream interface, so the codec works on
  header lists.  Two outcomes of a message operation other than a fired callback are explicit: the
  callback never fires, and the call of a callback that was moved from.
\<close>

section \<open>Variable-length integers\<close>

record varint_result =
  vr_value :: "64 word"
  vr_bytes_read :: nat

abbreviation w64 :: "8 word \<Rightarrow> 64 word" where "w64 b \<equiv> ucast b"
abbreviation w8 :: "64 word \<Rightarrow> 8 word" where "w8 v \<equiv> ucast v"

definition varint_bytes :: "8 word \<Rightarrow> nat" where
  "varint_bytes first = (let tag = drop_bit 6 first in
     if tag = 0 then 1 else if tag = 1 then 2 else if tag = 2 then 4 else 8)"

definition decode_varint :: "8 word list \<Rightarrow> varint_result" where
  "decode_varint data =
     (if length data < 1 then \<lparr>vr_value = 0, vr_bytes_read = 0\<rparr>
      else
        (let first = data ! 0; bytes = varint_bytes first; top = w64 (first AND 0x3F) in
         if length data < bytes then \<lparr>vr_value = 0, vr_bytes_read = 0\<rparr>
         else
           (let value =
              (if bytes = 1 then top
               else if bytes = 2 then push_bit 8 top OR w64 (data ! 1)
               else if bytes = 4 then
                 push_bit 24 top OR push_bit 16 (w64 (data ! 1)) OR push_bit 8 (w64 (data ! 2))
                 OR w64 (data ! 3)
               else
                 push_bit 56 top OR push_bit 48 (w64 (data ! 1)) OR push_bit 40 (w64 (data ! 2))
                 OR push_bit 32 (w64 (data ! 3)) OR push_bit 24 (w64 (data ! 4))
                 OR push_bit 16 (w64 (data ! 5)) OR push_bit 8 (w64 (data ! 6)) OR w64 (data ! 7))
            in \<lparr>vr_value = value, vr_bytes_read = bytes\<rparr>)))"

definition varint_size :: "64 word \<Rightarrow> nat" where
  "varint_size value =
     (if value \<le> 0x3F then 1 else if value \<le> 0x3FFF then 2 else if value \<le> 0x3FFFFFFF then 4 else 8)"

definition encode_varint :: "64 word \<Rightarrow> 8 word list" where
  "encode_varint value =
     (let bytes = varint_size value in
      if bytes = 1 then [w8 value]
      else if bytes = 2 then [0x40 OR w8 (drop_bit 8 value), w8 value]
      else if bytes = 4 then
        [0x80 OR w8 (drop_bit 24 value), w8 (drop_bit 16 value), w8 (drop_bit 8 value), w8 value]
      else
        [0xC0 OR w8 (drop_bit 56 value), w8 (drop_bit 48 value), w8 (drop_bit 40 value),
         w8 (drop_bit 32 value), w8 (drop_bit 24 value), w8 (drop_bit 16 value),
         w8 (drop_bit 8 value), w8 value])"

section \<open>Literal header blocks\<close>

definition byte_of :: "char \<Rightarrow> 8 word" where
  "byte_of c = word_of_nat (of_char c)"

definition char_of_byte :: "8 word \<Rightarrow> char" where
  "char_of_byte b = char_of (unat b)"

text \<open>\<^verbatim>\<open>std::stoull\<close>: \<open>None\<close> stands for the exceptions it throws, when nothing is converted or the
  value is out of range.\<close>

definition stoull :: "string \<Rightarrow> nat option" where
  "stoull s =
     (let (neg, sg, s2) = split_sign (dropWhile isspace s);
          (v, n) = strto_digits 10 0 s2
      in if n = 0 \<or> v > ULONG_MAX then None
         else Some (if neg then (2 ^ 64 - v) mod 2 ^ 64 else v))"

text \<open>The reference parameters of \<^verbatim>\<open>parse_request_headers\<close>.\<close>

record h3_fields =
  hf_method :: string
  hf_path :: string
  hf_hdrs :: header_map
  hf_content_length :: "nat option"

definition no_fields :: h3_fields where
  "no_fields = \<lparr>hf_method = [], hf_path = [], hf_hdrs = [], hf_content_length = None\<rparr>"

text \<open>One \<^verbatim>\<open>varint length + bytes\<close> string at the front of the input.\<close>

definition take_literal :: "8 word list \<Rightarrow> (string \<times> 8 word list) option" where
  "take_literal data =
     (let vr = decode_varint data; rest = drop (vr_bytes_read vr) data; len = unat (vr_value vr) in
      if vr_bytes_read vr = 0 then None
      else if len > length rest then None
      else Some (map char_of_byte (take len rest), drop len rest))"

definition route_field :: "string \<Rightarrow> string \<Rightarrow> h3_fields \<Rightarrow> h3_fields option" where
  "route_field name val f =
     (if name = '':method'' then Some (f\<lparr>hf_method := val\<rparr>)
      else if name = '':path'' then Some (f\<lparr>hf_path := val\<rparr>)
      else if name = '':authority'' then Some (f\<lparr>hf_hdrs := hm_add ''host'' val (hf_hdrs f)\<rparr>)
      else if name = ''content-length'' then
        map_option (\<lambda>n. f\<lparr>hf_content_length := Some n\<rparr>) (stoull val)
      else if name \<noteq> [] \<and> hd name \<noteq> CHR '':'' then Some (f\<lparr>hf_hdrs := hm_add name val (hf_hdrs f)\<rparr>)
      else Some f)"

lemma decode_varint_read: "vr_bytes_read (decode_varint data) \<le> length data"
  by (simp add: decode_varint_def Let_def)

lemma take_literal_length: "take_literal data = Some (s, rest) \<Longrightarrow> length rest < length data"
  using decode_varint_read [of data] by (auto simp: take_literal_def Let_def split: if_splits)

text \<open>\<open>Some (ok, fields)\<close> is a return of \<open>ok\<close> with the reference parameters as left; \<open>None\<close> is an
  exception escaping from \<^verbatim>\<open>stoull\<close>.\<close>

function parse_request_headers :: "8 word list \<Rightarrow> h3_fields \<Rightarrow> (bool \<times> h3_fields) option" where
  "parse_request_headers data f =
     (if data = [] then Some (True, f)
      else case take_literal data of
        None \<Rightarrow> Some (False, f)
      | Some (name, data1) \<Rightarrow>
          (case take_literal data1 of
             None \<Rightarrow> Some (False, f)
           | Some (val, data2) \<Rightarrow>
               (case route_field name val f of
                  None \<Rightarrow> None
                | Some f' \<Rightarrow> parse_request_headers data2 f')))"
  by pat_completeness auto
termination
  by (relation "measure (\<lambda>(data, f). length data)")
    (auto dest!: take_literal_length)

declare parse_request_headers.simps [simp del]

section \<open>Header lists and heads\<close>

definition pseudo :: "string \<Rightarrow> bool" where
  "pseudo n \<longleftrightarrow> n = [] \<or> hd n = CHR '':''"

definition request_field :: "string \<times> string \<Rightarrow> request_head \<Rightarrow> request_head" where
  "request_field e head = (case e of (n, v) \<Rightarrow>
     if n = '':method'' then head\<lparr>rq_method := v\<rparr>
     else if n = '':path'' then head\<lparr>rq_path := v\<rparr>
     else if n = '':scheme'' then head\<lparr>rq_scheme := v\<rparr>
     else if n = '':authority'' then
       head\<lparr>rq_authority := v, rq_headers := hm_set ''host'' v (rq_headers head)\<rparr>
     else if pseudo n then head
     else head\<lparr>rq_headers := hm_add n v (rq_headers head)\<rparr>)"

definition request_head_from_headers :: "header_list \<Rightarrow> request_head" where
  "request_head_from_headers raw =
     (let head = fold request_field raw (empty_request_head\<lparr>rq_version := ''HTTP/3''\<rparr>) in
      case content_length_of (rq_headers head) of
        Some n \<Rightarrow> head\<lparr>rq_content_length := Some n\<rparr>
      | None \<Rightarrow> head)"

definition response_field :: "string \<times> string \<Rightarrow> response_head \<Rightarrow> response_head" where
  "response_field e head = (case e of (n, v) \<Rightarrow>
     if n = '':status'' then head\<lparr>rs_status := to_int32 (strtol10 v)\<rparr>
     else if pseudo n then head
     else head\<lparr>rs_headers := hm_add n v (rs_headers head)\<rparr>)"

definition response_head_from_headers :: "header_list \<Rightarrow> response_head" where
  "response_head_from_headers raw =
     (let head = fold response_field raw (empty_response_head\<lparr>rs_reason := [], rs_version := ''HTTP/3''\<rparr>) in
      case content_length_of (rs_headers head) of
        Some n \<Rightarrow> head\<lparr>rs_content_length := Some n\<rparr>
      | None \<Rightarrow> head)"

definition is_hop_by_hop :: "string \<Rightarrow> bool" where
  "is_hop_by_hop name = (let l = lower name in
     l = ''connection'' \<or> l = ''keep-alive'' \<or> l = ''proxy-connection''
     \<or> l = ''transfer-encoding'' \<or> l = ''upgrade'')"

definition request_fields :: "request_head \<Rightarrow> header_list" where
  "request_fields head =
     (let authority = (if rq_authority head = []
                       then (case hm_get ''host'' (rq_headers head) of Some h \<Rightarrow> h | None \<Rightarrow> [])
                       else rq_authority head)
      in [('':method'', if rq_method head = [] then ''GET'' else rq_method head),
          ('':scheme'', if rq_scheme head = [] then ''http'' else rq_scheme head),
          ('':authority'', authority),
          ('':path'', if rq_path head = [] then ''/'' else rq_path head)]
         @ filter (\<lambda>e. \<not> is_hop_by_hop (fst e)) (rq_headers head))"

definition response_fields :: "response_head \<Rightarrow> header_list" where
  "response_fields head =
     ('':status'', show_int (rs_status head)) # filter (\<lambda>e. \<not> is_hop_by_hop (fst e)) (rs_headers head)"

section \<open>Message operations\<close>

datatype 'a call = Fired 'a | Silent | Bad_function_call

definition h3_parse :: "(header_list \<Rightarrow> 'h) \<Rightarrow> tstream \<Rightarrow> ('h parsed) call" where
  "h3_parse interpret s = (case async_take_headers s of
       None \<Rightarrow> Bad_function_call
     | Some TakeNever \<Rightarrow> Silent
     | Some (TakeErr e) \<Rightarrow> Fired (Inl e)
     | Some (TakeHeaders raw) \<Rightarrow> Fired (Inr (interpret raw, Some (Basic StreamEofBodySource), False)))"

definition h3_parse_request :: "tstream \<Rightarrow> (request_head parsed) call" where
  "h3_parse_request s = h3_parse request_head_from_headers s"

definition h3_parse_response :: "tstream \<Rightarrow> (response_head parsed) call" where
  "h3_parse_response s = h3_parse response_head_from_headers s"

text \<open>\<open>fin\<close> is the outcome of \<^verbatim>\<open>async_shutdown\<close>: \<open>None\<close> when its callback does not fire.  The error
  passed to \<^verbatim>\<open>finish\<close> is not used by the source.\<close>

definition h3_finish ::
  "error_code option \<Rightarrow> error_code \<Rightarrow> tstream \<Rightarrow> tstream \<Rightarrow> (error_code \<times> tstream \<times> tstream) call" where
  "h3_finish fin ec src dst = (case fin of
       None \<Rightarrow> Silent
     | Some sec \<Rightarrow> Fired (sec, src, dst\<lparr>ts_shut := True\<rparr>))"

definition h3_write ::
  "seen_byte \<Rightarrow> error_code option \<Rightarrow> header_list \<Rightarrow> h1_body option \<Rightarrow> tstream \<Rightarrow> tstream
     \<Rightarrow> (error_code \<times> tstream \<times> tstream) call" where
  "h3_write seen fin headers body src dst = (case async_send_headers headers dst of
       None \<Rightarrow> Bad_function_call
     | Some (ec, dst') \<Rightarrow>
         (case body of
            None \<Rightarrow> h3_finish fin ec src dst'
          | Some b \<Rightarrow>
              if ec \<noteq> None then h3_finish fin ec src dst'
              else (case pump_body (h1_body_read seen) (b, src) dst' of
                      None \<Rightarrow> Silent
                    | Some (pec, (b', src'), dst'') \<Rightarrow> h3_finish fin pec src' dst'')))"

definition h3_write_request ::
  "seen_byte \<Rightarrow> error_code option \<Rightarrow> request_head \<Rightarrow> h1_body option \<Rightarrow> tstream \<Rightarrow> tstream
     \<Rightarrow> (error_code \<times> tstream \<times> tstream) call" where
  "h3_write_request seen fin head body src dst = h3_write seen fin (request_fields head) body src dst"

definition h3_write_response ::
  "seen_byte \<Rightarrow> error_code option \<Rightarrow> response_head \<Rightarrow> h1_body option \<Rightarrow> tstream \<Rightarrow> tstream
     \<Rightarrow> (error_code \<times> tstream \<times> tstream) call" where
  "h3_write_response seen fin head body src dst = h3_write seen fin (response_fields head) body src dst"

section \<open>Variable-length integers: facts\<close>

lemma and_3F: "(x :: 8 word) AND 0x3F = take_bit 6 x"
  by (simp add: take_bit_eq_mask mask_eq_exp_minus_1)

lemma top_bits:
  "(0x40 OR x) AND 0x3F = take_bit 6 (x :: 8 word)"
  "(0x80 OR x) AND 0x3F = take_bit 6 x"
  "(0xC0 OR x) AND 0x3F = take_bit 6 x"
  by (simp_all add: and_3F [symmetric] bit.conj_disj_distrib2)

lemma less_8_cases: "n < (8::nat) \<Longrightarrow> n = 0 \<or> n = 1 \<or> n = 2 \<or> n = 3 \<or> n = 4 \<or> n = 5 \<or> n = 6 \<or> n = 7"
  by linarith

lemma tag_C0: "drop_bit 6 (0xC0 OR x) = (3 :: 8 word)"
  by (rule bit_word_eqI) (auto simp: bit_simps dest!: less_8_cases dest: bit_imp_le_length)

lemma bytes_C0: "varint_bytes (0xC0 OR x) = 8"
  unfolding varint_bytes_def tag_C0 by simp

lemma tag_small:
  assumes "drop_bit 6 x = (0 :: 8 word)"
  shows "drop_bit 6 (0x40 OR x) = 1" "drop_bit 6 (0x80 OR x) = 2"
  using assms by (simp_all add: drop_bit_or)

lemma w8_drop_small:
  assumes "v < 2 ^ (n + 6)" "n + 6 \<le> 64"
  shows "drop_bit 6 (w8 (drop_bit n v)) = 0"
proof (rule bit_word_eqI)
  fix m assume "m < LENGTH(8)"
  have "\<not> bit v (n + (6 + m))"
    using assms by (metis bit_take_bit_iff less_mask_eq not_add_less1 take_bit_eq_mask add.assoc)
  then show "bit (drop_bit 6 (w8 (drop_bit n v))) m = bit (0 :: 8 word) m"
    by (simp add: bit_simps add.commute add.left_commute)
qed


lemma bit_byte_at:
  "n < 64 \<Longrightarrow> k < 64 \<Longrightarrow> bit (push_bit k (w64 (w8 (drop_bit k v)))) n \<longleftrightarrow> k \<le> n \<and> n < k + 8 \<and> bit v n"
  by (auto simp: bit_simps)

lemma bit_top_at:
  "n < 64 \<Longrightarrow> k < 64 \<Longrightarrow> bit (push_bit k (w64 (take_bit 6 (w8 (drop_bit k v))))) n \<longleftrightarrow>
     k \<le> n \<and> n < k + 6 \<and> bit v n"
  by (auto simp: bit_simps)

lemma bit_byte_0: "n < 64 \<Longrightarrow> bit (w64 (w8 v)) n \<longleftrightarrow> n < 8 \<and> bit v n"
  by (auto simp: bit_simps)

lemma join_8:
  "push_bit 56 (w64 (take_bit 6 (w8 (drop_bit 56 v)))) OR push_bit 48 (w64 (w8 (drop_bit 48 v)))
   OR push_bit 40 (w64 (w8 (drop_bit 40 v))) OR push_bit 32 (w64 (w8 (drop_bit 32 v)))
   OR push_bit 24 (w64 (w8 (drop_bit 24 v))) OR push_bit 16 (w64 (w8 (drop_bit 16 v)))
   OR push_bit 8 (w64 (w8 (drop_bit 8 v))) OR w64 (w8 v) = take_bit 62 v"
proof (rule bit_word_eqI)
  fix n assume "n < LENGTH(64)"
  then have n: "n < 64" by simp
  show "bit (push_bit 56 (w64 (take_bit 6 (w8 (drop_bit 56 v)))) OR push_bit 48 (w64 (w8 (drop_bit 48 v)))
   OR push_bit 40 (w64 (w8 (drop_bit 40 v))) OR push_bit 32 (w64 (w8 (drop_bit 32 v)))
   OR push_bit 24 (w64 (w8 (drop_bit 24 v))) OR push_bit 16 (w64 (w8 (drop_bit 16 v)))
   OR push_bit 8 (w64 (w8 (drop_bit 8 v))) OR w64 (w8 v)) n = bit (take_bit 62 v) n"
    unfolding bit_or_iff bit_byte_at [OF n, of 48, simplified] bit_byte_at [OF n, of 40, simplified]
      bit_byte_at [OF n, of 32, simplified] bit_byte_at [OF n, of 24, simplified]
      bit_byte_at [OF n, of 16, simplified] bit_byte_at [OF n, of 8, simplified]
      bit_top_at [OF n, of 56, simplified] bit_byte_0 [OF n] bit_take_bit_iff
    by (cases "bit v n"; simp; linarith)
qed

lemma join_4:
  "push_bit 24 (w64 (take_bit 6 (w8 (drop_bit 24 v)))) OR push_bit 16 (w64 (w8 (drop_bit 16 v)))
   OR push_bit 8 (w64 (w8 (drop_bit 8 v))) OR w64 (w8 v) = take_bit 30 v"
proof (rule bit_word_eqI)
  fix n assume "n < LENGTH(64)"
  then have n: "n < 64" by simp
  show "bit (push_bit 24 (w64 (take_bit 6 (w8 (drop_bit 24 v)))) OR push_bit 16 (w64 (w8 (drop_bit 16 v)))
   OR push_bit 8 (w64 (w8 (drop_bit 8 v))) OR w64 (w8 v)) n = bit (take_bit 30 v) n"
    unfolding bit_or_iff bit_byte_at [OF n, of 16, simplified] bit_byte_at [OF n, of 8, simplified]
      bit_top_at [OF n, of 24, simplified] bit_byte_0 [OF n] bit_take_bit_iff
    by (cases "bit v n"; simp; linarith)
qed

lemma join_2: "push_bit 8 (w64 (take_bit 6 (w8 (drop_bit 8 v)))) OR w64 (w8 v) = take_bit 14 v"
proof (rule bit_word_eqI)
  fix n assume "n < LENGTH(64)"
  then have n: "n < 64" by simp
  show "bit (push_bit 8 (w64 (take_bit 6 (w8 (drop_bit 8 v)))) OR w64 (w8 v)) n = bit (take_bit 14 v) n"
    unfolding bit_or_iff bit_top_at [OF n, of 8, simplified] bit_byte_0 [OF n] bit_take_bit_iff
    by (cases "bit v n"; simp; linarith)
qed

lemma join_1: "w64 (take_bit 6 (w8 v)) = take_bit 6 v"
  by (rule bit_word_eqI) (auto simp: bit_simps)

lemma length_encode_varint: "length (encode_varint v) = varint_size v"
  by (simp add: encode_varint_def varint_size_def)

lemma take_bit_small:
  assumes "v < 2 ^ n" "n \<le> 62"
  shows "take_bit 62 (v :: 64 word) = v \<and> take_bit n v = v"
proof -
  have n: "take_bit n v = v"
    using assms by (simp add: take_bit_eq_mask less_mask_eq)
  have "take_bit 62 (take_bit n v) = take_bit n v"
    using assms(2) by (simp add: take_bit_take_bit min_def)
  with n show ?thesis by simp
qed

lemma decode_encode_varint:
  "decode_varint (encode_varint v @ rest) = \<lparr>vr_value = take_bit 62 v, vr_bytes_read = varint_size v\<rparr>"
proof -
  consider "v \<le> 0x3F" | "0x3F < v" "v \<le> 0x3FFF" | "0x3FFF < v" "v \<le> 0x3FFFFFFF" | "0x3FFFFFFF < v"
    by fastforce
  then show ?thesis
  proof cases
    case 1
    then have "drop_bit 6 (w8 v) = 0" "take_bit 62 v = v \<and> take_bit 6 v = v"
      using w8_drop_small [of v 0] take_bit_small [of v 6]
      by (simp_all add: word_le_nat_alt word_less_nat_alt)
    with 1 show ?thesis
      by (simp add: decode_varint_def encode_varint_def varint_size_def varint_bytes_def and_3F join_1)
  next
    case 2
    then have "drop_bit 6 (w8 (drop_bit 8 v)) = 0" "take_bit 62 v = v \<and> take_bit 14 v = v"
      using w8_drop_small [of v 8] take_bit_small [of v 14]
      by (simp_all add: word_le_nat_alt word_less_nat_alt)
    with 2 show ?thesis
      by (simp add: decode_varint_def encode_varint_def varint_size_def varint_bytes_def top_bits
          tag_small join_2 word_le_nat_alt word_less_nat_alt)
  next
    case 3
    then have "drop_bit 6 (w8 (drop_bit 24 v)) = 0" "take_bit 62 v = v \<and> take_bit 30 v = v"
      using w8_drop_small [of v 24] take_bit_small [of v 30]
      by (simp_all add: word_le_nat_alt word_less_nat_alt)
    with 3 show ?thesis
      by (simp add: decode_varint_def encode_varint_def varint_size_def varint_bytes_def top_bits
          tag_small join_4 word_le_nat_alt word_less_nat_alt)
  next
    case 4
    then show ?thesis
      by (simp add: decode_varint_def encode_varint_def varint_size_def bytes_C0 top_bits join_8
          Let_def word_le_nat_alt word_less_nat_alt)
  qed
qed


lemma unat_take_bit_less:
  assumes "take_bit n v = v"
  shows "unat (v :: 64 word) < 2 ^ n"
proof -
  from assms have "take_bit n (unat v) = unat v" by (metis unsigned_take_bit_eq)
  then show ?thesis by (simp only: take_bit_nat_eq_self_iff)
qed

lemma take_bit_byte_at:
  "k + 8 \<le> 62 \<Longrightarrow> take_bit 62 (push_bit k (w64 b)) = push_bit k (w64 b)"
  "take_bit 62 (w64 b) = w64 b"
  by (rule bit_word_eqI; auto simp: bit_simps dest: bit_imp_le_length)+

lemma take_bit_top_at:
  "k + 6 \<le> 62 \<Longrightarrow> take_bit 62 (push_bit k (w64 (take_bit 6 b))) = push_bit k (w64 (take_bit 6 b))"
  by (rule bit_word_eqI) (auto simp: bit_simps dest: bit_imp_le_length)

lemma decode_varint_value: "unat (vr_value (decode_varint data)) < 2 ^ 62"
  by (rule unat_take_bit_less)
    (simp add: decode_varint_def Let_def and_3F take_bit_or take_bit_byte_at take_bit_top_at)

section \<open>Literal blocks: facts\<close>

definition literal :: "string \<Rightarrow> 8 word list" where
  "literal s = encode_varint (word_of_nat (length s)) @ map byte_of s"

definition literal_block :: "header_list \<Rightarrow> 8 word list" where
  "literal_block fs = concat (map (\<lambda>(n, v). literal n @ literal v) fs)"

fun route_all :: "header_list \<Rightarrow> h3_fields \<Rightarrow> h3_fields option" where
  "route_all [] f = Some f"
| "route_all ((n, v) # fs) f = (case route_field n v f of None \<Rightarrow> None | Some f' \<Rightarrow> route_all fs f')"

definition short :: "string \<Rightarrow> bool" where
  "short s \<longleftrightarrow> length s < 2 ^ 62"

lemma char_of_byte_of [simp]: "char_of_byte (byte_of c) = c"
proof -
  have "(of_char c :: nat) mod 256 = of_char c"
    using char_of_mod_256 [of "of_char c :: nat"] of_char_of [of "of_char c :: nat"] by simp
  then show ?thesis by (simp add: char_of_byte_def byte_of_def unat_of_nat take_bit_eq_mod)
qed

lemma char_of_byte_map: "map char_of_byte (map byte_of s) = s"
  by (induction s) simp_all

lemma encode_varint_nonempty [simp]: "encode_varint v \<noteq> []"
  by (simp add: encode_varint_def Let_def)

lemma take_literal_append: "short s \<Longrightarrow> take_literal (literal s @ rest) = Some (s, rest)"
proof -
  assume "short s"
  then have u: "unat (word_of_nat (length s) :: 64 word) = length s"
    by (simp add: short_def unat_of_nat take_bit_eq_mod)
  with \<open>short s\<close> have "take_bit 62 (word_of_nat (length s) :: 64 word) = word_of_nat (length s)"
    by (intro conjunct1 [OF take_bit_small [of _ 62]]) (simp_all add: short_def word_less_nat_alt)
  then show ?thesis
    using u decode_encode_varint [of "word_of_nat (length s)" "map byte_of s @ rest"] char_of_byte_map [of s]
    by (simp add: take_literal_def literal_def Let_def flip: length_encode_varint)
qed

lemma literal_nonempty [simp]: "literal s \<noteq> []"
  by (simp add: literal_def)

lemma parse_literal_block:
  "\<forall>(n, v) \<in> set fs. short n \<and> short v \<Longrightarrow>
   parse_request_headers (literal_block fs) f = map_option (Pair True) (route_all fs f)"
proof (induction fs arbitrary: f)
  case Nil
  then show ?case by (simp add: literal_block_def parse_request_headers.simps)
next
  case (Cons e fs)
  obtain n v where e: "e = (n, v)" by (cases e)
  with Cons.prems have "short n" "short v" by auto
  moreover have "literal_block (e # fs) = literal n @ literal v @ literal_block fs"
    by (simp add: literal_block_def e)
  ultimately show ?case
    using Cons.IH Cons.prems
    by (simp add: parse_request_headers.simps [of "literal n @ literal v @ literal_block fs"] e
        take_literal_append split: option.split)
qed

section \<open>Heads and header lists: facts\<close>

lemma request_field_regular:
  "\<not> pseudo n \<Longrightarrow> request_field (n, v) h = h\<lparr>rq_headers := rq_headers h @ [(n, v)]\<rparr>"
  by (cases n) (auto simp: request_field_def pseudo_def hm_add_def)

lemma fold_request_field:
  "\<forall>e \<in> set es. \<not> pseudo (fst e) \<Longrightarrow>
   fold request_field es h = h\<lparr>rq_headers := rq_headers h @ es\<rparr>"
  by (induction es arbitrary: h) (auto simp: request_field_regular)

lemma response_field_regular:
  "\<not> pseudo n \<Longrightarrow> response_field (n, v) h = h\<lparr>rs_headers := rs_headers h @ [(n, v)]\<rparr>"
  by (cases n) (auto simp: response_field_def pseudo_def hm_add_def)

lemma fold_response_field:
  "\<forall>e \<in> set es. \<not> pseudo (fst e) \<Longrightarrow>
   fold response_field es h = h\<lparr>rs_headers := rs_headers h @ es\<rparr>"
  by (induction es arbitrary: h) (auto simp: response_field_regular)

lemma request_head_pseudo:
  assumes "\<forall>e \<in> set es. \<not> pseudo (fst e)"
  shows "request_head_from_headers
       ([('':method'', m), ('':scheme'', sc), ('':authority'', a), ('':path'', p)] @ es) =
     \<lparr>rq_method = m, rq_version = ''HTTP/3'', rq_path = p, rq_scheme = sc, rq_authority = a,
      rq_absolute_target = False, rq_headers = (''host'', a) # es,
      rq_content_length = content_length_of ((''host'', a) # es)\<rparr>"
  using fold_request_field [OF assms]
  by (simp add: request_head_from_headers_def request_field_def empty_request_head_def hm_set_def
      hm_add_def hm_remove_def Let_def split: option.split)

definition authority_of :: "request_head \<Rightarrow> string" where
  "authority_of h = (if rq_authority h = []
     then (case hm_get ''host'' (rq_headers h) of Some a \<Rightarrow> a | None \<Rightarrow> []) else rq_authority h)"

lemma request_fields_pseudo:
  "request_fields h =
     [('':method'', if rq_method h = [] then ''GET'' else rq_method h),
      ('':scheme'', if rq_scheme h = [] then ''http'' else rq_scheme h),
      ('':authority'', authority_of h), ('':path'', if rq_path h = [] then ''/'' else rq_path h)]
     @ filter (\<lambda>e. \<not> is_hop_by_hop (fst e)) (rq_headers h)"
  by (simp only: request_fields_def authority_of_def Let_def)

lemma strtol10_show_int:
  assumes "- (2 ^ 31) \<le> i" "i \<le> INT_MAX"
  shows "to_int32 (strtol10 (show_int i)) = i"
proof -
  have "split_sign (dropWhile isspace (CHR ''-'' # show_nat n)) = (True, 1, show_nat n)" for n
    by (simp add: split_sign_def isspace_def)
  then have "strtol10 (show_int i) = i"
    using assms by (simp add: strtol10_def show_int_def strto_digits_show_nat)
  with assms show ?thesis by (simp add: to_int32_def)
qed

lemma hm_get_filter:
  "(\<And>e. lower (fst e) = lower k \<Longrightarrow> P e) \<Longrightarrow> hm_get k (filter P h) = hm_get k h"
  by (induction h) auto


lemma hm_get_none: "\<forall>e \<in> set h. lower (fst e) \<noteq> lower k \<Longrightarrow> hm_get k h = None"
  by (induction h) auto

lemma is_hop_by_hop_lower: "lower a = lower b \<Longrightarrow> is_hop_by_hop a \<Longrightarrow> is_hop_by_hop b"
  by (simp add: is_hop_by_hop_def)

lemma hm_get_end_to_end:
  "hm_get k (filter (\<lambda>e. \<not> is_hop_by_hop (fst e)) h) = (if is_hop_by_hop k then None else hm_get k h)"
proof (cases "is_hop_by_hop k")
  case True
  then have "\<forall>e \<in> set (filter (\<lambda>e. \<not> is_hop_by_hop (fst e)) h). lower (fst e) \<noteq> lower k"
    by (auto dest: is_hop_by_hop_lower [OF sym])
  with True show ?thesis by (simp add: hm_get_none)
next
  case False
  have "hm_get k (filter (\<lambda>e. \<not> is_hop_by_hop (fst e)) h) = hm_get k h"
    using False by (intro hm_get_filter notI) (blast dest: is_hop_by_hop_lower)
  with False show ?thesis by simp
qed

section \<open>Properties\<close>

text \<open>QUIC variable-length integers.  Whatever follows it in the buffer, an encoded value decodes
  to its low 62 bits and the decoder consumes exactly the bytes the encoder wrote, the number
  \<^verbatim>\<open>varint_size\<close> announces; the value survives exactly when it fits in 62 bits.\<close>

theorem varint_roundtrip:
  "decode_varint (encode_varint v @ rest) =
     \<lparr>vr_value = take_bit 62 v, vr_bytes_read = length (encode_varint v)\<rparr>
   \<and> length (encode_varint v) = varint_size v
   \<and> (vr_value (decode_varint (encode_varint v)) = v \<longleftrightarrow> unat v < 2 ^ 62)"
proof -
  have "take_bit 62 v = v \<longleftrightarrow> unat v < 2 ^ 62"
  proof
    assume "take_bit 62 v = v"
    then show "unat v < 2 ^ 62" by (rule unat_take_bit_less)
  next
    assume "unat v < 2 ^ 62"
    then show "take_bit 62 v = v"
      using take_bit_small [of v 62] by (simp add: word_less_nat_alt)
  qed
  then show ?thesis
    by (simp only: length_encode_varint decode_encode_varint decode_encode_varint [of v "[]", simplified]
        varint_result.select_convs simp_thms)
qed

text \<open>The variable-length decoder is safe on any input: it never claims more bytes than the
  buffer holds, claims none exactly when the buffer is too short for the length its first byte
  announces, and its value fits in 62 bits.\<close>

theorem varint_decode_bounds:
  "vr_bytes_read (decode_varint data) \<le> length data
   \<and> (vr_bytes_read (decode_varint data) = 0 \<longleftrightarrow> data = [] \<or> length data < varint_bytes (hd data))
   \<and> unat (vr_value (decode_varint data)) < 2 ^ 62"
proof -
  have "0 < varint_bytes b" for b by (simp add: varint_bytes_def Let_def)
  then show ?thesis
    using decode_varint_read [of data] decode_varint_value [of data]
    by (cases data) (simp_all add: decode_varint_def Let_def)
qed

text \<open>The literal header block parser inverts the encoding: a block of length-prefixed fields is
  accepted to its last byte and has the effect of routing its fields one after the other, pseudo
  fields to method, path and host, other fields to the header map; a Content-Length that is no number
  escapes as an exception.\<close>

theorem parse_request_headers_roundtrip:
  assumes "\<forall>(n, v) \<in> set fs. short n \<and> short v"
  shows "parse_request_headers (literal_block fs) f = map_option (Pair True) (route_all fs f)"
  by (rule parse_literal_block [OF assms])

theorem parse_request_headers_roundtrip_witness:
  "parse_request_headers (literal_block [('':method'', ''GET''), ('':path'', ''/''), ('':authority'', ''h''),
       (''a'', ''b'')]) no_fields =
     Some (True, \<lparr>hf_method = ''GET'', hf_path = ''/'', hf_hdrs = [(''host'', ''h''), (''a'', ''b'')],
       hf_content_length = None\<rparr>)"
proof -
  have "\<forall>(n, v) \<in> set [('':method'', ''GET''), ('':path'', ''/''), ('':authority'', ''h''), (''a'', ''b'')].
      short n \<and> short v"
    by (simp add: short_def)
  from parse_request_headers_roundtrip [OF this, of no_fields] show ?thesis
    by (simp add: route_field_def no_fields_def hm_add_def)
qed

text \<open>C24: a request head carried over HTTP/3 at the level of header lists.  Method, scheme and path
  survive (empty ones are replaced by their defaults), the authority is the recorded one or the Host
  header, hop-by-hop fields are gone, every other field except Host reads as before, and Host reads
  as the authority.\<close>

theorem h3_request_head_roundtrip:
  assumes "\<forall>e \<in> set (rq_headers h). \<not> pseudo (fst e)"
    and "h' = request_head_from_headers (request_fields h)"
  shows "rq_method h' = (if rq_method h = [] then ''GET'' else rq_method h)
   \<and> rq_scheme h' = (if rq_scheme h = [] then ''http'' else rq_scheme h)
   \<and> rq_path h' = (if rq_path h = [] then ''/'' else rq_path h)
   \<and> rq_authority h' = authority_of h \<and> rq_version h' = ''HTTP/3'' \<and> \<not> rq_absolute_target h'
   \<and> hm_get k (rq_headers h') =
        (if lower k = lower ''host'' then Some (authority_of h)
         else if is_hop_by_hop k then None else hm_get k (rq_headers h))
   \<and> rq_content_length h' = content_length_of (rq_headers h')"
proof -
  let ?es = "filter (\<lambda>e. \<not> is_hop_by_hop (fst e)) (rq_headers h)"
  have "\<forall>e \<in> set ?es. \<not> pseudo (fst e)" using assms(1) by simp
  note head = assms(2) [unfolded request_fields_pseudo request_head_pseudo [OF this]]
  have "hm_get k ((''host'', authority_of h) # ?es) =
      (if lower k = lower ''host'' then Some (authority_of h)
       else if is_hop_by_hop k then None else hm_get k (rq_headers h))"
    by (simp add: hm_get_end_to_end)
  then show ?thesis unfolding head by simp
qed

theorem h3_request_head_roundtrip_witness:
  "hm_get ''Upgrade'' (rq_headers (request_head_from_headers (request_fields
      (empty_request_head\<lparr>rq_headers := [(''upgrade'', ''x''), (''A'', ''b'')]\<rparr>)))) = None"
proof -
  let ?h = "empty_request_head\<lparr>rq_headers := [(''upgrade'', ''x''), (''A'', ''b'')]\<rparr>"
  have "\<forall>e \<in> set (rq_headers ?h). \<not> pseudo (fst e)" by (simp add: pseudo_def)
  note h3_request_head_roundtrip [OF this refl, of "''Upgrade''"]
  moreover have "is_hop_by_hop ''Upgrade''" "lower ''Upgrade'' \<noteq> lower ''host''" by code_simp+
  ultimately show ?thesis by (simp only: if_True if_False)
qed


text \<open>C25: a response head carried over HTTP/3: the status code survives for every value of
  \<^verbatim>\<open>int\<close>, the fields are those of the original without the hop-by-hop ones, in order, and the
  reason phrase is dropped.\<close>

theorem h3_response_head_roundtrip:
  assumes "\<forall>e \<in> set (rs_headers h). \<not> pseudo (fst e)" "- (2 ^ 31) \<le> rs_status h" "rs_status h \<le> INT_MAX"
  shows "response_head_from_headers (response_fields h) =
     (let hs = filter (\<lambda>e. \<not> is_hop_by_hop (fst e)) (rs_headers h) in
      \<lparr>rs_status = rs_status h, rs_reason = [], rs_version = ''HTTP/3'', rs_headers = hs,
       rs_content_length = content_length_of hs\<rparr>)"
proof -
  have "\<forall>e \<in> set (filter (\<lambda>e. \<not> is_hop_by_hop (fst e)) (rs_headers h)). \<not> pseudo (fst e)"
    using assms(1) by simp
  note fold_response_field [OF this]
  then show ?thesis
    by (simp add: response_head_from_headers_def response_fields_def response_field_def Let_def
        empty_response_head_def strtol10_show_int [OF assms(2,3)] split: option.split)
qed

theorem h3_response_head_roundtrip_witness:
  "response_head_from_headers (response_fields
     \<lparr>rs_status = 200, rs_reason = ''OK'', rs_version = ''HTTP/1.1'',
      rs_headers = [(''Connection'', ''close''), (''a'', ''b'')], rs_content_length = None\<rparr>) =
   \<lparr>rs_status = 200, rs_reason = [], rs_version = ''HTTP/3'', rs_headers = [(''a'', ''b'')],
    rs_content_length = None\<rparr>"
proof -
  let ?h = "\<lparr>rs_status = 200, rs_reason = ''OK'', rs_version = ''HTTP/1.1'',
      rs_headers = [(''Connection'', ''close''), (''a'', ''b'')], rs_content_length = None\<rparr>"
  have "\<forall>e \<in> set (rs_headers ?h). \<not> pseudo (fst e)" "- (2 ^ 31) \<le> rs_status ?h" "rs_status ?h \<le> INT_MAX"
    by (simp_all add: pseudo_def)
  note h3_response_head_roundtrip [OF this]
  moreover have "is_hop_by_hop ''Connection''" "\<not> is_hop_by_hop ''a''"
    "content_length_of [(''a'', ''b'')] = None"
    by code_simp+
  ultimately show ?thesis by simp
qed

text \<open>C26: writing a message over HTTP/3.  On a stream that accepts the header block, one header list
  goes out with the pseudo fields first and no hop-by-hop field, then exactly the bytes the body
  source owes, and the stream's write side is finished before the callback fires.\<close>

theorem h3_write_response_complete:
  assumes "ts_hdr_ok dst = Some None" "writable dst" "h1_owes seen (b, src) content rest"
  shows "\<exists>src'. h3_write_response seen (Some sec) head (Some b) src dst =
      Fired (sec, src', dst\<lparr>ts_hdrs := ts_hdrs dst @ [response_fields head],
                           ts_out := ts_out dst @ content, ts_shut := True\<rparr>)
    \<and> in_bytes (ts_in src') = rest
    \<and> fst (hd (response_fields head)) = '':status''
    \<and> (\<forall>e \<in> set (response_fields head). \<not> is_hop_by_hop (fst e))"
proof -
  let ?dst = "dst\<lparr>ts_hdrs := ts_hdrs dst @ [response_fields head]\<rparr>"
  have "writable ?dst" using assms(2) by (simp add: writable_def)
  from h1_src.pump_content [OF assms(3) this] obtain b' src' where
    "pump_body (h1_body_read seen) (b, src) ?dst =
       Some (None, (b', src'), ?dst\<lparr>ts_out := ts_out ?dst @ content\<rparr>)" "in_bytes (ts_in src') = rest"
    by auto
  moreover have "\<not> is_hop_by_hop '':status''" by code_simp
  ultimately show ?thesis
    using assms(1)
    by (simp add: h3_write_response_def h3_write_def async_send_headers_def h3_finish_def
        response_fields_def)
qed

definition h3_sink :: tstream where
  "h3_sink = (fresh_stream [])\<lparr>ts_hdr_ok := Some None\<rparr>"

theorem h3_write_response_complete_witness:
  "\<exists>src'. h3_write_response (\<lambda>s c. c) (Some None) empty_response_head
        (Some (Basic (BufferBodySource ''hi'' 0))) (fresh_stream []) h3_sink =
      Fired (None, src', h3_sink\<lparr>ts_hdrs := ts_hdrs h3_sink @ [response_fields empty_response_head],
                           ts_out := ts_out h3_sink @ ''hi'', ts_shut := True\<rparr>)
    \<and> in_bytes (ts_in src') = []"
proof -
  have "ts_hdr_ok h3_sink = Some None" "writable h3_sink"
    "h1_owes (\<lambda>s c. c) (Basic (BufferBodySource ''hi'' 0), fresh_stream []) ''hi'' []"
    by (simp_all add: h3_sink_def fresh_stream_def writable_def)
  from h3_write_response_complete [OF this, of None empty_response_head] show ?thesis by blast
qed

text \<open>\<^verbatim>\<open>finish\<close> ignores the error it is given.  When the body source fails in the middle of
  a response (any error, any prefix already sent), the stream is still finished cleanly and the
  callback reports what the shutdown reported, so a truncated body is reported as success.\<close>

theorem h3_write_error_swallowed:
  assumes "ts_hdr_ok dst = Some None"
    and "pump_body (h1_body_read seen) (b, src) (dst\<lparr>ts_hdrs := ts_hdrs dst @ [response_fields head]\<rparr>) =
           Some (Some e, (b', src'), dst')"
  shows "h3_write_response seen (Some None) head (Some b) src dst = Fired (None, src', dst'\<lparr>ts_shut := True\<rparr>)"
  using assms by (simp add: h3_write_response_def h3_write_def async_send_headers_def h3_finish_def)

theorem h3_write_error_swallowed_witness:
  "\<exists>dst'. h3_write_response (\<lambda>s c. c) (Some None) empty_response_head
      (Some (Basic (StreamBodySource 5))) (fresh_stream [RdErr Connection_reset]) h3_sink =
    Fired (None, fresh_stream [], dst'\<lparr>ts_shut := True\<rparr>)"
proof -
  let ?dst = "h3_sink\<lparr>ts_hdrs := ts_hdrs h3_sink @ [response_fields empty_response_head]\<rparr>"
  have "ts_hdr_ok h3_sink = Some None" by (simp add: h3_sink_def)
  moreover have "pump_body (h1_body_read (\<lambda>s c. c))
      (Basic (StreamBodySource 5), fresh_stream [RdErr Connection_reset]) ?dst =
      Some (Some Connection_reset, (Basic (StreamBodySource 5), fresh_stream []), ?dst)"
    by (simp add: pump_body.simps stream_body_read_def async_read_some_def fresh_stream_def)
  ultimately show ?thesis using h3_write_error_swallowed by blast
qed

text \<open>On a stream that offers no decoded headers, none of the four operations fires its
  callback: the only call made is of the function object that was moved into the request.\<close>

theorem h3_unsupported_stream:
  assumes "ts_take s = None" "ts_hdr_ok s = None"
  shows "h3_parse_request s = Bad_function_call \<and> h3_parse_response s = Bad_function_call
    \<and> h3_write_request seen fin rq body src s = Bad_function_call
    \<and> h3_write_response seen fin rs body src s = Bad_function_call"
  using assms
  by (simp add: h3_parse_request_def h3_parse_response_def h3_parse_def async_take_headers_def
      h3_write_request_def h3_write_response_def h3_write_def async_send_headers_def)

theorem h3_unsupported_stream_witness:
  "h3_parse_request (fresh_stream []) = Bad_function_call"
  using h3_unsupported_stream [of "fresh_stream []"] by (simp add: fresh_stream_def)

end
