(* ===== verification/Quic_Client.thy ===== *)
theory Quic_Client
  imports Upstream_Pool Quic_Demux
begin

text \<open>
  The client-role QUIC engine of \<^verbatim>\<open>src/transport/quic_transport.cpp\<close> (\<^verbatim>\<open>QuicClientEngine\<close>): lazy start,
  connect with the choice of the socket by address family, the receive loops, the tick timer, sending
  with its retry, and its composition with the upstream pool that drives it.

  The answers of the resolver, the sockets and the QUIC library are arguments; the calls the engine
  makes into the library are recorded in \<open>cl_calls\<close>.  The state of whoever registered the session
  callback is passed through as a value of any type.
\<close>

section \<open>The engine\<close>

datatype lsquic_call =
    Lsq_connect sockaddr sockaddr string
  | Lsq_packet_in bytes sockaddr sockaddr
  | Lsq_process
  | Lsq_send_unsent

text \<open>\<open>cl_v6\<close> is the local endpoint of the IPv6 socket while it is open, \<open>cl_recv4\<close> and \<open>cl_recv6\<close> count the
  receives in flight, \<open>cl_tick\<close> is the delay of the pending timer wait and \<open>cl_due\<close> the number of waits that
  have expired and whose handler has not run.\<close>

record client =
  cl_engine :: bool
  cl_started :: bool
  cl_v4 :: udp_endpoint
  cl_v6 :: "udp_endpoint option"
  cl_recv4 :: nat
  cl_recv6 :: nat
  cl_tick :: "nat option"
  cl_due :: nat
  cl_armed4 :: bool
  cl_armed6 :: bool
  cl_ep :: backend_endpoint
  cl_sessions :: "(nat \<times> backend_endpoint) list"
  cl_calls :: "lsquic_call list"

definition new_client :: "udp_endpoint \<Rightarrow> client" where
  "new_client local4 = \<lparr>cl_engine = True, cl_started = False, cl_v4 = local4, cl_v6 = None,
     cl_recv4 = 0, cl_recv6 = 0, cl_tick = None, cl_due = 0, cl_armed4 = False, cl_armed6 = False,
     cl_ep = empty_endpoint, cl_sessions = [], cl_calls = []\<rparr>"

definition lsquic :: "lsquic_call \<Rightarrow> client \<Rightarrow> client" where
  "lsquic k c = c\<lparr>cl_calls := cl_calls c @ [k]\<rparr>"

definition client_do_recv :: "client \<Rightarrow> client" where
  "client_do_recv c = c\<lparr>cl_recv4 := cl_recv4 c + 1\<rparr>"

definition client_do_recv6 :: "client \<Rightarrow> client" where
  "client_do_recv6 c = c\<lparr>cl_recv6 := cl_recv6 c + 1\<rparr>"

text \<open>What \<^verbatim>\<open>lsquic_engine_earliest_adv_tick\<close> returns is the pair \<open>tk\<close>.  Setting the expiry cancels the
  wait in progress, whose handler returns at once.\<close>

type_synonym adv_tick = "32 word \<times> 32 word"

definition client_schedule_tick :: "adv_tick \<Rightarrow> client \<Rightarrow> client" where
  "client_schedule_tick tk c = (let (nxt, diff) = tk in c\<lparr>cl_tick := Some
     (if sint diff < 0 then 0 else if nxt = 0 \<or> unat diff > 500 then 500 else unat diff)\<rparr>)"

definition client_start :: "adv_tick \<Rightarrow> client \<Rightarrow> client" where
  "client_start tk c = client_schedule_tick tk (client_do_recv c)"

definition client_on_tick :: "error_code \<Rightarrow> adv_tick \<Rightarrow> client \<Rightarrow> client" where
  "client_on_tick ec tk c = (if ec \<noteq> None then c else client_schedule_tick tk (lsquic Lsq_process c))"

text \<open>\<open>bound\<close> is the local endpoint of a socket that could be opened and bound.\<close>

definition ensure_v6_socket :: "udp_endpoint option \<Rightarrow> client \<Rightarrow> bool \<times> client" where
  "ensure_v6_socket bound c =
     (if cl_v6 c \<noteq> None then (True, c)
      else case bound of
        None \<Rightarrow> (False, c)
      | Some l \<Rightarrow> (True, client_do_recv6 (c\<lparr>cl_v6 := Some l\<rparr>)))"

text \<open>The strings of a moved-from endpoint are taken to be empty; nothing reads them before the next
  connect assigns them.\<close>

definition client_on_new_conn ::
  "(nat \<Rightarrow> backend_endpoint \<Rightarrow> 'p \<Rightarrow> 'p) option \<Rightarrow> nat \<Rightarrow> client \<times> 'p \<Rightarrow> client \<times> 'p" where
  "client_on_new_conn new_session_cb conn = (\<lambda>(c, p).
     let ep = cl_ep c;
         c1 = c\<lparr>cl_ep := ep\<lparr>be_backend_id := [], be_host := []\<rparr>, cl_sessions := cl_sessions c @ [(conn, ep)]\<rparr> in
     (c1, case new_session_cb of None \<Rightarrow> p | Some cb \<Rightarrow> cb conn ep p))"

record connect_answers =
  ca_resolve_ec :: error_code
  ca_resolved :: "udp_endpoint list"
  ca_bound6 :: "udp_endpoint option"
  ca_conn :: "nat option"
  ca_tick_start :: adv_tick
  ca_tick :: adv_tick

definition is_v6 :: "udp_endpoint \<Rightarrow> bool" where
  "is_v6 e = (case ue_addr e of V4 _ \<Rightarrow> False | V6 _ \<Rightarrow> True)"

text \<open>The socket towards \<open>peer\<close>: its local endpoint, \<open>None\<close> when there is no socket of the peer's family.\<close>

definition client_socket :: "udp_endpoint option \<Rightarrow> udp_endpoint \<Rightarrow> client \<Rightarrow> udp_endpoint option \<times> client" where
  "client_socket bound peer c =
     (if is_v6 peer
      then (let (ok, c1) = ensure_v6_socket bound c in if ok then (cl_v6 c1, c1) else (None, c1))
      else (Some (cl_v4 c), c))"

definition client_engine_connect ::
  "connect_answers \<Rightarrow> (nat \<Rightarrow> backend_endpoint \<Rightarrow> 'p \<Rightarrow> 'p) option \<Rightarrow> backend_endpoint
     \<Rightarrow> sockaddr \<Rightarrow> sockaddr \<Rightarrow> client \<times> 'p \<Rightarrow> bool \<times> client \<times> 'p" where
  "client_engine_connect ans new_session_cb ep local_sa peer_sa = (\<lambda>(c, p).
     let c1 = lsquic (Lsq_connect local_sa peer_sa (be_host ep)) (c\<lparr>cl_ep := ep\<rparr>) in
     case ca_conn ans of
       None \<Rightarrow> (False, c1\<lparr>cl_ep := empty_endpoint\<rparr>, p)
     | Some conn \<Rightarrow>
         (let (c2, p2) = client_on_new_conn new_session_cb conn (c1, p) in
          (True, client_schedule_tick (ca_tick ans) (lsquic Lsq_process c2), p2)))"

definition client_connect ::
  "connect_answers \<Rightarrow> (nat \<Rightarrow> backend_endpoint \<Rightarrow> 'p \<Rightarrow> 'p) option \<Rightarrow> backend_endpoint
     \<Rightarrow> client \<times> 'p \<Rightarrow> bool \<times> client \<times> 'p" where
  "client_connect ans new_session_cb ep = (\<lambda>(c, p).
     if \<not> cl_engine c then (False, c, p)
     else (let c1 = (if cl_started c then c
                     else (client_start (ca_tick_start ans) c)\<lparr>cl_started := True\<rparr>) in
       if ca_resolve_ec ans \<noteq> None \<or> ca_resolved ans = [] then (False, c1, p)
       else (let peer = hd (ca_resolved ans); (sock, c2) = client_socket (ca_bound6 ans) peer c1 in
         case sock of
           None \<Rightarrow> (False, c2, p)
         | Some l \<Rightarrow> client_engine_connect ans new_session_cb ep (to_sockaddr l) (to_sockaddr peer) (c2, p))))"

text \<open>The completion of a receive; \<open>tk\<close> is what the library says after the packet was processed.\<close>

definition client_on_packet ::
  "error_code \<Rightarrow> bytes \<Rightarrow> udp_endpoint \<Rightarrow> adv_tick \<Rightarrow> bool \<Rightarrow> client \<Rightarrow> client" where
  "client_on_packet ec pkt from tk v6 c =
     (let rearm = (if v6 then client_do_recv6 else client_do_recv) in
      case ec of
        Some e \<Rightarrow>
          if e = Operation_aborted then c else if v6 \<longrightarrow> cl_v6 c \<noteq> None then rearm c else c
      | None \<Rightarrow>
          (let l = (if v6 then the (cl_v6 c) else cl_v4 c) in
           rearm (client_schedule_tick tk (lsquic Lsq_process
             (lsquic (Lsq_packet_in pkt (to_sockaddr l) (to_sockaddr from)) c)))))"

definition client_arm_write_watch :: "bool \<Rightarrow> client \<Rightarrow> client" where
  "client_arm_write_watch v6 c =
     (if v6 then (if cl_armed6 c \<or> cl_v6 c = None then c else c\<lparr>cl_armed6 := True\<rparr>)
      else (if cl_armed4 c then c else c\<lparr>cl_armed4 := True\<rparr>))"

definition client_arm_send_retry :: "client \<Rightarrow> client" where
  "client_arm_send_retry c = (let c1 = client_arm_write_watch False c in
     if cl_v6 c1 \<noteq> None then client_arm_write_watch True c1 else c1)"

text \<open>The completion of a write-watch; \<open>unsent\<close> says whether the library still has unsent packets.\<close>

definition client_write_ready :: "error_code \<Rightarrow> bool \<Rightarrow> bool \<Rightarrow> client \<Rightarrow> client" where
  "client_write_ready ec unsent v6 c =
     (let c1 = (if v6 then c\<lparr>cl_armed6 := False\<rparr> else c\<lparr>cl_armed4 := False\<rparr>) in
      if ec \<noteq> None then c1
      else (let c2 = (if cl_engine c1 then lsquic Lsq_send_unsent c1 else c1) in
            if cl_engine c2 \<and> unsent then client_arm_send_retry c2 else c2))"

text \<open>\<open>fd4\<close> and \<open>fd6\<close> are the descriptors of the sockets; there is none for IPv6 while that is closed.\<close>

definition client_packets_out :: "int \<Rightarrow> int \<Rightarrow> out_spec list \<Rightarrow> client \<Rightarrow> nat \<times> client" where
  "client_packets_out fd4 fd6 sps c =
     (let (sent, blocked, out) = send_specs fd4 (if cl_v6 c = None then -1 else fd6) sps in
      (sent, if blocked then client_arm_send_retry c else c))"

section \<open>The engine under the pool\<close>

text \<open>\<^verbatim>\<open>UpstreamPool::quic_connect_fresh\<close> with the engine's connect in place; the callback the pool
  registered is \<^verbatim>\<open>on_client_conn\<close>.\<close>

definition quic_connect_client ::
  "connect_answers \<Rightarrow> backend_endpoint \<Rightarrow> nat \<Rightarrow> client \<times> pool \<Rightarrow> client \<times> pool" where
  "quic_connect_client ans ep cb = (\<lambda>(c, p).
     if \<not> pl_engine p then (c, fire cb (Some Not_found) None ep False p)
     else (let (ok, c1, p1) = client_connect ans (Some (\<lambda>s _. on_client_conn s)) ep
                                (c, p\<lparr>pl_pending := Some (ep, cb)\<rparr>) in
           if ok then (c1, p1)
           else (c1, fire cb (Some Host_unreachable) None ep False (p1\<lparr>pl_pending := None\<rparr>))))"

text \<open>What the pool takes for granted of the engine, with an engine in state \<open>c\<close> and the answers \<open>ans\<close>.\<close>

definition client_env :: "(backend_endpoint \<Rightarrow> connect_answers) \<Rightarrow> client \<Rightarrow> pool_env \<Rightarrow> pool_env" where
  "client_env ans c env = env\<lparr>ev_quic_conn :=
     (\<lambda>ep. if fst (client_connect (ans ep) None ep (c, ())) then ca_conn (ans ep) else None)\<rparr>"

section \<open>Events\<close>

text \<open>The sockets are not closed while the engine lives, so no receive is aborted.\<close>

inductive client_step :: "client \<Rightarrow> client \<Rightarrow> bool" where
  cs_connect: "client_step c (fst (snd (client_connect ans None ep (c, ()))))"
| cs_recv4: "cl_recv4 c > 0 \<Longrightarrow> ec \<noteq> Some Operation_aborted
    \<Longrightarrow> client_step c (client_on_packet ec pkt from tk False (c\<lparr>cl_recv4 := cl_recv4 c - 1\<rparr>))"
| cs_recv6: "cl_recv6 c > 0 \<Longrightarrow> ec \<noteq> Some Operation_aborted
    \<Longrightarrow> client_step c (client_on_packet ec pkt from tk True (c\<lparr>cl_recv6 := cl_recv6 c - 1\<rparr>))"
| cs_expire: "cl_tick c = Some d \<Longrightarrow> client_step c (c\<lparr>cl_tick := None, cl_due := cl_due c + 1\<rparr>)"
| cs_tick: "cl_due c > 0 \<Longrightarrow> client_step c (client_on_tick None tk (c\<lparr>cl_due := cl_due c - 1\<rparr>))"
| cs_out: "client_step c (snd (client_packets_out fd4 fd6 sps c))"
| cs_ready4: "cl_armed4 c \<Longrightarrow> client_step c (client_write_ready ec unsent False c)"
| cs_ready6: "cl_armed6 c \<Longrightarrow> client_step c (client_write_ready ec unsent True c)"

definition client_inv :: "client \<Rightarrow> bool" where
  "client_inv c \<longleftrightarrow> cl_engine c
     \<and> cl_recv4 c = (if cl_started c then 1 else 0) \<and> cl_recv6 c = (if cl_v6 c \<noteq> None then 1 else 0)
     \<and> (cl_v6 c \<noteq> None \<longrightarrow> cl_started c) \<and> (cl_armed6 c \<longrightarrow> cl_v6 c \<noteq> None)
     \<and> (cl_started c \<longrightarrow> cl_tick c \<noteq> None \<or> cl_due c > 0)
     \<and> (\<forall>d. cl_tick c = Some d \<longrightarrow> d \<le> 500)"

lemmas client_simps = lsquic_def client_do_recv_def client_do_recv6_def client_start_def
  client_on_tick_def client_schedule_tick_def ensure_v6_socket_def client_socket_def

lemmas client_watch_simps = client_arm_write_watch_def client_arm_send_retry_def client_write_ready_def
  client_packets_out_def lsquic_def

section \<open>The invariant\<close>

lemma client_inv_new: "client_inv (new_client l)"
  by (simp add: client_inv_def new_client_def)

lemma client_inv_tick: "client_inv c \<Longrightarrow> client_inv (client_schedule_tick tk c)"
  by (auto simp: client_inv_def client_schedule_tick_def split: prod.splits)

lemma client_inv_lsquic [simp]: "client_inv (lsquic k c) = client_inv c"
  by (simp add: client_inv_def lsquic_def)

lemma client_inv_stash [simp]:
  "client_inv (c\<lparr>cl_ep := ep\<rparr>) = client_inv c" "client_inv (c\<lparr>cl_sessions := ss\<rparr>) = client_inv c"
  by (simp_all add: client_inv_def)

lemma client_inv_start:
  "client_inv c \<Longrightarrow> \<not> cl_started c \<Longrightarrow> client_inv ((client_start tk c)\<lparr>cl_started := True\<rparr>)"
  by (auto simp: client_inv_def client_simps split: prod.splits)

lemma client_inv_socket:
  "client_inv c \<Longrightarrow> cl_started c \<Longrightarrow> client_socket bound peer c = (sock, c') \<Longrightarrow> client_inv c'"
  by (auto simp: client_inv_def client_simps split: if_splits option.splits; metis)

lemma client_inv_engine_connect:
  "client_inv c \<Longrightarrow> client_engine_connect ans ncb ep l pr (c, p) = (ok, c', p') \<Longrightarrow> client_inv c'"
  by (auto simp: client_engine_connect_def client_on_new_conn_def Let_def client_inv_tick split: option.splits)

lemma client_inv_connect:
  assumes "client_inv c" "client_connect ans ncb ep (c, p) = (ok, c', p')"
  shows "client_inv c'"
proof -
  define c1 where "c1 = (if cl_started c then c else (client_start (ca_tick_start ans) c)\<lparr>cl_started := True\<rparr>)"
  have c1: "client_inv c1" "cl_started c1" using assms(1) by (auto simp: c1_def client_inv_start)
  have "cl_engine c" using assms(1) by (simp add: client_inv_def)
  with assms(2) c1 show ?thesis
    by (auto simp: client_connect_def Let_def c1_def [symmetric] split: if_splits prod.splits option.splits
        dest: client_inv_socket client_inv_engine_connect)
qed

lemma client_inv_retry: "client_inv c \<Longrightarrow> client_inv (client_arm_send_retry c)"
  by (auto simp: client_inv_def client_watch_simps Let_def)

lemma client_inv_ready: "client_inv c \<Longrightarrow> client_inv (client_write_ready ec unsent v6 c)"
  by (auto simp: client_inv_def client_watch_simps Let_def)

lemma client_inv_packet:
  assumes "client_inv c" "ec \<noteq> Some Operation_aborted" "if v6 then 0 < cl_recv6 c else 0 < cl_recv4 c"
  shows "client_inv (client_on_packet ec pkt from tk v6
    (if v6 then c\<lparr>cl_recv6 := cl_recv6 c - 1\<rparr> else c\<lparr>cl_recv4 := cl_recv4 c - 1\<rparr>))"
  using assms
  by (auto simp: client_on_packet_def client_inv_def client_simps Let_def split: if_splits option.splits prod.splits)

lemma client_inv_on_tick:
  "client_inv c \<Longrightarrow> client_inv (client_on_tick None tk (c\<lparr>cl_due := cl_due c - 1\<rparr>))"
  by (auto simp: client_inv_def client_simps split: prod.splits)

lemma client_inv_step:
  assumes "client_step c c'" "client_inv c"
  shows "client_inv c'"
  using assms
proof cases
  case (cs_connect ans ep)
  then show ?thesis
    using client_inv_connect [OF assms(2)] by (metis prod.collapse)
next
  case (cs_recv4 ec pkt src tk)
  then show ?thesis using client_inv_packet [OF assms(2), of ec False] by simp
next
  case (cs_recv6 ec pkt src tk)
  then show ?thesis using client_inv_packet [OF assms(2), of ec True] by simp
next
  case (cs_expire d)
  then show ?thesis using assms(2) by (simp add: client_inv_def)
next
  case (cs_out fd4 fd6 sps)
  then show ?thesis
    using assms(2) by (auto simp: client_packets_out_def client_inv_retry split: prod.splits)
next
  case (cs_tick tk)
  then show ?thesis using client_inv_on_tick [OF assms(2)] by simp
qed (use assms(2) in \<open>simp_all add: client_inv_ready\<close>)

definition client_init :: "client \<Rightarrow> bool" where
  "client_init c \<longleftrightarrow> (\<exists>l. c = new_client l)"

interpretation client_sys: step_system client_init client_step client_inv
  by unfold_locales (auto simp: client_init_def client_inv_new intro: client_inv_step)

section \<open>Properties\<close>

text \<open>C20: the client engine never goes deaf.  In every reachable state one receive is in flight on each open
  socket once the engine has started and none before, and a started engine has a timer wait of at most
  half a second pending or an expired one about to run.\<close>

theorem client_never_deaf:
  assumes "reachable client_init client_step c"
  shows "cl_recv4 c = (if cl_started c then 1 else 0) \<and> cl_recv6 c = (if cl_v6 c \<noteq> None then 1 else 0)
    \<and> (cl_started c \<longrightarrow> 0 < cl_due c \<or> (\<exists>d \<le> 500. cl_tick c = Some d))"
proof -
  have "client_inv c" by (rule client_sys.reachable_inv [OF assms])
  then show ?thesis by (auto simp: client_inv_def)
qed

definition ex_answers :: connect_answers where
  "ex_answers = \<lparr>ca_resolve_ec = None, ca_resolved = [\<lparr>ue_addr = V6 (replicate 16 1), ue_port = 443\<rparr>],
     ca_bound6 = Some \<lparr>ue_addr = V6 (replicate 16 0), ue_port = 50001\<rparr>, ca_conn = Some 7,
     ca_tick_start = (0, 0), ca_tick = (1, 20)\<rparr>"

definition ex_client :: client where
  "ex_client = fst (snd (client_connect ex_answers None empty_endpoint
     (new_client \<lparr>ue_addr = V4 [0, 0, 0, 0], ue_port = 50000\<rparr>, ())))"

lemma ex_client_reachable: "reachable client_init client_step ex_client"
  unfolding ex_client_def
proof (rule reach_step)
  show "reachable client_init client_step (new_client \<lparr>ue_addr = V4 [0, 0, 0, 0], ue_port = 50000\<rparr>)"
    by (rule reach_init) (auto simp: client_init_def)
qed (rule cs_connect)

theorem client_never_deaf_witness:
  "cl_recv4 ex_client = 1 \<and> cl_recv6 ex_client = 1 \<and> cl_tick ex_client = Some 20"
proof -
  have "cl_started ex_client" "cl_v6 ex_client \<noteq> None" "cl_tick ex_client = Some 20"
    by code_simp+
  with client_never_deaf [OF ex_client_reachable] show ?thesis by simp
qed

text \<open>A connect does the same to the engine whoever listens, and tells the listener of the new session
  exactly when it succeeds.\<close>

lemma client_connect_listener:
  "client_connect ans ncb ep (c, p) =
     (let (ok, c', u) = client_connect ans None ep (c, ()) in
      (ok, c', if ok then (case ncb of None \<Rightarrow> p | Some cb \<Rightarrow> cb (the (ca_conn ans)) ep p) else p))"
  by (auto simp: client_connect_def client_engine_connect_def client_on_new_conn_def lsquic_def Let_def
      split: option.splits prod.splits)

lemma client_connect_conn: "fst (client_connect ans ncb ep (c, p)) \<Longrightarrow> ca_conn ans \<noteq> None"
  by (auto simp: client_connect_def client_engine_connect_def Let_def split: if_splits option.splits prod.splits)

text \<open>C19: the engine is what the pool takes it for.  A fresh QUIC connect of the pool on top of the engine's
  own connect, which calls the pool back while it runs, leaves the pool as the pool's model does with the
  engine as its environment: on success the session is opened for the endpoint the caller asked for, on
  every failure the caller is answered once with \<^verbatim>\<open>host_unreachable\<close>.  The session is created for
  the endpoint passed to connect.\<close>

theorem client_refines_pool_env:
  "snd (quic_connect_client (ans ep) ep cb (c, p)) = quic_connect_fresh (client_env ans c env) ep cb p
    \<and> cl_sessions (fst (quic_connect_client (ans ep) ep cb (c, p))) = cl_sessions c
        @ (if pl_engine p then (case ev_quic_conn (client_env ans c env) ep of None \<Rightarrow> [] | Some s \<Rightarrow> [(s, ep)]) else [])"
proof -
  obtain ok c' where r: "client_connect (ans ep) None ep (c, ()) = (ok, c', ())"
    by (metis prod.collapse unit.exhaust)
  have conn: "ca_conn (ans ep) \<noteq> None" if ok using client_connect_conn [of "ans ep" None ep c "()"] r that by simp
  have "cl_sessions c' = cl_sessions c @ (if ok then [(the (ca_conn (ans ep)), ep)] else [])"
    using r by (auto simp: client_connect_def client_engine_connect_def client_on_new_conn_def client_simps Let_def
        split: if_splits option.splits prod.splits)
  with r conn show ?thesis
    by (auto simp: quic_connect_client_def quic_connect_fresh_def client_env_def
        client_connect_listener [of "ans ep" "Some cb'" for cb'] Let_def split: option.splits)
qed

text \<open>Connecting uses the socket of the peer's family.  The library is asked to connect exactly when the
  engine exists, the name resolves and there is a socket of the family of the first address it resolves
  to, from that socket's address; the IPv6 socket is opened at the first need and kept.\<close>

lemma client_connect_family:
  assumes "client_connect ans ncb ep (c, p) = (ok, c', p')" "cl_engine c"
    and "ca_resolve_ec ans = None" "ca_resolved ans = peer # rest"
  shows "(Lsq_connect l r h \<in> set (cl_calls c') - set (cl_calls c) \<longrightarrow>
      h = be_host ep \<and> r = to_sockaddr peer
      \<and> l = to_sockaddr (if is_v6 peer then the (cl_v6 c') else cl_v4 c) \<and> (is_v6 peer \<longrightarrow> cl_v6 c' \<noteq> None))
    \<and> (ok \<longleftrightarrow> ca_conn ans \<noteq> None \<and> (is_v6 peer \<longrightarrow> cl_v6 c \<noteq> None \<or> ca_bound6 ans \<noteq> None))
    \<and> (cl_v6 c \<noteq> None \<longrightarrow> cl_v6 c' = cl_v6 c)"
  using assms
  by (auto simp: client_connect_def client_engine_connect_def client_on_new_conn_def client_simps Let_def
      split: if_splits option.splits prod.splits)

end
