(* ===== verification/Quic_Ingress.thy ===== *)
theory Quic_Ingress
  imports Quic_Client
begin

text \<open>
  The drive loop of the server-role QUIC engine of \<^verbatim>\<open>src/transport/quic_transport.cpp\<close>
  (\<^verbatim>\<open>QuicServerEngine\<close>: start, tick, packet delivery, flush), its composition with the demultiplexer through
  the jobs posted to the worker threads, and the steering check \<^verbatim>\<open>ebpf/steer_loader.c\<close>.
\<close>

section \<open>The drive loop of the server engine\<close>

record server_engine =
  se_engine :: bool
  se_tick :: "nat option"
  se_calls :: "lsquic_call list"

definition new_server_engine :: server_engine where
  "new_server_engine = \<lparr>se_engine = True, se_tick = None, se_calls = []\<rparr>"

definition se_call :: "lsquic_call \<Rightarrow> server_engine \<Rightarrow> server_engine" where
  "se_call k e = e\<lparr>se_calls := se_calls e @ [k]\<rparr>"

definition se_schedule :: "adv_tick \<Rightarrow> server_engine \<Rightarrow> server_engine" where
  "se_schedule tk e = e\<lparr>se_tick := Some (schedule_tick (fst tk) (snd tk))\<rparr>"

definition se_start :: "adv_tick \<Rightarrow> server_engine \<Rightarrow> server_engine" where
  "se_start tk e = se_schedule tk e"

definition se_on_tick :: "error_code \<Rightarrow> adv_tick \<Rightarrow> server_engine \<Rightarrow> server_engine" where
  "se_on_tick ec tk e = (if ec \<noteq> None then e else se_schedule tk (se_call Lsq_process e))"

definition deliver_packet :: "adv_tick \<Rightarrow> bytes \<Rightarrow> sockaddr \<Rightarrow> sockaddr \<Rightarrow> server_engine \<Rightarrow> server_engine" where
  "deliver_packet tk buf local_sa peer_sa e =
     se_schedule tk (se_call Lsq_process (se_call (Lsq_packet_in buf local_sa peer_sa) e))"

definition flush_unsent_packets :: "server_engine \<Rightarrow> server_engine" where
  "flush_unsent_packets e = (if se_engine e then se_call Lsq_send_unsent e else e)"

section \<open>Demultiplexer and engines\<close>

datatype worker_job = J_packet bytes sockaddr sockaddr | J_flush

definition run_worker_job :: "adv_tick \<Rightarrow> worker_job \<Rightarrow> server_engine \<Rightarrow> server_engine" where
  "run_worker_job tk j = (case j of
       J_packet buf local_sa peer_sa \<Rightarrow> deliver_packet tk buf local_sa peer_sa
     | J_flush \<Rightarrow> flush_unsent_packets)"

record ingress =
  ig_demux :: demux
  ig_jobs :: "worker_job list list"
  ig_engines :: "server_engine list"

definition start_ingress :: "adv_tick \<Rightarrow> demux \<Rightarrow> ingress" where
  "start_ingress tk d = \<lparr>ig_demux = demux_start d, ig_jobs = replicate (dx_workers d) [],
     ig_engines = replicate (dx_workers d) (se_start tk new_server_engine)\<rparr>"

definition post_job :: "nat \<Rightarrow> worker_job \<Rightarrow> worker_job list list \<Rightarrow> worker_job list list" where
  "post_job w j qs = (if w < length qs then qs[w := qs ! w @ [j]] else qs)"

text \<open>Datagrams arrive, the socket becomes writable, worker \<open>w\<close> runs its oldest job or its timer.\<close>

datatype ingress_event =
    I_datagram bytes udp_endpoint bool
  | I_recv_error asio_error bool
  | I_writable error_code bool
  | I_run nat adv_tick
  | I_tick nat adv_tick

definition ingress_step ::
  "(bytes \<Rightarrow> int \<times> nat) \<Rightarrow> sockaddr \<Rightarrow> sockaddr \<Rightarrow> ingress_event \<Rightarrow> ingress \<Rightarrow> ingress option" where
  "ingress_step dcid local4 local6 ev s = (let d = ig_demux s in case ev of
       I_datagram buf ep v6 \<Rightarrow>
         if (if v6 then dx_recv6 d else dx_recv4 d) = 0 then None
         else (let d' = received dcid None buf ep v6 d in
           Some (s\<lparr>ig_demux := d', ig_jobs :=
             fold (\<lambda>(w, pkt, peer). post_job w (J_packet pkt (if v6 then local6 else local4) peer))
               (drop (length (dx_posted d)) (dx_posted d')) (ig_jobs s)\<rparr>))
     | I_recv_error e v6 \<Rightarrow>
         if (if v6 then dx_recv6 d else dx_recv4 d) = 0 then None
         else Some (s\<lparr>ig_demux := received dcid (Some e) [] \<lparr>ue_addr = V4 [], ue_port = 0\<rparr> v6 d\<rparr>)
     | I_writable ec v6 \<Rightarrow>
         if \<not> (if v6 then dx_armed6 d else dx_armed4 d) then None
         else (let d' = write_ready ec v6 d in
           Some (s\<lparr>ig_demux := d', ig_jobs := (if ec = None then map (\<lambda>q. q @ [J_flush]) (ig_jobs s) else ig_jobs s)\<rparr>))
     | I_run w tk \<Rightarrow>
         (if w < length (ig_jobs s) then (case ig_jobs s ! w of
            [] \<Rightarrow> None
          | j # js \<Rightarrow> Some (s\<lparr>ig_jobs := (ig_jobs s)[w := js],
              ig_engines := (ig_engines s)[w := run_worker_job tk j (ig_engines s ! w)]\<rparr>))
          else None)
     | I_tick w tk \<Rightarrow>
         (if w < length (ig_engines s) \<and> se_tick (ig_engines s ! w) \<noteq> None
          then Some (s\<lparr>ig_engines := (ig_engines s)[w := se_on_tick None tk (ig_engines s ! w)]\<rparr>)
          else None))"

fun ingress_run ::
  "(bytes \<Rightarrow> int \<times> nat) \<Rightarrow> sockaddr \<Rightarrow> sockaddr \<Rightarrow> ingress_event list \<Rightarrow> ingress \<Rightarrow> ingress option" where
  "ingress_run dcid l4 l6 [] s = Some s"
| "ingress_run dcid l4 l6 (ev # evs) s = (case ingress_step dcid l4 l6 ev s of
      None \<Rightarrow> None
    | Some s' \<Rightarrow> ingress_run dcid l4 l6 evs s')"

text \<open>What a run delivers: the packets handed to an engine, those still posted, and those that arrived.\<close>

definition packet_of :: "lsquic_call \<Rightarrow> (bytes \<times> sockaddr \<times> sockaddr) option" where
  "packet_of k = (case k of Lsq_packet_in b l p \<Rightarrow> Some (b, l, p) | _ \<Rightarrow> None)"

definition job_packet :: "worker_job \<Rightarrow> (bytes \<times> sockaddr \<times> sockaddr) option" where
  "job_packet j = (case j of J_packet b l p \<Rightarrow> Some (b, l, p) | J_flush \<Rightarrow> None)"

definition engine_packets :: "server_engine \<Rightarrow> (bytes \<times> sockaddr \<times> sockaddr) list" where
  "engine_packets e = List.map_filter packet_of (se_calls e)"

definition queued_packets :: "worker_job list \<Rightarrow> (bytes \<times> sockaddr \<times> sockaddr) list" where
  "queued_packets js = List.map_filter job_packet js"

definition arrived ::
  "(bytes \<Rightarrow> bool) \<Rightarrow> sockaddr \<Rightarrow> sockaddr \<Rightarrow> ingress_event list \<Rightarrow> (bytes \<times> sockaddr \<times> sockaddr) list" where
  "arrived P l4 l6 evs = List.map_filter (\<lambda>ev. case ev of
       I_datagram buf ep v6 \<Rightarrow> if P buf then Some (buf, if v6 then l6 else l4, to_sockaddr ep) else None
     | _ \<Rightarrow> None) evs"

section \<open>The steering check\<close>

text \<open>The two classic BPF instructions of \<^verbatim>\<open>steer_loader.c\<close>.  A load outside the packet ends the filter with
  the value 0, as documented for such filters.\<close>

datatype sock_filter = LD_B_ABS nat | RET_A

fun run_filter :: "sock_filter list \<Rightarrow> bytes \<Rightarrow> nat \<Rightarrow> nat" where
  "run_filter [] view a = 0"
| "run_filter (LD_B_ABS k # code) view a = (case peek view k of None \<Rightarrow> 0 | Some b \<Rightarrow> run_filter code view (unat b))"
| "run_filter (RET_A # code) view a = a"

definition steer_code :: "sock_filter list" where
  "steer_code = [LD_B_ABS (8 + 1), RET_A]"

definition probe :: "8 word \<Rightarrow> bytes" where
  "probe rb = [0x43, rb, 0x11, 0x22, 0x33, 0x44,
     0x55, 0x66, 0x77, 0x88, 1, 2, 3, 4, 5, 6]"

text \<open>The socket of a group of \<open>n\<close> that gets a datagram behind the UDP header \<open>udp\<close>: the one the filter
  selects, or the one the kernel's hash selects when the filter's value is no index of the group.\<close>

definition reuseport_select :: "(bytes \<Rightarrow> nat) \<Rightarrow> nat \<Rightarrow> bytes \<Rightarrow> bytes \<Rightarrow> nat" where
  "reuseport_select hash n udp pkt =
     (let i = run_filter steer_code (udp @ pkt) 0 in if i < n then i else hash (udp @ pkt) mod n)"

definition probes :: "bytes list" where
  "probes = concat (map (\<lambda>rb. replicate 5 (probe (word_of_nat rb))) [0 ..< N_WORKERS])"

text \<open>\<open>udp\<close> is the UDP header of the probes, \<open>attached\<close> says whether the filter could be attached; a
  datagram sent to the loopback address is taken to arrive.  The result is
  the counts per socket and the exit code.\<close>

definition steer_check :: "(bytes \<Rightarrow> nat) \<Rightarrow> bytes \<Rightarrow> bool \<Rightarrow> nat list \<times> int" where
  "steer_check hash udp attached =
     (if \<not> attached then ([], 1)
      else (let counts = fold (\<lambda>pkt cs. let i = reuseport_select hash N_WORKERS udp pkt in cs[i := cs ! i + 1])
                           probes (replicate N_WORKERS 0) in
            (counts, if list_all (\<lambda>c. c = 5) counts then 0 else 1)))"

text \<open>A socket of the group; the exit code when \<^verbatim>\<open>socket\<close> or \<^verbatim>\<open>bind\<close> fails.  \<open>address\<close> is what it is bound to.\<close>

definition group_address :: "int \<Rightarrow> sockaddr" where
  "group_address port = \<lparr>sa_fam = AF_INET, sa_port = htons (word_of_int port), sa_addr = [0, 0, 0, 0]\<rparr>"

definition make_group_socket :: "int \<Rightarrow> (int \<Rightarrow> sockaddr \<Rightarrow> int) \<Rightarrow> int \<Rightarrow> int + int" where
  "make_group_socket fd bnd port =
     (if fd < 0 then Inl 1 else if bnd fd (group_address port) < 0 then Inl 1 else Inr fd)"

fun make_group :: "int list \<Rightarrow> (int \<Rightarrow> sockaddr \<Rightarrow> int) \<Rightarrow> int \<Rightarrow> int + int list" where
  "make_group [] bnd port = Inr []"
| "make_group (fd # fds) bnd port = (case make_group_socket fd bnd port of
      Inl rc \<Rightarrow> Inl rc
    | Inr fd' \<Rightarrow> (case make_group fds bnd port of Inl rc \<Rightarrow> Inl rc | Inr fds' \<Rightarrow> Inr (fd' # fds')))"

text \<open>The program: \<open>fds\<close> are the answers of \<^verbatim>\<open>socket\<close>, \<open>attach\<close> the answer for the first descriptor.\<close>

definition steer_main ::
  "(bytes \<Rightarrow> nat) \<Rightarrow> bytes \<Rightarrow> int list \<Rightarrow> (int \<Rightarrow> sockaddr \<Rightarrow> int) \<Rightarrow> (int \<Rightarrow> int) \<Rightarrow> string list \<Rightarrow> int" where
  "steer_main hash udp fds bnd attach argv =
     (let port = (if length argv > 1 then strtol10 (argv ! 1) else 9477) in
      case make_group (take N_WORKERS fds) bnd port of
        Inl rc \<Rightarrow> rc
      | Inr socks \<Rightarrow> snd (steer_check hash udp (attach (hd socks) \<ge> 0)))"

section \<open>Delivery\<close>

lemma route_same:
  "dx_workers d = dx_workers d' \<Longrightarrow> dx_cids d = dx_cids d' \<Longrightarrow> route_packet dcid buf d = route_packet dcid buf d'"
  by (simp add: route_packet_def route_cid_def split: prod.splits option.splits)

lemma received_frame [simp]:
  "dx_workers (received dcid ec buf ep v6 d) = dx_workers d"
  "dx_cids (received dcid ec buf ep v6 d) = dx_cids d"
  by (simp_all add: received_def on_packet_def do_recv_def Let_def split: option.splits)

lemma received_posted:
  "dx_posted (received dcid None buf ep v6 d) = dx_posted d @
     (let w = route_packet dcid buf d in
      if w < 0 \<or> w \<ge> int (dx_workers d) then [] else [(nat w, buf, to_sockaddr ep)])"
  by (simp add: received_def on_packet_def do_recv_def Let_def)

lemma write_ready_frame [simp]:
  "dx_workers (write_ready ec v6 d) = dx_workers d" "dx_cids (write_ready ec v6 d) = dx_cids d"
  by (simp_all add: write_ready_def Let_def)

lemma queued_packets_simps [simp]:
  "queued_packets [] = []" "queued_packets (J_flush # js) = queued_packets js"
  "queued_packets (J_packet b l p # js) = (b, l, p) # queued_packets js"
  "queued_packets (js @ js') = queued_packets js @ queued_packets js'"
  by (simp_all add: queued_packets_def job_packet_def map_filter_def)

lemma engine_packets_simps [simp]:
  "engine_packets (se_schedule tk e) = engine_packets e"
  "engine_packets (se_call Lsq_process e) = engine_packets e"
  "engine_packets (se_call Lsq_send_unsent e) = engine_packets e"
  "engine_packets (se_call (Lsq_packet_in b l p) e) = engine_packets e @ [(b, l, p)]"
  by (simp_all add: engine_packets_def packet_of_def se_schedule_def se_call_def map_filter_def)

lemma run_worker_job_packets:
  "engine_packets (run_worker_job tk j e) = engine_packets e @ queued_packets [j]"
  by (cases j) (simp_all add: run_worker_job_def deliver_packet_def flush_unsent_packets_def)

lemma arrived_simps:
  "arrived P l4 l6 [] = []" "arrived P l4 l6 (ev # evs) = arrived P l4 l6 [ev] @ arrived P l4 l6 evs"
  by (simp_all add: arrived_def map_filter_def)

definition ingress_ok :: "demux \<Rightarrow> ingress \<Rightarrow> bool" where
  "ingress_ok d s \<longleftrightarrow> dx_workers (ig_demux s) = dx_workers d \<and> dx_cids (ig_demux s) = dx_cids d
     \<and> length (ig_jobs s) = dx_workers d \<and> length (ig_engines s) = dx_workers d"

definition delivered :: "nat \<Rightarrow> ingress \<Rightarrow> (bytes \<times> sockaddr \<times> sockaddr) list" where
  "delivered w s = engine_packets (ig_engines s ! w) @ queued_packets (ig_jobs s ! w)"

lemma ingress_ok_step: "ingress_step dcid l4 l6 ev s = Some s' \<Longrightarrow> ingress_ok d s \<Longrightarrow> ingress_ok d s'"
  by (cases ev) (auto simp: ingress_step_def ingress_ok_def received_posted post_job_def Let_def
      split: if_splits list.splits)

lemma delivered_datagram:
  assumes "ingress_step dcid l4 l6 (I_datagram buf ep v6) s = Some s'" "ingress_ok d s" "w < dx_workers d"
  shows "delivered w s' = delivered w s @ arrived (\<lambda>buf. route_packet dcid buf d = int w) l4 l6 [I_datagram buf ep v6]"
proof -
  have "route_packet dcid buf (ig_demux s) = route_packet dcid buf d"
    using assms(2) by (intro route_same) (simp_all add: ingress_ok_def)
  with assms show ?thesis
    by (auto simp: ingress_step_def ingress_ok_def received_posted post_job_def delivered_def arrived_def
        map_filter_def nth_list_update Let_def split: if_splits)
qed

lemma delivered_step:
  assumes "ingress_step dcid l4 l6 ev s = Some s'" "ingress_ok d s" "w < dx_workers d"
  shows "delivered w s' = delivered w s @ arrived (\<lambda>buf. route_packet dcid buf d = int w) l4 l6 [ev]"
proof (cases ev)
  case (I_datagram buf ep v6)
  with assms show ?thesis using delivered_datagram by blast
next
  case (I_run v tk)
  with assms show ?thesis
    by (auto simp: ingress_step_def ingress_ok_def delivered_def arrived_def map_filter_def nth_list_update
        run_worker_job_packets Let_def split: if_splits list.splits)
       (metis append_Cons append_Nil queued_packets_simps(4))
next
  case (I_tick v tk)
  with assms show ?thesis
    by (auto simp: ingress_step_def ingress_ok_def delivered_def arrived_def map_filter_def nth_list_update
        se_on_tick_def Let_def split: if_splits)
qed (use assms in \<open>auto simp: ingress_step_def ingress_ok_def delivered_def arrived_def map_filter_def Let_def
       split: if_splits\<close>)

lemma delivered_run:
  assumes "ingress_run dcid l4 l6 evs s = Some s'" "ingress_ok d s" "w < dx_workers d"
  shows "delivered w s' = delivered w s @ arrived (\<lambda>buf. route_packet dcid buf d = int w) l4 l6 evs"
  using assms
proof (induction evs arbitrary: s)
  case (Cons ev evs)
  from Cons.prems(1) obtain t where t: "ingress_step dcid l4 l6 ev s = Some t" "ingress_run dcid l4 l6 evs t = Some s'"
    by (auto split: option.splits)
  from Cons.IH [OF t(2) ingress_ok_step [OF t(1) Cons.prems(2)] Cons.prems(3)]
    delivered_step [OF t(1) Cons.prems(2,3)]
  show ?case by (simp add: arrived_simps(2) [of _ _ _ ev evs])
qed (simp add: arrived_simps)

section \<open>Properties\<close>


definition ex_local :: sockaddr where
  "ex_local = to_sockaddr \<lparr>ue_addr = V4 [127, 0, 0, 1], ue_port = 443\<rparr>"


text \<open>The steering check succeeds exactly on its own terms.  Whatever the UDP header and the kernel's
  hash, the filter sends each probe to the socket its routing byte names, so every socket counts its five
  probes and the check exits with 0.\<close>

lemma steer_check_ok:
  assumes "length udp = 8"
  shows "steer_check hash udp True = ([5, 5, 5, 5], 0)"
proof -
  have sel: "reuseport_select hash 4 udp (probe rb) = unat rb" if "unat rb < 4" for rb
    using assms that by (simp add: reuseport_select_def steer_code_def probe_def peek_def nth_append)
  have sels: "reuseport_select hash 4 udp (probe 0) = 0" "reuseport_select hash 4 udp (probe 1) = Suc 0"
    "reuseport_select hash 4 udp (probe 2) = Suc (Suc 0)" "reuseport_select hash 4 udp (probe 3) = Suc (Suc (Suc 0))"
    by (simp_all add: sel)
  have rep: "replicate 5 x = [x, x, x, x, x]" "replicate 4 y = [y, y, y, y]" for x :: bytes and y :: nat
    by (simp_all add: numeral_eq_Suc)
  have probes: "probes = replicate 5 (probe 0) @ replicate 5 (probe 1) @ replicate 5 (probe 2) @ replicate 5 (probe 3)"
    by (simp add: probes_def N_WORKERS_def upt_rec)
  show ?thesis
    by (simp add: steer_check_def N_WORKERS_def probes rep sels Let_def)
qed

lemma make_group_all:
  "(\<forall>fd \<in> set fds. 0 \<le> fd \<and> 0 \<le> bnd fd (group_address port)) \<Longrightarrow> make_group fds bnd port = Inr fds"
  by (induction fds) (auto simp: make_group_socket_def)

text \<open>The check succeeds when its sockets can be set up and the filter attached; otherwise it exits with 1.\<close>

lemma steer_main_ok:
  assumes "length udp = 8" "length fds = N_WORKERS"
    and "\<forall>fd \<in> set fds. 0 \<le> fd \<and> (\<forall>sa. 0 \<le> bnd fd sa)" "0 \<le> attach (hd fds)"
  shows "steer_main hash udp fds bnd attach argv = 0"
proof -
  have "make_group fds bnd port = Inr fds" for port using assms(3) by (auto intro: make_group_all)
  with assms(2,4) steer_check_ok [OF assms(1)] show ?thesis by (simp add: steer_main_def Let_def)
qed

lemma steer_main_fails:
  assumes "fd \<in> set (take N_WORKERS fds)" "fd < 0"
  shows "steer_main hash udp fds bnd attach argv = 1"
proof -
  have "make_group xs bnd port = Inl 1" if "fd \<in> set xs" for xs port
    using that assms(2) by (induction xs) (auto simp: make_group_socket_def split: sum.split)
  with assms(1) show ?thesis by (simp add: steer_main_def Let_def)
qed

text \<open>The filter of the check looks at the second byte of a packet, which for a short header is the first byte
  of the connection ID: there it agrees with the demultiplexer.  In a long header that byte belongs to the
  version, so every packet of version 1 goes to the first worker.\<close>

lemma cbpf_short_and_long:
  assumes "parses_dcid dcid" "dx_workers d = 4" "dx_cids d = Map.empty" "length udp = 8"
    and "9 \<le> length pkt"
  shows "(pkt ! 0) AND 0x80 = 0 \<and> unat (pkt ! 1) < 4 \<Longrightarrow> int (reuseport_select hash 4 udp pkt) = route_packet dcid pkt d"
    and "pkt ! 1 = 0 \<Longrightarrow> reuseport_select hash 4 udp pkt = 0"
proof -
  have f: "run_filter steer_code (udp @ pkt) 0 = unat (pkt ! 1)"
    using assms(4,5) by (simp add: steer_code_def peek_def nth_append)
  show "int (reuseport_select hash 4 udp pkt) = route_packet dcid pkt d" if "(pkt ! 0) AND 0x80 = 0 \<and> unat (pkt ! 1) < 4"
    using that f assms(1-3,5) by (simp add: reuseport_select_def parses_dcid_def route_packet_def route_cid_def)
  show "reuseport_select hash 4 udp pkt = 0" if "pkt ! 1 = 0"
    using that f by (simp add: reuseport_select_def)
qed

end
