(* ===== verification/Quic_Glue.thy ===== *)
theory Quic_Glue
  imports Quic_Ingress Quic_Stream
begin

text \<open>
  Construction and callbacks of the QUIC engines in \<^verbatim>\<open>src/transport/quic_transport.cpp\<close>: the one-time
  initialisation, the TLS contexts, the settings of the engines, and the table of callbacks through which the QUIC
  library drives sessions and streams.

  The answers of the TLS and QUIC libraries are arguments.  An exception is \<open>None\<close>.  A library's connection or stream
  is a number; the context the library stores for it is the wrapper of \<open>Quic_Stream\<close>, or \<open>None\<close> for a null pointer.
\<close>

section \<open>Initialisation and TLS contexts\<close>

record tls_lib =
  tl_global_init :: int
  tl_ctx_new :: bool
  tl_use_cert :: "string \<Rightarrow> int"
  tl_use_key :: "string \<Rightarrow> int"

record ssl_ctx =
  sc_cert :: "string option"
  sc_key :: "string option"
  sc_min_version :: nat
  sc_max_version :: nat
  sc_alpn :: "bytes option"

definition TLS1_3_VERSION :: nat where
  "TLS1_3_VERSION = 0x0304"

text \<open>\<^verbatim>\<open>std::call_once\<close>: the flag is set only when the function returns; an exception leaves it unset.\<close>

definition ensure_quic_global_init :: "tls_lib \<Rightarrow> bool \<Rightarrow> unit option \<times> bool" where
  "ensure_quic_global_init lib once =
     (if once then (Some (), True) else if tl_global_init lib \<noteq> 0 then (None, False) else (Some (), True))"

definition kAlpn :: bytes where
  "kAlpn = [0x02, of_char CHR ''h'', of_char CHR ''3'', 0x05, of_char CHR ''h'', of_char CHR ''3'', of_char CHR ''-'',
     of_char CHR ''2'', of_char CHR ''9'']"

text \<open>The result: an exception, a null pointer or a context, and the flag.\<close>

definition make_server_ssl_ctx :: "tls_lib \<Rightarrow> string \<Rightarrow> string \<Rightarrow> bool \<Rightarrow> ssl_ctx option option \<times> bool" where
  "make_server_ssl_ctx lib cert_file key_file once =
     (case ensure_quic_global_init lib once of
        (None, once') \<Rightarrow> (None, once')
      | (Some _, once') \<Rightarrow>
          (Some (if cert_file = [] \<or> key_file = [] then None
             else if \<not> tl_ctx_new lib then None
             else if tl_use_cert lib cert_file \<noteq> 1 then None
             else if tl_use_key lib key_file \<noteq> 1 then None
             else Some \<lparr>sc_cert = Some cert_file, sc_key = Some key_file, sc_min_version = TLS1_3_VERSION,
               sc_max_version = TLS1_3_VERSION, sc_alpn = Some kAlpn\<rparr>), once'))"

definition make_client_ssl_ctx :: "tls_lib \<Rightarrow> bool \<Rightarrow> ssl_ctx option option \<times> bool" where
  "make_client_ssl_ctx lib once =
     (case ensure_quic_global_init lib once of
        (None, once') \<Rightarrow> (None, once')
      | (Some _, once') \<Rightarrow>
          (Some (if \<not> tl_ctx_new lib then None
             else Some \<lparr>sc_cert = None, sc_key = None, sc_min_version = TLS1_3_VERSION,
               sc_max_version = TLS1_3_VERSION, sc_alpn = None\<rparr>), once'))"

text \<open>The ALPN callback; \<open>select\<close> is \<^verbatim>\<open>SSL_select_next_proto\<close> with \<open>None\<close> for no overlap.  \<open>None\<close> is the fatal alert.\<close>

definition alpn_select_cb :: "(bytes \<Rightarrow> bytes \<Rightarrow> bytes option) \<Rightarrow> bytes \<Rightarrow> bytes option" where
  "alpn_select_cb select offered = select offered kAlpn"

section \<open>Construction of the engines\<close>

record engine_settings =
  es_scid_len :: nat
  es_init_max_streams_bidi :: nat
  es_max_streams_in :: nat

definition server_settings :: "engine_settings \<Rightarrow> nat \<Rightarrow> engine_settings" where
  "server_settings defaults max_streams_in =
     (let s = defaults\<lparr>es_scid_len := kServerCidLen\<rparr> in
      if max_streams_in > 0 then s\<lparr>es_init_max_streams_bidi := max_streams_in, es_max_streams_in := max_streams_in\<rparr>
      else s)"

text \<open>\<open>created\<close>: whether \<^verbatim>\<open>lsquic_engine_new\<close> returned an engine.\<close>

definition make_server_engine ::
  "tls_lib \<Rightarrow> engine_settings \<Rightarrow> bool \<Rightarrow> nat \<Rightarrow> bool \<Rightarrow> (server_engine \<times> engine_settings) option \<times> bool" where
  "make_server_engine lib defaults created max_streams_in once =
     (case ensure_quic_global_init lib once of
        (None, once') \<Rightarrow> (None, once')
      | (Some _, once') \<Rightarrow>
          (if created then Some (new_server_engine, server_settings defaults max_streams_in) else None, once'))"

definition make_client_engine ::
  "tls_lib \<Rightarrow> engine_settings \<Rightarrow> bool \<Rightarrow> udp_endpoint \<Rightarrow> bool \<Rightarrow> (client \<times> engine_settings) option \<times> bool" where
  "make_client_engine lib defaults created local4 once =
     (case ensure_quic_global_init lib once of
        (None, once') \<Rightarrow> (None, once')
      | (Some _, once') \<Rightarrow> (if created then Some (new_client local4, defaults) else None, once'))"

text \<open>The callbacks that hand out the context of the engine, whatever the server name.\<close>

definition lookup_cert_cb :: "ssl_ctx option \<Rightarrow> string option \<Rightarrow> ssl_ctx option" where
  "lookup_cert_cb ctx sni = ctx"

definition get_ssl_ctx_cb :: "ssl_ctx option \<Rightarrow> ssl_ctx option" where
  "get_ssl_ctx_cb ctx = ctx"

section \<open>Callbacks of the library\<close>

text \<open>\<open>ntop\<close> is \<^verbatim>\<open>inet_ntop\<close>; the empty text when it fails.\<close>

definition conn_peer_addr :: "(sockaddr \<Rightarrow> string) \<Rightarrow> sockaddr option \<Rightarrow> string" where
  "conn_peer_addr ntop peer = (case peer of
       None \<Rightarrow> ''unknown''
     | Some sa \<Rightarrow> (let buf = ntop sa in if buf \<noteq> [] then buf else ''unknown''))"

record glue =
  gl_engine :: engine
  gl_ctx :: "nat \<Rightarrow> qsession option"
  gl_addr :: "nat \<Rightarrow> string"
  gl_streams :: "nat \<Rightarrow> qstream option"
  gl_notified :: "nat list"
  gl_ended :: "qsession list"
  gl_null_use :: bool

definition new_glue :: glue where
  "new_glue = \<lparr>gl_engine = \<lparr>en_live = [], en_dead = [], en_goaway = [], en_close = []\<rparr>, gl_ctx = Map.empty,
     gl_addr = (\<lambda>_. []), gl_streams = Map.empty, gl_notified = [], gl_ended = [], gl_null_use = False\<rparr>"

text \<open>\<open>notify\<close> is what the proxy core does to a session it is given, if it has registered a callback.\<close>

definition server_on_new_conn ::
  "(sockaddr \<Rightarrow> string) \<Rightarrow> (qsession \<Rightarrow> qsession) option \<Rightarrow> nat \<Rightarrow> sockaddr option \<Rightarrow> glue \<Rightarrow> glue" where
  "server_on_new_conn ntop notify conn peer g =
     (let session = set_closed_cb conn new_qsession;
          g1 = g\<lparr>gl_addr := (gl_addr g)(conn := conn_peer_addr ntop peer), gl_engine := on_new_conn conn (gl_engine g)\<rparr> in
      case notify of
        None \<Rightarrow> g1\<lparr>gl_ctx := (gl_ctx g)(conn \<mapsto> session)\<rparr>
      | Some f \<Rightarrow> g1\<lparr>gl_ctx := (gl_ctx g)(conn \<mapsto> f session), gl_notified := gl_notified g @ [conn]\<rparr>)"

text \<open>\<^verbatim>\<open>conn_closed_cb\<close>: the callback of the session erases it from the live sessions.\<close>

definition conn_closed_cb :: "nat \<Rightarrow> glue \<Rightarrow> glue" where
  "conn_closed_cb conn g = (case gl_ctx g conn of
       None \<Rightarrow> g
     | Some session \<Rightarrow>
         g\<lparr>gl_ctx := (gl_ctx g)(conn := None), gl_ended := gl_ended g @ [on_closed session],
           gl_engine := (if qn_closed_cb session \<noteq> None then conn_closed conn (gl_engine g) else gl_engine g)\<rparr>)"

text \<open>\<^verbatim>\<open>new_stream_cb\<close>: \<^verbatim>\<open>lsquic_stream_conn\<close> is called first, so a null stream is used.\<close>

definition new_stream_cb :: "nat \<Rightarrow> nat option \<Rightarrow> glue \<Rightarrow> glue" where
  "new_stream_cb conn stream g = (case stream of
       None \<Rightarrow> g\<lparr>gl_null_use := True\<rparr>
     | Some st \<Rightarrow> (case gl_ctx g conn of
           None \<Rightarrow> g
         | Some session \<Rightarrow>
             g\<lparr>gl_ctx := (gl_ctx g)(conn \<mapsto> session_new_stream True session),
               gl_streams := (if qn_new_stream_cb session = None then gl_streams g
                              else (gl_streams g)(st \<mapsto> new_qstream))\<rparr>))"

definition on_stream_ctx :: "nat \<Rightarrow> (qstream \<Rightarrow> qstream) \<Rightarrow> glue \<Rightarrow> glue" where
  "on_stream_ctx st f g = (case gl_streams g st of
       None \<Rightarrow> g
     | Some q \<Rightarrow> g\<lparr>gl_streams := (gl_streams g)(st \<mapsto> f q)\<rparr>)"

definition read_cb :: "nat \<Rightarrow> header_list option \<Rightarrow> read_result \<Rightarrow> glue \<Rightarrow> glue" where
  "read_cb st hset res = on_stream_ctx st (on_readable hset res)"

definition write_cb :: "nat \<Rightarrow> write_result \<Rightarrow> glue \<Rightarrow> glue" where
  "write_cb st res = on_stream_ctx st (on_writeable res)"

definition close_cb :: "nat \<Rightarrow> glue \<Rightarrow> glue" where
  "close_cb st = on_stream_ctx st on_close"

definition reset_cb :: "nat \<Rightarrow> int \<Rightarrow> glue \<Rightarrow> glue" where
  "reset_cb st how = on_stream_ctx st (on_reset how)"

text \<open>The entries of the table \<^verbatim>\<open>kServerStreamIf\<close>.\<close>

datatype library_event =
    L_new_conn nat "sockaddr option"
  | L_conn_closed nat
  | L_new_stream nat "nat option"
  | L_read nat "header_list option" read_result
  | L_write nat write_result
  | L_close nat
  | L_hsk_done nat int
  | L_reset nat int

definition server_stream_if ::
  "(sockaddr \<Rightarrow> string) \<Rightarrow> (qsession \<Rightarrow> qsession) option \<Rightarrow> library_event \<Rightarrow> glue \<Rightarrow> glue" where
  "server_stream_if ntop notify ev = (case ev of
       L_new_conn conn peer \<Rightarrow> server_on_new_conn ntop notify conn peer
     | L_conn_closed conn \<Rightarrow> conn_closed_cb conn
     | L_new_stream conn stream \<Rightarrow> new_stream_cb conn stream
     | L_read st hset res \<Rightarrow> read_cb st hset res
     | L_write st res \<Rightarrow> write_cb st res
     | L_close st \<Rightarrow> close_cb st
     | L_hsk_done conn status \<Rightarrow> (\<lambda>g. g)
     | L_reset st how \<Rightarrow> reset_cb st how)"

section \<open>What the library promises\<close>

text \<open>A new connection is one not seen before; events of a stream come before its close; a stream that is
  announced exists; a write takes no more than it was given.\<close>

definition library_ok :: "library_event \<Rightarrow> glue \<Rightarrow> bool" where
  "library_ok ev g = (case ev of
       L_new_conn conn peer \<Rightarrow> gl_ctx g conn = None \<and> conn \<notin> set (en_dead (gl_engine g))
     | L_new_stream conn stream \<Rightarrow> (case stream of None \<Rightarrow> False | Some st \<Rightarrow> gl_streams g st = None)
     | L_read st hset res \<Rightarrow> (\<forall>q. gl_streams g st = Some q \<longrightarrow> qs_open q)
     | L_write st res \<Rightarrow> (\<forall>q. gl_streams g st = Some q \<longrightarrow> qs_open q \<and> accepts res (qs_queue q))
     | L_close st \<Rightarrow> (\<forall>q. gl_streams g st = Some q \<longrightarrow> qs_open q)
     | L_reset st how \<Rightarrow> (\<forall>q. gl_streams g st = Some q \<longrightarrow> qs_open q)
     | _ \<Rightarrow> True)"

text \<open>Steps: callbacks of the library, operations of the relays on their streams, closing a session, and the two stages
  of the shutdown.  The proxy core registers a stream callback with every session.\<close>

inductive glue_step :: "glue \<Rightarrow> glue \<Rightarrow> bool" where
  gs_library: "library_ok ev g \<Longrightarrow> glue_step g (server_stream_if ntop (Some (set_new_stream_cb cb)) ev g)"
| gs_stream: "gl_streams g st = Some q \<Longrightarrow> qs_step q q' \<Longrightarrow> glue_step g (g\<lparr>gl_streams := (gl_streams g)(st \<mapsto> q')\<rparr>)"
| gs_close: "gl_ctx g conn = Some s \<Longrightarrow> glue_step g (g\<lparr>gl_ctx := (gl_ctx g)(conn \<mapsto> close_session s)\<rparr>)"
| gs_graceful: "glue_step g (g\<lparr>gl_engine := engine_graceful_shutdown (gl_engine g)\<rparr>)"
| gs_force: "glue_step g (g\<lparr>gl_engine := force_close_all (gl_engine g)\<rparr>)"

definition session_ok :: "nat \<Rightarrow> qsession \<Rightarrow> bool" where
  "session_ok conn s \<longleftrightarrow> qn_conn s \<and> qn_closed_cb s = Some conn \<and> qn_closed_calls s = []"

definition glue_inv :: "glue \<Rightarrow> bool" where
  "glue_inv g \<longleftrightarrow> (\<forall>st q. gl_streams g st = Some q \<longrightarrow> qs_inv q)
     \<and> (\<forall>conn s. gl_ctx g conn = Some s \<longrightarrow> session_ok conn s)
     \<and> set (en_live (gl_engine g)) = dom (gl_ctx g) \<and> set (en_dead (gl_engine g)) \<inter> dom (gl_ctx g) = {}
     \<and> map qn_closed_calls (gl_ended g) = map (\<lambda>c. [c]) (en_dead (gl_engine g)) \<and> distinct (en_dead (gl_engine g))
     \<and> \<not> gl_null_use g"

lemma session_ok_new: "session_ok conn (set_new_stream_cb cb (set_closed_cb conn new_qsession))"
  by (simp add: session_ok_def set_new_stream_cb_def set_closed_cb_def new_qsession_def)

lemma session_ok_keeps:
  "session_ok conn s \<Longrightarrow> session_ok conn (session_new_stream present s)"
  "session_ok conn s \<Longrightarrow> session_ok conn (close_session s)"
  by (auto simp: session_ok_def session_new_stream_def close_session_def split: option.split)

lemma glue_inv_stream:
  assumes "glue_inv g" "gl_streams g st = Some q" "qs_step q q'"
  shows "glue_inv (g\<lparr>gl_streams := (gl_streams g)(st \<mapsto> q')\<rparr>)"
  using assms qs_inv_step [of q q'] by (auto simp: glue_inv_def)

lemma glue_inv_on_stream:
  assumes "glue_inv g" "\<And>q. gl_streams g st = Some q \<Longrightarrow> qs_step q (f q)"
  shows "glue_inv (on_stream_ctx st f g)"
  using assms glue_inv_stream [of g st _ "f _"] by (auto simp: on_stream_ctx_def split: option.split)

lemma glue_inv_new_conn:
  assumes "glue_inv g" "gl_ctx g conn = None" "conn \<notin> set (en_dead (gl_engine g))"
  shows "glue_inv (server_on_new_conn ntop (Some (set_new_stream_cb cb)) conn peer g)"
  using assms session_ok_new [of conn cb]
  by (auto simp: glue_inv_def server_on_new_conn_def on_new_conn_def Let_def)

lemma glue_inv_conn_closed:
  assumes "glue_inv g"
  shows "glue_inv (conn_closed_cb conn g)"
proof (cases "gl_ctx g conn")
  case (Some s)
  with assms have "session_ok conn s" "conn \<notin> set (en_dead (gl_engine g))" by (auto simp: glue_inv_def)
  with Some assms show ?thesis
    by (auto simp: glue_inv_def conn_closed_cb_def conn_closed_def session_ok_def on_closed_def)
qed (use assms in \<open>simp add: conn_closed_cb_def\<close>)

lemma glue_inv_new_stream:
  assumes "glue_inv g" "gl_streams g st = None"
  shows "glue_inv (new_stream_cb conn (Some st) g)"
proof -
  have "qs_inv new_qstream" by (simp add: stream_sys.init_inv)
  with assms session_ok_keeps(1) [of conn _ True] show ?thesis
    by (auto simp: glue_inv_def new_stream_cb_def split: option.split)
qed

lemma glue_inv_library:
  assumes "glue_inv g" "library_ok ev g"
  shows "glue_inv (server_stream_if ntop (Some (set_new_stream_cb cb)) ev g)"
proof (cases ev)
  case (L_new_stream conn stream)
  with assms glue_inv_new_stream show ?thesis
    by (cases stream) (auto simp: server_stream_if_def library_ok_def)
qed (use assms in \<open>auto simp: server_stream_if_def library_ok_def read_cb_def write_cb_def close_cb_def reset_cb_def
    intro!: glue_inv_new_conn glue_inv_conn_closed glue_inv_on_stream intro: qs_step.intros\<close>)

lemma glue_inv_step: "glue_inv g \<Longrightarrow> glue_step g g' \<Longrightarrow> glue_inv g'"
proof (erule glue_step.cases)
  fix g1 conn s assume "glue_inv g" "g = g1" "g' = g1\<lparr>gl_ctx := (gl_ctx g1)(conn \<mapsto> close_session s)\<rparr>" "gl_ctx g1 conn = Some s"
  then show "glue_inv g'" using session_ok_keeps(2) [of conn s] by (auto simp: glue_inv_def)
qed (auto intro: glue_inv_library glue_inv_stream,
    auto simp: glue_inv_def engine_graceful_shutdown_def force_close_all_def prune_live_def Let_def)

interpretation glue_sys: step_system "\<lambda>g. g = new_glue" glue_step glue_inv
proof unfold_locales
  show "g = new_glue \<Longrightarrow> glue_inv g" for g by (simp add: new_glue_def glue_inv_def)
qed (rule glue_inv_step)

section \<open>Properties\<close>

text \<open>C18: the engine knows its connections.  However the library's callbacks, the relays' operations and the stages of the
  shutdown interleave, the connections told to go away and the connections closed at the end are exactly those that
  the library has opened and not closed; every closed connection has had its close callback run once; every stream
  keeps its invariant, so a queued write always has the library's attention and none is queued on a closed
  stream.\<close>

theorem glue_live_sessions:
  assumes "reachable (\<lambda>g. g = new_glue) glue_step g"
  shows "set (en_goaway (engine_graceful_shutdown (gl_engine g))) = set (en_goaway (gl_engine g)) \<union> dom (gl_ctx g)
    \<and> set (en_close (force_close_all (gl_engine g))) = set (en_close (gl_engine g)) \<union> dom (gl_ctx g)
    \<and> (\<forall>s \<in> set (gl_ended g). length (qn_closed_calls s) = 1)
    \<and> (\<forall>st q. gl_streams g st = Some q \<and> qs_queue q \<noteq> [] \<longrightarrow> qs_open q \<and> qs_wantwrite q)"
proof -
  have inv: "glue_inv g" by (rule glue_sys.reachable_inv [OF assms])
  have "qn_closed_calls ` set (gl_ended g) = (\<lambda>c. [c]) ` set (en_dead (gl_engine g))"
    using inv unfolding glue_inv_def by (metis list.set_map)
  then have "qn_closed_calls s \<in> (\<lambda>c. [c]) ` set (en_dead (gl_engine g))" if "s \<in> set (gl_ended g)" for s
    using that by blast
  then have "\<forall>s \<in> set (gl_ended g). length (qn_closed_calls s) = 1" by fastforce
  moreover have "set (en_live (prune_live (gl_engine g))) = dom (gl_ctx g)"
    using inv by (auto simp: glue_inv_def prune_live_def)
  ultimately show ?thesis using inv
    by (auto simp: glue_inv_def qs_inv_def engine_graceful_shutdown_def force_close_all_def prune_live_def Let_def)
qed

definition ex_glue :: "library_event list \<Rightarrow> glue" where
  "ex_glue evs = fold (server_stream_if (\<lambda>_. ''10.0.0.1'') (Some (set_new_stream_cb 7))) evs new_glue"

lemma ex_glue_step:
  assumes "reachable (\<lambda>g. g = new_glue) glue_step (ex_glue evs)" "library_ok ev (ex_glue evs)"
  shows "reachable (\<lambda>g. g = new_glue) glue_step (ex_glue (evs @ [ev]))"
  using assms by (auto simp: ex_glue_def intro: reach_step gs_library)

theorem glue_live_sessions_witness:
  "set (en_goaway (engine_graceful_shutdown (gl_engine (ex_glue [L_new_conn 3 None, L_new_conn 4 None, L_conn_closed 3]))))
    = {4}"
proof -
  have "reachable (\<lambda>g. g = new_glue) glue_step (ex_glue [])" by (simp add: ex_glue_def reach_init)
  from ex_glue_step [OF this, of "L_new_conn 3 None"]
  have "reachable (\<lambda>g. g = new_glue) glue_step (ex_glue [L_new_conn 3 None])"
    by (simp add: library_ok_def ex_glue_def new_glue_def)
  from ex_glue_step [OF this, of "L_new_conn 4 None"]
  have "reachable (\<lambda>g. g = new_glue) glue_step (ex_glue [L_new_conn 3 None, L_new_conn 4 None])"
    by (simp add: library_ok_def ex_glue_def new_glue_def server_stream_if_def server_on_new_conn_def on_new_conn_def Let_def)
  from ex_glue_step [OF this, of "L_conn_closed 3"]
  have r: "reachable (\<lambda>g. g = new_glue) glue_step (ex_glue [L_new_conn 3 None, L_new_conn 4 None, L_conn_closed 3])"
    by (simp add: library_ok_def)
  have "dom (gl_ctx (ex_glue [L_new_conn 3 None, L_new_conn 4 None, L_conn_closed 3])) = {4}"
    "en_goaway (gl_engine (ex_glue [L_new_conn 3 None, L_new_conn 4 None, L_conn_closed 3])) = []"
    by (auto simp: ex_glue_def new_glue_def server_stream_if_def server_on_new_conn_def on_new_conn_def Let_def
        conn_closed_cb_def conn_closed_def set_new_stream_cb_def set_closed_cb_def new_qsession_def)
  with glue_live_sessions [OF r] show ?thesis by simp
qed



text \<open>Protocol lists on the wire, with a length byte before each name.\<close>

definition wire_protocols :: "bytes list \<Rightarrow> bytes" where
  "wire_protocols ps = concat (map (\<lambda>p. word_of_nat (length p) # p) ps)"

definition protocol_ok :: "bytes \<Rightarrow> bool" where
  "protocol_ok p \<longleftrightarrow> p \<noteq> [] \<and> length p < 256"

definition h3 :: bytes where
  "h3 = [of_char CHR ''h'', of_char CHR ''3'']"

definition h3_29 :: bytes where
  "h3_29 = h3 @ [of_char CHR ''-'', of_char CHR ''2'', of_char CHR ''9'']"

lemma kAlpn_wire: "kAlpn = wire_protocols [h3, h3_29]"
  by (simp add: kAlpn_def wire_protocols_def h3_def h3_29_def)

lemma h3_ok: "protocol_ok h3" "protocol_ok h3_29"
  by (simp_all add: protocol_ok_def h3_def h3_29_def)

text \<open>The protocol is negotiated.  If the library selects the first of the client's protocols that the server
  supports, then a handshake of the server's TLS context goes on exactly when the client offers HTTP/3 or its draft 29,
  with the one that the client lists first, and is refused with a fatal alert otherwise.\<close>

theorem alpn_negotiated:
  assumes "\<And>ps qs. list_all protocol_ok ps \<Longrightarrow> list_all protocol_ok qs \<Longrightarrow>
      select (wire_protocols ps) (wire_protocols qs) = find (\<lambda>p. p \<in> set qs) ps"
    and "list_all protocol_ok ps"
  shows "alpn_select_cb select (wire_protocols ps) = find (\<lambda>p. p = h3 \<or> p = h3_29) ps"
  using assms(1) [OF assms(2), of "[h3, h3_29]"] h3_ok by (simp add: alpn_select_cb_def kAlpn_wire)

function ex_protocols :: "bytes \<Rightarrow> bytes list" where
  "ex_protocols [] = []"
| "ex_protocols (n # bs) = take (unat n) bs # ex_protocols (drop (unat n) bs)"
  by pat_completeness auto
termination by (relation "measure length") auto

lemma ex_protocols_wire: "list_all protocol_ok ps \<Longrightarrow> ex_protocols (wire_protocols ps) = ps"
proof (induction ps)
  case (Cons p ps)
  then have "unat (word_of_nat (length p) :: 8 word) = length p"
    by (simp add: protocol_ok_def unsigned_of_nat take_bit_eq_mod)
  with Cons show ?case by (simp add: wire_protocols_def)
qed (simp add: wire_protocols_def)

theorem alpn_negotiated_witness:
  "alpn_select_cb (\<lambda>offered supported. find (\<lambda>p. p \<in> set (ex_protocols supported)) (ex_protocols offered))
      (wire_protocols [[1], h3_29, h3]) = Some h3_29"
  using alpn_negotiated [of "\<lambda>offered supported. find (\<lambda>p. p \<in> set (ex_protocols supported)) (ex_protocols offered)"
      "[[1], h3_29, h3]"]
  by (simp add: ex_protocols_wire h3_ok) (simp add: protocol_ok_def h3_29_def h3_def)

text \<open>Contexts and settings.\<close>

lemma server_ssl_ctx_complete:
  "fst (make_server_ssl_ctx lib cert key once) = Some (Some ctx) \<Longrightarrow>
     sc_cert ctx = Some cert \<and> sc_key ctx = Some key \<and> tl_use_cert lib cert = 1 \<and> tl_use_key lib key = 1
       \<and> sc_min_version ctx = TLS1_3_VERSION \<and> sc_max_version ctx = TLS1_3_VERSION \<and> cert \<noteq> [] \<and> key \<noteq> []"
  by (auto simp: make_server_ssl_ctx_def split: prod.splits option.splits if_splits)

lemma server_scid_length:
  "7 \<le> length rng \<Longrightarrow> length (generate_scid w (es_scid_len (server_settings defaults m)) rng) = kServerCidLen"
  by (simp add: generate_scid_def server_settings_def kServerCidLen_def Let_def)

text \<open>The library counts the time to the next tick in microseconds, the timer is set to as many milliseconds: every tick
  that is due within half a second comes late.\<close>

lemma tick_late:
  assumes "0 < sint diff" "unat diff < 500000"
  shows "unat diff < 1000 * schedule_tick nxt diff"
proof -
  have "0 < unat diff" using assms(1) by (metis gr0I less_irrefl signed_0 unsigned_eq_0_iff)
  with assms show ?thesis by (simp add: schedule_tick_def)
qed

end
