(* ===== verification/Proxy_Server.thy ===== *)
theory Proxy_Server
  imports Proxy_Core
begin

text \<open>
  The process: \<^verbatim>\<open>src/proxy/reverse_proxy_server.{h,cpp}\<close> and \<^verbatim>\<open>src/main.cpp\<close>.

  One ingress thread accepts connections and runs the shutdown sequence; it talks to the workers only
  by posting jobs to them.  The state is the flags and counters of \<^verbatim>\<open>ReverseProxyServer\<close>, the state of the
  acceptor's single outstanding operation (waiting, or completed with its handler queued), the stage
  of the shutdown timer and, for every worker, the jobs posted to it in order.  A step is the completion
  of an accept, the run of a queued handler on the ingress thread, the timer's expiry or a call of
  \<^verbatim>\<open>stop\<close>.  Whether sockets could be opened and the TLS context made are arguments.
\<close>

section \<open>State\<close>

datatype job = New_socket nat bool | Graceful | Force_close

type_synonym accept_result = "asio_error + nat \<times> bool"

datatype accept_op = Acc_none | Acc_pending | Acc_queued accept_result

datatype timer_stage = Tm_none | Tm_finalize | Tm_hard_stop

datatype listener = Listen_any_v6 | Listen_address

record server =
  sv_started :: bool
  sv_stopping :: bool
  sv_begin :: bool
  sv_stopped :: bool
  sv_n :: nat
  sv_accept :: accept_op
  sv_listener :: "listener option"
  sv_stats_armed :: bool
  sv_demux :: bool
  sv_quic_workers :: nat
  sv_rr :: "64 word"
  sv_timer :: timer_stage
  sv_jobs :: "job list list"

definition new_server :: server where
  "new_server = \<lparr>sv_started = False, sv_stopping = False, sv_begin = False, sv_stopped = False, sv_n = 1,
     sv_accept = Acc_none, sv_listener = None, sv_stats_armed = False, sv_demux = False,
     sv_quic_workers = 0, sv_rr = 0, sv_timer = Tm_none, sv_jobs = []\<rparr>"

section \<open>Operations\<close>

text \<open>The choice of the listening socket; \<open>None\<close> is the exception of the throwing \<^verbatim>\<open>open\<close> or \<^verbatim>\<open>bind\<close>.\<close>

definition choose_listener :: "bool \<Rightarrow> bool \<Rightarrow> bool \<Rightarrow> listener option" where
  "choose_listener dual_stack v6_ok addr_ok =
     (if dual_stack \<and> v6_ok then Some Listen_any_v6
      else if addr_ok then Some Listen_address else None)"

definition accept_loop :: "server \<Rightarrow> server" where
  "accept_loop s = s\<lparr>sv_accept := Acc_pending\<rparr>"

definition server_start :: "proxy_config \<Rightarrow> bool \<Rightarrow> bool \<Rightarrow> bool \<Rightarrow> server \<Rightarrow> server option" where
  "server_start cfg v6_ok addr_ok ssl_ok s =
     (if sv_started s then Some s
      else (let n = nat (max 1 (cf_num_threads cfg)); quic = cf_quic_port cfg > 0 in
        case choose_listener (cf_dual_stack cfg) v6_ok addr_ok of
          None \<Rightarrow> None
        | Some l \<Rightarrow> Some (accept_loop (s\<lparr>sv_started := True, sv_n := n, sv_demux := quic,
            sv_quic_workers := (if quic \<and> ssl_ok then n else 0), sv_listener := Some l,
            sv_stats_armed := (cf_stats_port cfg > 0), sv_jobs := replicate n []\<rparr>))))"

definition post_job :: "nat \<Rightarrow> job \<Rightarrow> server \<Rightarrow> server" where
  "post_job w j s = s\<lparr>sv_jobs := (sv_jobs s)[w := sv_jobs s ! w @ [j]]\<rparr>"

definition post_all :: "job \<Rightarrow> server \<Rightarrow> server" where
  "post_all j s = s\<lparr>sv_jobs := map (\<lambda>js. js @ [j]) (sv_jobs s)\<rparr>"

definition on_accept :: "accept_result \<Rightarrow> server \<Rightarrow> server" where
  "on_accept res s = (case res of
       Inl e \<Rightarrow> if e \<noteq> Operation_aborted then accept_loop s else s
     | Inr (fd, v6) \<Rightarrow>
         accept_loop (post_job (unat (sv_rr s) mod sv_n s) (New_socket fd v6) (s\<lparr>sv_rr := sv_rr s + 1\<rparr>)))"

definition server_stop :: "server \<Rightarrow> server" where
  "server_stop s =
     (if \<not> sv_started s \<or> sv_stopping s then s else s\<lparr>sv_stopping := True, sv_begin := True\<rparr>)"

text \<open>Cancelling only affects an operation that has not completed.\<close>

definition cancel_accept :: "server \<Rightarrow> server" where
  "cancel_accept s =
     (if sv_accept s = Acc_pending then s\<lparr>sv_accept := Acc_queued (Inl Operation_aborted)\<rparr> else s)"

definition begin_shutdown :: "server \<Rightarrow> server" where
  "begin_shutdown s =
     (post_all Graceful ((cancel_accept s)\<lparr>sv_demux := False\<rparr>))\<lparr>sv_timer := Tm_finalize\<rparr>"

definition finalize :: "server \<Rightarrow> server" where
  "finalize s = (post_all Force_close s)\<lparr>sv_timer := Tm_hard_stop\<rparr>"

definition hard_stop :: "server \<Rightarrow> server" where
  "hard_stop s = s\<lparr>sv_stopped := True\<rparr>"

text \<open>The statistics listener: the handler of an accept, and the text sent for one request.\<close>

definition on_stats_accept :: "server \<Rightarrow> server" where
  "on_stats_accept s = s\<lparr>sv_stats_armed := \<not> sv_stopping s\<rparr>"

definition stats_response :: "string \<Rightarrow> proxy_stats \<Rightarrow> string" where
  "stats_response up st =
     (let body = render up st in
      ''HTTP/1.1 200 OK'' @ [CR, LF]
      @ ''Content-Type: text/plain; version=0.0.4'' @ [CR, LF]
      @ ''Connection: close'' @ [CR, LF] @ ''Content-Length: ''
      @ show_nat (length body) @ [CR, LF, CR, LF] @ body)"

text \<open>What a worker does with a job.\<close>

fun run_job :: "job \<Rightarrow> core \<Rightarrow> core" where
  "run_job (New_socket fd v6) c = on_new_tcp_socket fd c"
| "run_job Graceful c = core_graceful_shutdown c"
| "run_job Force_close c = force_close_quic c"

text \<open>\<^verbatim>\<open>main\<close>: the exit code when the configuration cannot be loaded; otherwise the configuration the server
  runs with, whose \<^verbatim>\<open>run\<close> returns 0.\<close>

definition main_program :: "'v toml \<Rightarrow> string list \<Rightarrow> int + proxy_config" where
  "main_program t argv =
     (case load_config t (if length argv \<ge> 2 then argv ! 1 else ''proxy.toml'') of
        None \<Rightarrow> Inl 1
      | Some cfg \<Rightarrow> Inr cfg)"

section \<open>Steps of the ingress thread\<close>

datatype server_event =
    V_connection nat bool
  | V_accept_error asio_error
  | V_run_accept
  | V_stop
  | V_run_begin
  | V_timer
  | V_stats

fun server_apply :: "server_event \<Rightarrow> server \<Rightarrow> server option" where
  "server_apply (V_connection fd v6) s =
     (if sv_accept s = Acc_pending then Some (s\<lparr>sv_accept := Acc_queued (Inr (fd, v6))\<rparr>) else None)"
| "server_apply (V_accept_error e) s =
     (if sv_accept s = Acc_pending then Some (s\<lparr>sv_accept := Acc_queued (Inl e)\<rparr>) else None)"
| "server_apply V_run_accept s = (case sv_accept s of
     Acc_queued res \<Rightarrow> Some (on_accept res (s\<lparr>sv_accept := Acc_none\<rparr>))
   | _ \<Rightarrow> None)"
| "server_apply V_stop s = Some (server_stop s)"
| "server_apply V_run_begin s = (if sv_begin s then Some (begin_shutdown (s\<lparr>sv_begin := False\<rparr>)) else None)"
| "server_apply V_timer s = (case sv_timer s of
     Tm_none \<Rightarrow> None
   | Tm_finalize \<Rightarrow> Some (finalize s)
   | Tm_hard_stop \<Rightarrow> Some (hard_stop (s\<lparr>sv_timer := Tm_none\<rparr>)))"
| "server_apply V_stats s = (if sv_stats_armed s then Some (on_stats_accept s) else None)"

text \<open>No handler runs on a stopped context.\<close>

definition server_step :: "server_event \<Rightarrow> server \<Rightarrow> server option" where
  "server_step e s = (if sv_stopped s then None else server_apply e s)"

fun server_run :: "server_event list \<Rightarrow> server \<Rightarrow> server option" where
  "server_run [] s = Some s"
| "server_run (e # es) s = (case server_step e s of None \<Rightarrow> None | Some s' \<Rightarrow> server_run es s')"

section \<open>Invariant\<close>

fun control :: "job \<Rightarrow> bool" where
  "control (New_socket fd v6) = False"
| "control j = True"

text \<open>The steps of the shutdown sequence that are still to come, and what has been posted by then.\<close>

definition shutdown_left :: "server \<Rightarrow> nat" where
  "shutdown_left s = (if sv_begin s then 3
     else case sv_timer s of Tm_finalize \<Rightarrow> 2 | Tm_hard_stop \<Rightarrow> 1 | Tm_none \<Rightarrow> 0)"

definition posted_so_far :: "server \<Rightarrow> job list" where
  "posted_so_far s =
     (if \<not> sv_stopping s then []
      else if shutdown_left s = 3 then [] else if shutdown_left s = 2 then [Graceful] else [Graceful, Force_close])"

definition server_inv :: "server \<Rightarrow> bool" where
  "server_inv s = (sv_started s \<and> 0 < sv_n s \<and> length (sv_jobs s) = sv_n s
     \<and> (sv_stopped s \<longleftrightarrow> sv_stopping s \<and> shutdown_left s = 0)
     \<and> (\<not> sv_stopping s \<longrightarrow> shutdown_left s = 0) \<and> (sv_begin s \<longrightarrow> sv_timer s = Tm_none)
     \<and> (\<forall>js \<in> set (sv_jobs s). filter control js = posted_so_far s))"

lemma server_fields [simp]:
  "shutdown_left (s\<lparr>sv_accept := a\<rparr>) = shutdown_left s" "posted_so_far (s\<lparr>sv_accept := a\<rparr>) = posted_so_far s"
  "shutdown_left (s\<lparr>sv_rr := r\<rparr>) = shutdown_left s" "posted_so_far (s\<lparr>sv_rr := r\<rparr>) = posted_so_far s"
  "shutdown_left (s\<lparr>sv_jobs := js\<rparr>) = shutdown_left s" "posted_so_far (s\<lparr>sv_jobs := js\<rparr>) = posted_so_far s"
  "shutdown_left (s\<lparr>sv_stats_armed := b\<rparr>) = shutdown_left s" "posted_so_far (s\<lparr>sv_stats_armed := b\<rparr>) = posted_so_far s"
  by (simp_all add: shutdown_left_def posted_so_far_def)

lemma on_accept_left [simp]: "shutdown_left (on_accept res s) = shutdown_left s"
  by (auto simp: on_accept_def accept_loop_def post_job_def split: sum.splits)

lemma server_inv_accept: "server_inv s \<Longrightarrow> server_inv (s\<lparr>sv_accept := a\<rparr>)"
  by (simp add: server_inv_def)

lemma server_inv_on_accept:
  assumes "server_inv s"
  shows "server_inv (on_accept res s)"
proof (cases res)
  case (Inl e)
  with assms show ?thesis by (simp add: on_accept_def accept_loop_def server_inv_accept)
next
  case (Inr x)
  obtain fd v6 where x: "x = (fd, v6)" by (cases x)
  let ?w = "unat (sv_rr s) mod sv_n s"
  have w: "?w < length (sv_jobs s)" using assms by (simp add: server_inv_def)
  have "filter control js = posted_so_far s"
    if "js \<in> set ((sv_jobs s)[?w := sv_jobs s ! ?w @ [New_socket fd v6]])" for js
  proof -
    from set_update_subset_insert [of "sv_jobs s" ?w "sv_jobs s ! ?w @ [New_socket fd v6]"] that
    consider "js = sv_jobs s ! ?w @ [New_socket fd v6]" | "js \<in> set (sv_jobs s)" by blast
    then show ?thesis using assms w nth_mem [OF w] by cases (auto simp: server_inv_def)
  qed
  then show ?thesis using assms Inr x
    by (simp add: on_accept_def accept_loop_def post_job_def server_inv_def)
qed

lemma server_inv_step:
  assumes "server_inv s" "server_step e s = Some s'"
  shows "server_inv s'"
proof -
  have ap: "server_apply e s = Some s'" and ns: "\<not> sv_stopped s"
    using assms(2) by (auto simp: server_step_def split: if_splits)
  show ?thesis
  proof (cases e)
    case V_run_accept
    with ap assms(1) show ?thesis
      by (auto split: accept_op.splits intro!: server_inv_on_accept server_inv_accept)
  next
    case V_run_begin
    then have "sv_begin s" "s' = begin_shutdown (s\<lparr>sv_begin := False\<rparr>)" using ap by (auto split: if_splits)
    with assms(1) ns show ?thesis
      by (auto simp: begin_shutdown_def post_all_def cancel_accept_def server_inv_def shutdown_left_def
          posted_so_far_def)
  next
    case V_timer
    with ap assms(1) ns show ?thesis
      by (cases "sv_timer s") (auto simp: finalize_def hard_stop_def post_all_def server_inv_def
          shutdown_left_def posted_so_far_def split: if_splits)
  next
    case V_stop
    with ap assms(1) ns show ?thesis
      by (auto simp: server_stop_def server_inv_def shutdown_left_def posted_so_far_def
          split: timer_stage.splits if_splits)
  next
    case V_stats
    with ap assms(1) show ?thesis by (auto simp: on_stats_accept_def server_inv_def split: if_splits)
  qed (use ap assms(1) in \<open>auto simp: server_inv_accept split: if_splits\<close>)
qed

definition server_init :: "server \<Rightarrow> bool" where
  "server_init s = (\<exists>cfg v6_ok addr_ok ssl_ok. server_start cfg v6_ok addr_ok ssl_ok new_server = Some s)"

lemma server_inv_init: "server_init s \<Longrightarrow> server_inv s"
  by (auto simp: server_init_def server_start_def new_server_def accept_loop_def server_inv_def
      shutdown_left_def posted_so_far_def Let_def split: option.splits)

interpretation server_sys: step_system server_init "\<lambda>s s'. \<exists>e. server_step e s = Some s'" server_inv
  by unfold_locales (auto intro: server_inv_init server_inv_step)

lemma server_inv_run: "server_run es s = Some s' \<Longrightarrow> server_inv s \<Longrightarrow> server_inv s'"
  by (induction es arbitrary: s) (auto split: option.splits intro: server_inv_step)

text \<open>The events of the shutdown sequence.\<close>

fun sequence :: "server_event list \<Rightarrow> nat" where
  "sequence [] = 0"
| "sequence (V_run_begin # es) = Suc (sequence es)"
| "sequence (V_timer # es) = Suc (sequence es)"
| "sequence (e # es) = sequence es"

lemma shutdown_left_step:
  assumes "server_inv s" "sv_stopping s" "server_step e s = Some s'"
  shows "sv_stopping s' \<and> shutdown_left s = shutdown_left s' + sequence [e]"
proof -
  have ap: "server_apply e s = Some s'" using assms(3) by (auto simp: server_step_def split: if_splits)
  show ?thesis
  proof (cases e)
    case V_run_accept
    have "sv_stopping (on_accept res t) = sv_stopping t" for res t
      by (auto simp: on_accept_def accept_loop_def post_job_def split: sum.splits)
    with V_run_accept ap assms(2) show ?thesis by (auto split: accept_op.splits)
  next
    case V_run_begin
    with ap assms show ?thesis
      by (auto simp: begin_shutdown_def post_all_def cancel_accept_def shutdown_left_def split: if_splits)
  next
    case V_timer
    with ap assms show ?thesis
      by (cases "sv_timer s") (auto simp: finalize_def hard_stop_def post_all_def shutdown_left_def server_inv_def)
  next
    case V_stats
    with ap assms show ?thesis by (auto simp: on_stats_accept_def split: if_splits)
  next
    case V_stop
    with ap assms show ?thesis by (simp add: server_stop_def)
  qed (use ap assms(2) in \<open>auto split: if_splits\<close>)
qed

lemma sequence_Cons: "sequence (e # es) = sequence [e] + sequence es"
  by (cases e) auto

lemma shutdown_left_run:
  "server_run es s = Some s' \<Longrightarrow> server_inv s \<Longrightarrow> sv_stopping s \<Longrightarrow>
     sv_stopping s' \<and> shutdown_left s = shutdown_left s' + sequence es"
proof (induction es arbitrary: s)
  case (Cons e es)
  then obtain s1 where s1: "server_step e s = Some s1" "server_run es s1 = Some s'" by (auto split: option.splits)
  from shutdown_left_step [OF Cons.prems(2,3) s1(1)] Cons.IH [OF s1(2) server_inv_step [OF Cons.prems(2) s1(1)]]
  show ?case by (simp add: sequence_Cons [of e es])
qed simp

section \<open>Properties\<close>

text \<open>C11: the shutdown sequence reaches every worker in order.  In every state a run of the started server
  passes, each worker has been told to drain at most once and to force its QUIC connections closed at
  most once and after that, all workers have been told the same, and when the contexts are stopped every
  worker has been told both.  Repeated calls of \<^verbatim>\<open>stop\<close> change nothing.\<close>

theorem server_shutdown_order:
  assumes "server_start cfg v6_ok addr_ok ssl_ok new_server = Some s0" "server_run es s0 = Some s"
    and "w < sv_n s"
  shows "filter control (sv_jobs s ! w) \<in> {[], [Graceful], [Graceful, Force_close]}
    \<and> (w' < sv_n s \<longrightarrow> filter control (sv_jobs s ! w') = filter control (sv_jobs s ! w))
    \<and> (sv_stopped s \<longrightarrow> filter control (sv_jobs s ! w) = [Graceful, Force_close])
    \<and> (sv_stopping s \<longrightarrow> server_stop s = s) \<and> server_start cfg v6_ok addr_ok ssl_ok s = Some s"
proof -
  have "server_init s0" using assms(1) by (auto simp: server_init_def)
  with server_inv_run [OF assms(2)] have inv: "server_inv s" by (simp add: server_inv_init)
  then have len: "length (sv_jobs s) = sv_n s" and st: "sv_started s"
    and jobs: "\<And>js. js \<in> set (sv_jobs s) \<Longrightarrow> filter control js = posted_so_far s"
    and stp: "sv_stopped s \<Longrightarrow> sv_stopping s \<and> shutdown_left s = 0"
    by (simp_all add: server_inv_def)
  have w: "filter control (sv_jobs s ! v) = posted_so_far s" if "v < sv_n s" for v
    using that len jobs nth_mem [of v "sv_jobs s"] by simp
  moreover have "posted_so_far s \<in> {[], [Graceful], [Graceful, Force_close]}" by (simp add: posted_so_far_def)
  moreover have "sv_stopped s \<Longrightarrow> posted_so_far s = [Graceful, Force_close]"
    using stp by (auto simp: posted_so_far_def)
  ultimately show ?thesis using assms(3) st by (auto simp: server_stop_def server_start_def)
qed

definition ex_server :: server where
  "ex_server = the (server_start (default_config\<lparr>cf_num_threads := 2\<rparr>) False True False new_server)"

lemma ex_server_start:
  "server_start (default_config\<lparr>cf_num_threads := 2\<rparr>) False True False new_server = Some ex_server"
  by (simp add: ex_server_def server_start_def new_server_def default_config_def choose_listener_def Let_def)

lemmas ex_server_defs = ex_server_def server_start_def new_server_def default_config_def choose_listener_def
  accept_loop_def server_step_def server_stop_def begin_shutdown_def finalize_def hard_stop_def post_all_def
  cancel_accept_def on_accept_def post_job_def Let_def

theorem server_shutdown_order_witness:
  "\<exists>s. server_run [V_stop, V_run_begin, V_timer, V_timer] ex_server = Some s
     \<and> filter control (sv_jobs s ! 1) = [Graceful, Force_close]"
proof -
  have "\<exists>s. server_run [V_stop, V_run_begin, V_timer, V_timer] ex_server = Some s \<and> sv_n s = 2 \<and> sv_stopped s"
    by (simp add: ex_server_defs)
  then obtain s where s: "server_run [V_stop, V_run_begin, V_timer, V_timer] ex_server = Some s" "sv_n s = 2" "sv_stopped s"
    by blast
  with server_shutdown_order [OF ex_server_start s(1), of 1] show ?thesis by simp
qed

text \<open>C16: a server that is told to stop stops.  Three events of the shutdown sequence (its start, the end of
  the grace period, the end of the last pause) stop it, however they are interleaved with accepts and
  further calls of \<^verbatim>\<open>stop\<close>; and until it has stopped the next of them is always possible.\<close>

theorem server_stop_terminates:
  assumes "server_start cfg v6_ok addr_ok ssl_ok new_server = Some s0" "server_run es s0 = Some s"
    and "sv_stopping s" "server_run es' s = Some s'"
  shows "sequence es' \<le> 3 \<and> (sv_stopped s' \<longleftrightarrow> sequence es' = shutdown_left s)
    \<and> (sv_stopped s' \<or> (\<exists>e s''. e \<in> {V_run_begin, V_timer} \<and> server_step e s' = Some s''))"
proof -
  have "server_init s0" using assms(1) by (auto simp: server_init_def)
  with server_inv_run [OF assms(2)] have inv: "server_inv s" by (simp add: server_inv_init)
  have inv': "server_inv s'" by (rule server_inv_run [OF assms(4) inv])
  from shutdown_left_run [OF assms(4) inv assms(3)]
  have left: "sv_stopping s'" "shutdown_left s = shutdown_left s' + sequence es'" by simp_all
  have "shutdown_left s \<le> 3" by (simp add: shutdown_left_def split: timer_stage.splits)
  moreover have stopped: "sv_stopped s' \<longleftrightarrow> shutdown_left s' = 0" using inv' left(1) by (simp add: server_inv_def)
  moreover have "\<exists>e s''. e \<in> {V_run_begin, V_timer} \<and> server_step e s' = Some s''" if "\<not> sv_stopped s'"
  proof (cases "sv_begin s'")
    case True
    then have "server_step V_run_begin s' = Some (begin_shutdown (s'\<lparr>sv_begin := False\<rparr>))"
      using that by (simp add: server_step_def)
    then show ?thesis by blast
  next
    case False
    with that stopped have "sv_timer s' \<noteq> Tm_none" by (auto simp: shutdown_left_def)
    then have "\<exists>s''. server_step V_timer s' = Some s''"
      using that by (cases "sv_timer s'") (auto simp: server_step_def)
    then show ?thesis by blast
  qed
  ultimately show ?thesis using left by auto
qed

theorem server_stop_terminates_witness:
  "\<exists>s s'. server_run [V_stop] ex_server = Some s
     \<and> server_run [V_run_begin, V_run_accept, V_timer, V_timer] s = Some s' \<and> sv_stopped s'"
proof -
  let ?es = "[V_run_begin, V_run_accept, V_timer, V_timer]"
  have "\<exists>s s'. server_run [V_stop] ex_server = Some s \<and> sv_stopping s \<and> shutdown_left s = 3 \<and> server_run ?es s = Some s'"
    by (simp add: ex_server_defs shutdown_left_def)
  then obtain s s' where s: "server_run [V_stop] ex_server = Some s" "sv_stopping s" "shutdown_left s = 3"
    "server_run ?es s = Some s'" by blast
  from server_stop_terminates [OF ex_server_start s(1,2,4)] s show ?thesis by auto
qed

lemma on_accept_conn:
  "sv_n (on_accept (Inr x) s) = sv_n s" "sv_rr (on_accept (Inr x) s) = sv_rr s + 1"
  "sv_jobs (on_accept (Inr x) s) =
     (sv_jobs s)[unat (sv_rr s) mod sv_n s := sv_jobs s ! (unat (sv_rr s) mod sv_n s) @ [New_socket (fst x) (snd x)]]"
  by (cases x; simp add: on_accept_def accept_loop_def post_job_def)+

text \<open>C28: accepted connections are dealt to the workers in turn.  Of the connections accepted after the start,
  worker \<open>w\<close> of \<open>n\<close> gets exactly those whose position is \<open>w\<close> modulo \<open>n\<close>, in the order of acceptance.\<close>

theorem server_round_robin:
  assumes "server_start cfg v6_ok addr_ok ssl_ok new_server = Some s" "length xs < 2 ^ 64" "w < sv_n s"
  shows "sv_jobs (fold (\<lambda>x. on_accept (Inr x)) xs s) ! w =
    map (\<lambda>x. New_socket (fst x) (snd x)) (nths xs {i. i mod sv_n s = w})"
proof -
  have s: "sv_rr s = 0" "sv_jobs s = replicate (sv_n s) []"
    using assms(1) by (auto simp: server_start_def new_server_def accept_loop_def Let_def split: option.splits)
  have "sv_n t = sv_n s \<and> unat (sv_rr t) = length ys \<and> length (sv_jobs t) = sv_n s
      \<and> (\<forall>v < sv_n s. sv_jobs t ! v = map (\<lambda>x. New_socket (fst x) (snd x)) (nths ys {i. i mod sv_n s = v}))"
    if "t = fold (\<lambda>x. on_accept (Inr x)) ys s" "length ys < 2 ^ 64" for ys t
    using that
  proof (induction ys arbitrary: t rule: rev_induct)
    case Nil
    with s show ?case by simp
  next
    case (snoc x ys)
    let ?u = "fold (\<lambda>x. on_accept (Inr x)) ys s"
    have t: "t = on_accept (Inr x) ?u" using snoc.prems(1) by simp
    have u: "sv_n ?u = sv_n s" "unat (sv_rr ?u) = length ys" "length (sv_jobs ?u) = sv_n s"
      "\<And>v. v < sv_n s \<Longrightarrow> sv_jobs ?u ! v = map (\<lambda>x. New_socket (fst x) (snd x)) (nths ys {i. i mod sv_n s = v})"
      using snoc.IH [OF refl] snoc.prems(2) by auto
    have "unat (sv_rr ?u + 1) = Suc (length ys)"
      using u(2) snoc.prems(2) by (subst unat_add_lem [THEN iffD1]) auto
    moreover have "length ys mod sv_n s < sv_n s" using assms(3) by simp
    ultimately show ?case
      using t u by (auto simp: on_accept_conn nth_list_update nths_append nths_singleton)
  qed
  from this [OF refl assms(2)] assms(3) show ?thesis by blast
qed

theorem server_round_robin_witness:
  "sv_jobs (fold (\<lambda>x. on_accept (Inr x)) [(3, False), (4, False), (5, True)] ex_server) ! 0 =
     [New_socket 3 False, New_socket 5 True]"
proof -
  have "sv_n ex_server = 2" by (simp add: ex_server_defs)
  with server_round_robin [OF ex_server_start, of "[(3, False), (4, False), (5, True)]" 0] show ?thesis
    by (simp add: nths_Cons)
qed

text \<open>C39: connections accepted during shutdown.  When an accept has completed before \<^verbatim>\<open>begin_shutdown\<close> cancels
  the acceptor, its handler still runs: it hands the connection to a worker behind the order to drain and
  starts the next accept on the open acceptor.  The relay the worker then creates is not draining, so it
  keeps serving requests until the contexts are stopped.\<close>

theorem server_accepts_while_stopping:
  assumes "sv_accept s = Acc_queued (Inr (fd, v6))" "sv_begin s" "\<not> sv_stopped s"
    and "w = unat (sv_rr s) mod sv_n s" "w < length (sv_jobs s)"
  shows "\<exists>s'. server_run [V_run_begin, V_run_accept] s = Some s' \<and> sv_accept s' = Acc_pending
    \<and> sv_jobs s' ! w = sv_jobs s ! w @ [Graceful, New_socket fd v6]
    \<and> (\<exists>r. last (co_relays (fold run_job [Graceful, New_socket fd v6] c)) = (co_next c, r)
         \<and> \<not> ry_draining r \<and> \<not> ry_done r \<and> ry_waits r = [W_parse_request])"
proof -
  have core: "\<exists>r. last (co_relays (on_new_tcp_socket fd d)) = (co_next d, r)
      \<and> \<not> ry_draining r \<and> \<not> ry_done r \<and> ry_waits r = [W_parse_request]" for d
    by (simp add: on_new_tcp_socket_def on_session_def tcp_set_new_stream_cb_def on_stream_def start_relay_def
        request_phase_def new_relay_def await_def relay_parts)
  have "co_next (core_graceful_shutdown c) = co_next c" by (simp add: core_graceful_shutdown_def)
  with core [of "core_graceful_shutdown c"]
  have k: "\<exists>r. last (co_relays (fold run_job [Graceful, New_socket fd v6] c)) = (co_next c, r)
      \<and> \<not> ry_draining r \<and> \<not> ry_done r \<and> ry_waits r = [W_parse_request]" by simp
  have "\<exists>s'. server_run [V_run_begin, V_run_accept] s = Some s' \<and> sv_accept s' = Acc_pending
      \<and> sv_jobs s' ! w = sv_jobs s ! w @ [Graceful, New_socket fd v6]"
    using assms by (simp add: server_step_def begin_shutdown_def post_all_def cancel_accept_def on_accept_def
        accept_loop_def post_job_def)
  with k show ?thesis by blast
qed

theorem server_accepts_while_stopping_witness:
  "\<exists>s s'. server_run [V_connection 9 False, V_stop] ex_server = Some s
     \<and> server_run [V_run_begin, V_run_accept] s = Some s' \<and> sv_accept s' = Acc_pending"
proof -
  have "\<exists>s. server_run [V_connection 9 False, V_stop] ex_server = Some s \<and> sv_accept s = Acc_queued (Inr (9, False))
      \<and> sv_begin s \<and> \<not> sv_stopped s \<and> unat (sv_rr s) mod sv_n s < length (sv_jobs s)"
    by (simp add: ex_server_defs)
  then obtain s where s: "server_run [V_connection 9 False, V_stop] ex_server = Some s"
    "sv_accept s = Acc_queued (Inr (9, False))" "sv_begin s" "\<not> sv_stopped s"
    "unat (sv_rr s) mod sv_n s < length (sv_jobs s)" by blast
  from server_accepts_while_stopping [OF s(2-4) refl s(5)] s(1) show ?thesis by blast
qed

end
