(* ===== verification/Mini_Quic.thy ===== *)
theory Mini_Quic
  imports Prelude "HOL-Library.Word" "HOL-Library.Multiset" "HOL-Library.AList" "HOL-Library.Monad_Syntax"
begin

text \<open>
  The miniature engine of \<^verbatim>\<open>examples/mini_quic_demo.cpp\<close>: connections found by their ID, streams in them, the
  application's callbacks, and the two loops of \<^verbatim>\<open>mini_engine_process_conns\<close>.

  The objects that the application allocates with \<^verbatim>\<open>new\<close> are cells of a store: sessions hold the bytes received,
  stream contexts point to their session.  A null or deleted pointer that is used makes an operation \<open>None\<close>.  The
  order in which a hash map is iterated is not specified; the list of visited streams is an argument.
\<close>

section \<open>State\<close>

record mini_stream =
  ms_ctx :: "nat option"
  ms_want_read :: bool
  ms_buf :: string
  ms_fin :: bool

record mini_conn =
  mc_ctx :: "nat option"
  mc_closed :: bool
  mc_streams :: "(8 word \<times> mini_stream) list"
  mc_outbox :: string

text \<open>The engine together with the application's objects and what \<^verbatim>\<open>on_packets_out\<close> was given.\<close>

record mini_engine =
  me_conns :: "(string \<times> mini_conn) list"
  me_sessions :: "nat \<Rightarrow> string option"
  me_app_streams :: "nat \<Rightarrow> nat option"
  me_next :: nat
  me_sent :: "(string \<times> string) list"

definition mini_new :: mini_engine where
  "mini_new = \<lparr>me_conns = [], me_sessions = Map.empty, me_app_streams = Map.empty, me_next = 0, me_sent = []\<rparr>"

definition put_conn :: "string \<Rightarrow> mini_conn \<Rightarrow> mini_engine \<Rightarrow> mini_engine" where
  "put_conn dcid c e = e\<lparr>me_conns := AList.update dcid c (me_conns e)\<rparr>"

definition put_stream :: "8 word \<Rightarrow> mini_stream \<Rightarrow> mini_conn \<Rightarrow> mini_conn" where
  "put_stream sid s c = c\<lparr>mc_streams := AList.update sid s (mc_streams c)\<rparr>"

section \<open>Streams\<close>

text \<open>The left value is \<^verbatim>\<open>EWOULDBLOCK\<close>; no bytes is the end of the stream.\<close>

definition mini_stream_read :: "nat \<Rightarrow> mini_stream \<Rightarrow> (unit + string) \<times> mini_stream" where
  "mini_stream_read len s =
     (if ms_buf s = [] then (if ms_fin s then Inr [] else Inl (), s)
      else (let n = min len (length (ms_buf s)) in (Inr (take n (ms_buf s)), s\<lparr>ms_buf := drop n (ms_buf s)\<rparr>)))"

definition mini_stream_write :: "string \<Rightarrow> mini_conn \<Rightarrow> mini_conn" where
  "mini_stream_write bytes c = c\<lparr>mc_outbox := mc_outbox c @ bytes\<rparr>"

definition mini_stream_wantread :: "bool \<Rightarrow> mini_stream \<Rightarrow> bool \<times> mini_stream" where
  "mini_stream_wantread want s = (ms_want_read s, s\<lparr>ms_want_read := want\<rparr>)"

section \<open>The application\<close>

definition app_on_new_conn :: "mini_engine \<Rightarrow> nat \<times> mini_engine" where
  "app_on_new_conn e = (me_next e, e\<lparr>me_sessions := (me_sessions e)(me_next e := Some []), me_next := me_next e + 1\<rparr>)"

definition app_on_new_stream :: "mini_conn \<Rightarrow> mini_engine \<Rightarrow> nat \<times> mini_engine" where
  "app_on_new_stream c e =
     (me_next e, e\<lparr>me_app_streams := (me_app_streams e)(me_next e := mc_ctx c), me_next := me_next e + 1\<rparr>)"

text \<open>The loop of \<^verbatim>\<open>app_on_read\<close> with its buffer of 64 bytes.\<close>

function read_all :: "mini_stream \<Rightarrow> string \<Rightarrow> string \<times> mini_stream" where
  "read_all s received = (case mini_stream_read 64 s of
       (Inr bytes, s') \<Rightarrow> if bytes = [] then (received, s') else read_all s' (received @ bytes)
     | (Inl _, s') \<Rightarrow> (received, s'))"
  by pat_completeness auto
termination
  by (relation "measure (\<lambda>(s, r). length (ms_buf s))")
    (auto simp: mini_stream_read_def Let_def split: if_splits)

definition app_on_read :: "string \<Rightarrow> 8 word \<Rightarrow> mini_engine \<Rightarrow> mini_engine option" where
  "app_on_read dcid sid e = (case map_of (me_conns e) dcid of None \<Rightarrow> None | Some c \<Rightarrow>
     (case map_of (mc_streams c) sid of None \<Rightarrow> None | Some s \<Rightarrow>
     (case ms_ctx s of None \<Rightarrow> None | Some ctx \<Rightarrow>
     (case me_app_streams e ctx of None \<Rightarrow> None | Some session \<Rightarrow>
     (case me_sessions e session of None \<Rightarrow> None | Some received \<Rightarrow>
       (let (received', s') = read_all s received;
            s'' = snd (mini_stream_wantread False s');
            echo = ''echo:'' @ received' @ [LF]
        in Some ((put_conn dcid (mini_stream_write echo (put_stream sid s'' c)) e)
             \<lparr>me_sessions := (me_sessions e)(session := Some received')\<rparr>)))))))"

text \<open>\<^verbatim>\<open>app_on_conn_closed\<close> deletes the contexts of the streams, then the session.\<close>

definition delete_ctx :: "nat option \<Rightarrow> (nat \<Rightarrow> 'a option) \<Rightarrow> nat \<Rightarrow> 'a option" where
  "delete_ctx p store = (case p of None \<Rightarrow> store | Some a \<Rightarrow> store(a := None))"

definition app_on_conn_closed :: "mini_conn \<Rightarrow> mini_engine \<Rightarrow> mini_engine" where
  "app_on_conn_closed c e = e\<lparr>
     me_app_streams := fold (\<lambda>(sid, s). delete_ctx (ms_ctx s)) (mc_streams c) (me_app_streams e),
     me_sessions := delete_ctx (mc_ctx c) (me_sessions e)\<rparr>"

definition app_on_packets_out :: "string \<Rightarrow> string \<Rightarrow> mini_engine \<Rightarrow> mini_engine" where
  "app_on_packets_out dcid pkt e = e\<lparr>me_sent := me_sent e @ [(dcid, pkt)]\<rparr>"

section \<open>The engine\<close>

text \<open>An iteration order of the connections and of the streams in each.\<close>

type_synonym visits = "(string \<times> 8 word list) list"

definition tick :: "string \<Rightarrow> 8 word \<Rightarrow> mini_engine \<Rightarrow> mini_engine option" where
  "tick dcid sid e = (case map_of (me_conns e) dcid of None \<Rightarrow> None | Some c \<Rightarrow>
     (case map_of (mc_streams c) sid of None \<Rightarrow> None | Some s \<Rightarrow>
       if ms_want_read s \<and> ms_buf s \<noteq> [] then app_on_read dcid sid e else Some e))"

fun tick_all :: "(string \<times> 8 word) list \<Rightarrow> mini_engine \<Rightarrow> mini_engine option" where
  "tick_all [] e = Some e"
| "tick_all ((dcid, sid) # vs) e = (case tick dcid sid e of None \<Rightarrow> None | Some e' \<Rightarrow> tick_all vs e')"

definition flush :: "string \<Rightarrow> mini_engine \<Rightarrow> mini_engine" where
  "flush dcid e = (case map_of (me_conns e) dcid of None \<Rightarrow> e | Some c \<Rightarrow>
     if mc_outbox c \<noteq> [] then put_conn dcid (c\<lparr>mc_outbox := []\<rparr>) (app_on_packets_out dcid (mc_outbox c) e) else e)"

definition mini_engine_process_conns :: "visits \<Rightarrow> mini_engine \<Rightarrow> mini_engine option" where
  "mini_engine_process_conns vs e =
     map_option (fold flush (map fst vs))
       (tick_all (concat (map (\<lambda>(dcid, sids). map (Pair dcid) sids) vs)) e)"

text \<open>Find or make the connection, then the stream in it.\<close>

definition find_conn :: "string \<Rightarrow> mini_engine \<Rightarrow> mini_engine" where
  "find_conn dcid e = (case map_of (me_conns e) dcid of
       Some c \<Rightarrow> e
     | None \<Rightarrow> (let (ctx, e') = app_on_new_conn e in
         put_conn dcid \<lparr>mc_ctx = Some ctx, mc_closed = False, mc_streams = [], mc_outbox = []\<rparr> e'))"

definition find_stream :: "string \<Rightarrow> 8 word \<Rightarrow> mini_engine \<Rightarrow> mini_engine option" where
  "find_stream dcid sid e = (case map_of (me_conns e) dcid of None \<Rightarrow> None | Some c \<Rightarrow>
     (case map_of (mc_streams c) sid of
        Some s \<Rightarrow> Some e
      | None \<Rightarrow> (let (ctx, e') = app_on_new_stream c e in
          Some (put_conn dcid (put_stream sid
            \<lparr>ms_ctx = Some ctx, ms_want_read = False, ms_buf = [], ms_fin = False\<rparr> c) e'))))"

text \<open>Data or the end of the stream; \<open>on_read\<close> when the stream wants to read.\<close>

definition deliver :: "string \<Rightarrow> 8 word \<Rightarrow> char \<Rightarrow> string \<Rightarrow> mini_engine \<Rightarrow> mini_engine option" where
  "deliver dcid sid type payload e = (case map_of (me_conns e) dcid of None \<Rightarrow> None | Some c \<Rightarrow>
     (case map_of (mc_streams c) sid of None \<Rightarrow> None | Some s \<Rightarrow>
       if type = CHR ''D'' \<and> payload \<noteq> [] then
         (let e' = put_conn dcid (put_stream sid (s\<lparr>ms_buf := ms_buf s @ payload\<rparr>) c) e in
          if ms_want_read s then app_on_read dcid sid e' else Some e')
       else if type = CHR ''F'' then
         (let e' = put_conn dcid (put_stream sid (s\<lparr>ms_fin := True\<rparr>) c) e in
          if ms_want_read s then app_on_read dcid sid e' else Some e')
       else Some e))"

text \<open>\<^verbatim>\<open>mini_engine_packet_in\<close>: the result is what it returns and the engine; \<open>order\<close> iterates the engine's maps.\<close>

definition mini_engine_packet_in ::
  "(mini_engine \<Rightarrow> visits) \<Rightarrow> string \<Rightarrow> mini_engine \<Rightarrow> (int \<times> mini_engine) option" where
  "mini_engine_packet_in order bytes e =
     (if length bytes < 6 then Some (-1, e)
      else (let dcid = take 4 bytes; sid = of_char (bytes ! 4) in
        case find_stream dcid sid (find_conn dcid e) of None \<Rightarrow> None | Some e1 \<Rightarrow>
          (case deliver dcid sid (bytes ! 5) (drop 6 bytes) e1 of None \<Rightarrow> None | Some e2 \<Rightarrow>
            map_option (Pair 0) (mini_engine_process_conns (order e2) e2))))"

definition mini_conn_close :: "string \<Rightarrow> mini_engine \<Rightarrow> mini_engine" where
  "mini_conn_close dcid e = (case map_of (me_conns e) dcid of None \<Rightarrow> e | Some c \<Rightarrow>
     if mc_closed c then e
     else (app_on_conn_closed c e)\<lparr>me_conns := AList.delete dcid (me_conns e)\<rparr>)"

definition want_read :: "string \<Rightarrow> 8 word \<Rightarrow> mini_engine \<Rightarrow> mini_engine option" where
  "want_read dcid sid e = (case map_of (me_conns e) dcid of None \<Rightarrow> None | Some c \<Rightarrow>
     (case map_of (mc_streams c) sid of None \<Rightarrow> None | Some s \<Rightarrow>
       Some (put_conn dcid (put_stream sid (snd (mini_stream_wantread True s)) c) e)))"

text \<open>The program: what is left of it is the number of connections and what the session of \<^verbatim>\<open>WXYZ\<close> received.\<close>

definition mini_main :: "(mini_engine \<Rightarrow> visits) \<Rightarrow> (nat \<times> string option) option" where
  "mini_main order = do {
     (_, e1) \<leftarrow> mini_engine_packet_in order (''ABCD'' @ [CHR 0x00] @ ''Dhello'') mini_new;
     (_, e2) \<leftarrow> mini_engine_packet_in order (''ABCD'' @ [CHR 0x01] @ ''Dworld'') e1;
     (_, e3) \<leftarrow> mini_engine_packet_in order (''WXYZ'' @ [CHR 0x00] @ ''Dother'') e2;
     e4 \<leftarrow> want_read ''ABCD'' 0 e3;
     e5 \<leftarrow> want_read ''ABCD'' 1 e4;
     e6 \<leftarrow> want_read ''WXYZ'' 0 e5;
     (_, e7) \<leftarrow> mini_engine_packet_in order (''ABCD'' @ [CHR 0x00] @ ''D!!'') e6;
     (let e8 = mini_conn_close ''ABCD'' e7 in
      Some (length (me_conns e8),
        do { c \<leftarrow> map_of (me_conns e8) ''WXYZ''; a \<leftarrow> mc_ctx c; me_sessions e8 a }))
   }"

section \<open>Lemmas\<close>

lemma read_all_eq: "read_all s received = (received @ ms_buf s, s\<lparr>ms_buf := []\<rparr>)"
proof (induction s received rule: read_all.induct)
  case (1 s received)
  show ?case
  proof (cases "ms_buf s = []")
    case True
    then show ?thesis by (subst read_all.simps) (simp add: mini_stream_read_def)
  next
    case False
    then have "mini_stream_read 64 s = (Inr (take 64 (ms_buf s)), s\<lparr>ms_buf := drop 64 (ms_buf s)\<rparr>)"
      by (simp add: mini_stream_read_def Let_def min_def)
    with 1 [OF this [symmetric] refl] False show ?thesis by (subst read_all.simps) simp
  qed
qed

declare read_all.simps [simp del]

text \<open>The pointers of a connection, and those of all connections.\<close>

definition pointers :: "mini_conn \<Rightarrow> nat option \<times> bool \<times> (8 word \<times> nat option) list" where
  "pointers c = (mc_ctx c, mc_closed c, map (\<lambda>(sid, s). (sid, ms_ctx s)) (mc_streams c))"

definition all_pointers :: "mini_engine \<Rightarrow> (string \<times> nat option \<times> bool \<times> (8 word \<times> nat option) list) list" where
  "all_pointers e = map (\<lambda>(dcid, c). (dcid, pointers c)) (me_conns e)"

definition session_ptrs :: "mini_engine \<Rightarrow> nat option list" where
  "session_ptrs e = map (fst \<circ> snd) (all_pointers e)"

definition stream_ptrs :: "mini_engine \<Rightarrow> nat option list" where
  "stream_ptrs e = concat (map (map snd \<circ> snd \<circ> snd \<circ> snd) (all_pointers e))"

text \<open>Every connection has its own live session and every stream its own live context that points to it;
  there is no other object.\<close>

definition conn_ok :: "mini_engine \<Rightarrow> nat option \<times> bool \<times> (8 word \<times> nat option) list \<Rightarrow> bool" where
  "conn_ok e = (\<lambda>(ctx, closed, streams). \<not> closed \<and> distinct (map fst streams)
     \<and> (\<exists>a. ctx = Some a \<and> (\<forall>(sid, p) \<in> set streams. \<exists>x. p = Some x \<and> me_app_streams e x = Some a)))"

definition mini_ok :: "mini_engine \<Rightarrow> bool" where
  "mini_ok e \<longleftrightarrow> distinct (map fst (all_pointers e)) \<and> (\<forall>(dcid, ps) \<in> set (all_pointers e). conn_ok e ps)
     \<and> distinct (session_ptrs e) \<and> set (session_ptrs e) = Some ` dom (me_sessions e)
     \<and> distinct (stream_ptrs e) \<and> set (stream_ptrs e) = Some ` dom (me_app_streams e)
     \<and> (\<forall>a \<in> dom (me_sessions e) \<union> dom (me_app_streams e). a < me_next e)"

definition same_objects :: "mini_engine \<Rightarrow> mini_engine \<Rightarrow> bool" where
  "same_objects e f \<longleftrightarrow> all_pointers f = all_pointers e \<and> dom (me_sessions f) = dom (me_sessions e)
     \<and> me_app_streams f = me_app_streams e \<and> me_next f = me_next e"

lemma mini_ok_same: "mini_ok e \<Longrightarrow> same_objects e f \<Longrightarrow> mini_ok f"
  by (simp add: mini_ok_def same_objects_def session_ptrs_def stream_ptrs_def conn_ok_def)

lemma same_objects_trans: "same_objects e f \<Longrightarrow> same_objects f g \<Longrightarrow> same_objects e g"
  by (simp add: same_objects_def)

lemma same_objects_refl [simp]: "same_objects e e"
  by (simp add: same_objects_def)

lemma map_update_same:
  "map_of xs k = Some v0 \<Longrightarrow> g v = g v0 \<Longrightarrow> map (\<lambda>(k, v). (k, g v)) (AList.update k v xs) = map (\<lambda>(k, v). (k, g v)) xs"
  by (induction xs) (auto split: if_splits)

lemma update_new: "map_of xs k = None \<Longrightarrow> AList.update k v xs = xs @ [(k, v)]"
  by (induction xs) (auto split: if_splits)

lemma pointers_put_stream:
  assumes "map_of (mc_streams c) sid = Some s" "ms_ctx s' = ms_ctx s"
  shows "pointers (put_stream sid s' c) = pointers c"
  using map_update_same [OF assms(1), of ms_ctx s'] assms(2) by (simp add: pointers_def put_stream_def)

lemma all_pointers_put_conn:
  assumes "map_of (me_conns e) dcid = Some c" "pointers c' = pointers c"
  shows "all_pointers (put_conn dcid c' e) = all_pointers e"
  using map_update_same [OF assms(1), of pointers c'] assms(2) by (simp add: all_pointers_def put_conn_def)

lemma put_conn_frame [simp]:
  "me_sessions (put_conn dcid c e) = me_sessions e" "me_app_streams (put_conn dcid c e) = me_app_streams e"
  "me_next (put_conn dcid c e) = me_next e" "me_sent (put_conn dcid c e) = me_sent e"
  "map_of (me_conns (put_conn dcid c e)) = (map_of (me_conns e))(dcid \<mapsto> c)"
  by (simp_all add: put_conn_def update_conv')

lemma put_stream_frame [simp]:
  "mc_ctx (put_stream sid s c) = mc_ctx c" "mc_closed (put_stream sid s c) = mc_closed c"
  "mc_outbox (put_stream sid s c) = mc_outbox c"
  "map_of (mc_streams (put_stream sid s c)) = (map_of (mc_streams c))(sid \<mapsto> s)"
  by (simp_all add: put_stream_def update_conv')

lemma same_objects_put:
  assumes "map_of (me_conns e) dcid = Some c" "map_of (mc_streams c) sid = Some s" "ms_ctx s' = ms_ctx s"
  shows "same_objects e (put_conn dcid (put_stream sid s' c) e)"
  using all_pointers_put_conn [OF assms(1) pointers_put_stream [OF assms(2,3)]] by (simp add: same_objects_def)

lemma mini_ok_stream:
  assumes "mini_ok e" "map_of (me_conns e) dcid = Some c" "map_of (mc_streams c) sid = Some s"
  shows "\<exists>x a. ms_ctx s = Some x \<and> me_app_streams e x = Some a \<and> mc_ctx c = Some a \<and> me_sessions e a \<noteq> None"
proof -
  have c: "(dcid, pointers c) \<in> set (all_pointers e)"
    using map_of_SomeD [OF assms(2)] by (force simp: all_pointers_def)
  then have ok: "conn_ok e (pointers c)" using assms(1) by (auto simp: mini_ok_def)
  have "(fst \<circ> snd) (dcid, pointers c) \<in> set (session_ptrs e)"
    unfolding session_ptrs_def using c by (simp only: set_map imageI)
  then have p: "mc_ctx c \<in> set (session_ptrs e)" by (simp add: pointers_def)
  have "(sid, ms_ctx s) \<in> set (map (\<lambda>(sid, s). (sid, ms_ctx s)) (mc_streams c))"
    using map_of_SomeD [OF assms(3)] by force
  with ok obtain x a where "mc_ctx c = Some a" "ms_ctx s = Some x" "me_app_streams e x = Some a"
    by (auto simp: conn_ok_def pointers_def)
  moreover from p this(1) have "me_sessions e a \<noteq> None" using assms(1) by (auto simp: mini_ok_def)
  ultimately show ?thesis by blast
qed

lemma mini_ok_session_own:
  assumes "mini_ok e" "map_of (me_conns e) dcid = Some c" "map_of (me_conns e) dcid' = Some c'" "mc_ctx c = mc_ctx c'"
  shows "dcid = dcid'"
proof -
  have "(dcid, pointers c) \<in> set (all_pointers e)" "(dcid', pointers c') \<in> set (all_pointers e)"
    using map_of_SomeD [OF assms(2)] map_of_SomeD [OF assms(3)] by (force simp: all_pointers_def)+
  moreover have "inj_on (fst \<circ> snd) (set (all_pointers e))"
    using assms(1) by (simp add: mini_ok_def session_ptrs_def distinct_map)
  moreover have "(fst \<circ> snd) (dcid, pointers c) = (fst \<circ> snd) (dcid', pointers c')"
    using assms(4) by (simp add: pointers_def)
  ultimately show ?thesis by (metis inj_onD prod.inject)
qed

text \<open>The bytes of a connection: received by the application, and waiting in the streams.\<close>

definition buffered :: "mini_conn \<Rightarrow> char multiset" where
  "buffered c = sum_list (map (\<lambda>(sid, s). mset (ms_buf s)) (mc_streams c))"

definition received_by :: "mini_conn \<Rightarrow> mini_engine \<Rightarrow> char multiset" where
  "received_by c e = (case mc_ctx c of None \<Rightarrow> {#} | Some a \<Rightarrow>
     (case me_sessions e a of None \<Rightarrow> {#} | Some r \<Rightarrow> mset r))"

definition held_bytes :: "string \<Rightarrow> mini_engine \<Rightarrow> char multiset" where
  "held_bytes dcid e = (case map_of (me_conns e) dcid of None \<Rightarrow> {#} | Some c \<Rightarrow> received_by c e + buffered c)"

lemma received_by_put_conn [simp]: "received_by c (put_conn d c' e) = received_by c e"
  unfolding received_by_def put_conn_frame ..

lemma received_by_put_stream [simp]: "received_by (put_stream sid s c) e = received_by c e"
  by (simp add: received_by_def)

lemma sum_update:
  fixes g :: "'v \<Rightarrow> 'm multiset"
  shows "map_of xs k = Some v0 \<Longrightarrow>
    sum_list (map (\<lambda>(k, v). g v) (AList.update k v xs)) + g v0 = sum_list (map (\<lambda>(k, v). g v) xs) + g v"
  by (induction xs) (auto split: if_splits simp: ac_simps)

lemma buffered_put_stream:
  "map_of (mc_streams c) sid = Some s \<Longrightarrow> buffered (put_stream sid s' c) + mset (ms_buf s) = buffered c + mset (ms_buf s')"
  using sum_update [of "mc_streams c" sid s "\<lambda>s. mset (ms_buf s)" s'] by (simp add: buffered_def put_stream_def)

lemma mini_stream_write_frame [simp]:
  "mc_ctx (mini_stream_write bs c) = mc_ctx c" "mc_streams (mini_stream_write bs c) = mc_streams c"
  "pointers (mini_stream_write bs c) = pointers c" "buffered (mini_stream_write bs c) = buffered c"
  by (simp_all add: mini_stream_write_def pointers_def buffered_def)

text \<open>Streams that \<^verbatim>\<open>process_conns\<close> has work for.\<close>

definition wanting :: "mini_engine \<Rightarrow> (string \<times> 8 word) set" where
  "wanting e = {(d, sid). \<exists>c s. map_of (me_conns e) d = Some c \<and> map_of (mc_streams c) sid = Some s
     \<and> ms_want_read s \<and> ms_buf s \<noteq> []}"

definition calm :: "mini_engine \<Rightarrow> mini_engine \<Rightarrow> bool" where
  "calm e f \<longleftrightarrow> same_objects e f \<and> (\<forall>d. held_bytes d f = held_bytes d e)"

lemma app_on_read_effect:
  assumes "mini_ok e" "map_of (me_conns e) dcid = Some c" "map_of (mc_streams c) sid = Some s"
  shows "\<exists>f. app_on_read dcid sid e = Some f \<and> calm e f \<and> wanting f = wanting e - {(dcid, sid)}"
proof -
  from mini_ok_stream [OF assms] obtain x a r where ptr: "ms_ctx s = Some x" "me_app_streams e x = Some a"
    "mc_ctx c = Some a" "me_sessions e a = Some r" by auto
  let ?s = "s\<lparr>ms_buf := [], ms_want_read := False\<rparr>"
  let ?c = "mini_stream_write (''echo:'' @ (r @ ms_buf s) @ [LF]) (put_stream sid ?s c)"
  let ?f = "(put_conn dcid ?c e)\<lparr>me_sessions := (me_sessions e)(a := Some (r @ ms_buf s))\<rparr>"
  have run: "app_on_read dcid sid e = Some ?f"
    using assms(2,3) ptr by (simp add: app_on_read_def read_all_eq mini_stream_wantread_def)
  have "all_pointers ?f = all_pointers e"
    using all_pointers_put_conn [OF assms(2), of ?c] pointers_put_stream [OF assms(3), of ?s]
    by (simp add: all_pointers_def)
  then have "same_objects e ?f" using ptr by (auto simp: same_objects_def)
  moreover have "held_bytes d ?f = held_bytes d e" for d
  proof (cases "d = dcid")
    case True
    from buffered_put_stream [OF assms(3), of ?s] have "buffered c = buffered (put_stream sid ?s c) + mset (ms_buf s)" by simp
    with True assms(2) ptr show ?thesis
      by (simp add: held_bytes_def received_by_def ac_simps)
  next
    case False
    have "mc_ctx c' \<noteq> Some a" if "map_of (me_conns e) d = Some c'" for c'
      using mini_ok_session_own [OF assms(1,2) that] False ptr(3) by auto
    then show ?thesis using False
      by (auto simp: held_bytes_def received_by_def split: option.splits)
  qed
  moreover have "(d, i) \<in> wanting ?f \<longleftrightarrow> (d, i) \<in> wanting e - {(dcid, sid)}" for d i
    using assms(2) by (cases "d = dcid"; cases "i = sid") (simp_all add: wanting_def)
  then have "wanting ?f = wanting e - {(dcid, sid)}" by auto
  ultimately show ?thesis using run unfolding calm_def by blast
qed

lemma calm_trans: "calm e f \<Longrightarrow> calm f g \<Longrightarrow> calm e g"
  by (auto simp: calm_def intro: same_objects_trans)

lemma calm_refl [simp]: "calm e e"
  by (simp add: calm_def)

lemma calm_ok: "calm e f \<Longrightarrow> mini_ok e \<Longrightarrow> mini_ok f"
  by (auto simp: calm_def intro: mini_ok_same)

definition stream_names :: "mini_engine \<Rightarrow> (string \<times> 8 word) set" where
  "stream_names e = {(d, sid). \<exists>c. map_of (me_conns e) d = Some c \<and> map_of (mc_streams c) sid \<noteq> None}"

lemma map_of_map_dom: "map_of (map (\<lambda>(k, v). (k, g v)) xs) k = map_option g (map_of xs k)"
  by (induction xs) auto

lemma stream_names_pointers:
  "stream_names e = {(d, sid). \<exists>ps. map_of (all_pointers e) d = Some ps \<and> map_of (snd (snd ps)) sid \<noteq> None}"
  by (auto simp: stream_names_def all_pointers_def map_of_map_dom pointers_def)

lemma calm_names: "calm e f \<Longrightarrow> stream_names f = stream_names e"
  by (simp add: calm_def same_objects_def stream_names_pointers)

lemma tick_effect:
  assumes "mini_ok e" "(d, sid) \<in> stream_names e"
  shows "\<exists>f. tick d sid e = Some f \<and> calm e f \<and> wanting f = wanting e - {(d, sid)}"
proof -
  from assms(2) obtain c s where cs: "map_of (me_conns e) d = Some c" "map_of (mc_streams c) sid = Some s"
    by (auto simp: stream_names_def)
  show ?thesis
  proof (cases "ms_want_read s \<and> ms_buf s \<noteq> []")
    case True
    with app_on_read_effect [OF assms(1) cs] cs show ?thesis by (simp add: tick_def)
  next
    case False
    with cs have "(d, sid) \<notin> wanting e" by (auto simp: wanting_def)
    with False cs show ?thesis by (auto simp: tick_def)
  qed
qed

lemma tick_all_effect:
  assumes "mini_ok e" "set vs \<subseteq> stream_names e"
  shows "\<exists>f. tick_all vs e = Some f \<and> calm e f \<and> wanting f = wanting e - set vs"
  using assms
proof (induction vs arbitrary: e)
  case (Cons v vs)
  obtain d sid where v: "v = (d, sid)" by (cases v)
  with tick_effect [of e d sid] Cons.prems obtain f where f: "tick d sid e = Some f" "calm e f"
    "wanting f = wanting e - {v}" by auto
  moreover from f(2) Cons.prems have "mini_ok f" "set vs \<subseteq> stream_names f" by (auto simp: calm_names intro: calm_ok)
  from Cons.IH [OF this] obtain g where "tick_all vs f = Some g" "calm f g" "wanting g = wanting f - set vs" by blast
  ultimately show ?case using v by (auto intro: calm_trans)
qed simp

definition talking :: "mini_engine \<Rightarrow> string set" where
  "talking e = {d. \<exists>c. map_of (me_conns e) d = Some c \<and> mc_outbox c \<noteq> []}"

lemma flush_effect: "calm e (flush d e) \<and> wanting (flush d e) = wanting e \<and> talking (flush d e) = talking e - {d}"
proof (cases "map_of (me_conns e) d")
  case None
  then show ?thesis by (auto simp: flush_def talking_def)
next
  case (Some c)
  let ?c = "c\<lparr>mc_outbox := []\<rparr>"
  have p: "pointers ?c = pointers c" "buffered ?c = buffered c" by (simp_all add: pointers_def buffered_def)
  have "all_pointers (put_conn d ?c (app_on_packets_out d (mc_outbox c) e)) = all_pointers e"
    using all_pointers_put_conn [of "app_on_packets_out d (mc_outbox c) e" d c ?c] p(1) Some
    by (simp add: app_on_packets_out_def all_pointers_def)
  with Some p(2) show ?thesis
    by (auto simp: flush_def calm_def same_objects_def held_bytes_def received_by_def wanting_def talking_def
        app_on_packets_out_def split: option.splits if_splits)
qed

lemma fold_flush_effect:
  "calm e (fold flush ds e) \<and> wanting (fold flush ds e) = wanting e \<and> talking (fold flush ds e) = talking e - set ds"
proof (induction ds arbitrary: e)
  case (Cons d ds)
  from Cons [of "flush d e"] flush_effect [of e d] calm_trans [of e "flush d e"] show ?case by auto
qed simp

text \<open>\<open>vs\<close> visits every connection and every stream of it once.\<close>

definition iterates :: "visits \<Rightarrow> mini_engine \<Rightarrow> bool" where
  "iterates vs e \<longleftrightarrow> distinct (map fst vs) \<and> fst ` set vs = fst ` set (me_conns e)
     \<and> (\<forall>(d, sids) \<in> set vs. distinct sids
          \<and> (\<forall>c. map_of (me_conns e) d = Some c \<longrightarrow> set sids = fst ` set (mc_streams c)))"

lemma iteratesD:
  assumes "iterates vs e" "(d, sids) \<in> set vs" "map_of (me_conns e) d = Some c"
  shows "set sids = fst ` set (mc_streams c)"
proof -
  have "case (d, sids) of (d, sids) \<Rightarrow> distinct sids
      \<and> (\<forall>c. map_of (me_conns e) d = Some c \<longrightarrow> set sids = fst ` set (mc_streams c))"
    using assms(1,2) unfolding iterates_def by (elim conjE) (rule bspec)
  with assms(3) show ?thesis by simp
qed

lemma iterates_conn:
  assumes "iterates vs e"
  shows "(\<exists>sids. (d, sids) \<in> set vs) \<longleftrightarrow> (\<exists>c. map_of (me_conns e) d = Some c)"
proof -
  have "(\<exists>sids. (d, sids) \<in> set vs) \<longleftrightarrow> d \<in> fst ` set vs" by force
  also have "\<dots> \<longleftrightarrow> d \<in> dom (map_of (me_conns e))"
    using assms by (simp add: iterates_def dom_map_of_conv_image_fst)
  finally show ?thesis by (simp add: dom_def)
qed

lemma iterates_names:
  assumes "iterates vs e"
  shows "set (concat (map (\<lambda>(d, sids). map (Pair d) sids) vs)) = stream_names e"
proof -
  have "(d, sid) \<in> set (concat (map (\<lambda>(d, sids). map (Pair d) sids) vs)) \<longleftrightarrow> (d, sid) \<in> stream_names e" for d sid
  proof -
    have "(d, sid) \<in> set (concat (map (\<lambda>(d, sids). map (Pair d) sids) vs)) \<longleftrightarrow>
        (\<exists>sids. (d, sids) \<in> set vs \<and> sid \<in> set sids)" by force
    also have "\<dots> \<longleftrightarrow> (\<exists>c. map_of (me_conns e) d = Some c \<and> sid \<in> fst ` set (mc_streams c))"
      using iterates_conn [OF assms, of d] iteratesD [OF assms, of d] by metis
    also have "\<dots> \<longleftrightarrow> (d, sid) \<in> stream_names e"
      by (simp add: stream_names_def map_of_eq_None_iff)
    finally show ?thesis .
  qed
  then show ?thesis by (intro set_eqI) (simp only: split_paired_all)
qed

lemma conn_names_pointers: "fst ` set (all_pointers e) = fst ` set (me_conns e)"
  by (force simp: all_pointers_def)

lemma process_conns_effect:
  assumes "mini_ok e" "iterates vs e"
  shows "\<exists>f. mini_engine_process_conns vs e = Some f \<and> calm e f \<and> wanting f = {} \<and> talking f = {}"
proof -
  let ?vs = "concat (map (\<lambda>(dcid, sids). map (Pair dcid) sids) vs)"
  have vs: "set ?vs = stream_names e" by (rule iterates_names [OF assms(2)])
  from tick_all_effect [of e ?vs] assms(1) vs obtain f where f: "tick_all ?vs e = Some f" "calm e f"
    "wanting f = wanting e - stream_names e" by auto
  have "wanting e \<subseteq> stream_names e" by (auto simp: wanting_def stream_names_def)
  with f(3) have w: "wanting f = {}" by blast
  have "talking f \<subseteq> fst ` set (me_conns f)" by (force simp: talking_def dest: map_of_SomeD)
  also have "\<dots> = set (map fst vs)" using assms(2) f(2) conn_names_pointers [of e] conn_names_pointers [of f]
    by (simp add: iterates_def calm_def same_objects_def)
  finally have "talking (fold flush (map fst vs) f) = {}" using fold_flush_effect [of f "map fst vs"] by auto
  moreover have "calm e (fold flush (map fst vs) f)" "wanting (fold flush (map fst vs) f) = {}"
    using fold_flush_effect [of f "map fst vs"] f(2) w by (auto intro: calm_trans)
  ultimately show ?thesis using f(1) by (simp add: mini_engine_process_conns_def)
qed

lemma mini_ok_fresh:
  assumes "mini_ok e"
  shows "me_sessions e (me_next e) = None" "me_app_streams e (me_next e) = None"
    "Some (me_next e) \<notin> set (session_ptrs e)" "Some (me_next e) \<notin> set (stream_ptrs e)"
proof -
  have "me_next e \<notin> dom (me_sessions e)" "me_next e \<notin> dom (me_app_streams e)"
    using assms by (auto simp: mini_ok_def)
  with assms show "me_sessions e (me_next e) = None" "me_app_streams e (me_next e) = None"
    "Some (me_next e) \<notin> set (session_ptrs e)" "Some (me_next e) \<notin> set (stream_ptrs e)"
    by (auto simp: mini_ok_def)
qed

lemma find_conn_effect:
  assumes "mini_ok e"
  shows "mini_ok (find_conn d e) \<and> (\<forall>d'. held_bytes d' (find_conn d e) = held_bytes d' e)
    \<and> map_of (me_conns (find_conn d e)) d \<noteq> None"
proof (cases "map_of (me_conns e) d")
  case None
  let ?f = "find_conn d e" and ?n = "me_next e"
  have f: "me_conns ?f = me_conns e @ [(d, \<lparr>mc_ctx = Some ?n, mc_closed = False, mc_streams = [], mc_outbox = []\<rparr>)]"
    "me_sessions ?f = (me_sessions e)(?n \<mapsto> [])" "me_app_streams ?f = me_app_streams e" "me_next ?f = Suc ?n"
    using None by (simp_all add: find_conn_def app_on_new_conn_def put_conn_def update_new)
  have p: "all_pointers ?f = all_pointers e @ [(d, Some ?n, False, [])]"
    using f(1) by (simp add: all_pointers_def pointers_def)
  have "d \<notin> fst ` set (all_pointers e)" using None by (simp add: conn_names_pointers map_of_eq_None_iff)
  with assms mini_ok_fresh [OF assms] p f have "mini_ok ?f"
    by (auto simp: mini_ok_def session_ptrs_def stream_ptrs_def conn_ok_def less_Suc_eq)
  moreover have "held_bytes d' ?f = held_bytes d' e" for d'
  proof -
    have "mc_ctx c \<noteq> Some ?n" if "map_of (me_conns e) d' = Some c" for c
    proof -
      have "mc_ctx c \<in> set (session_ptrs e)" using map_of_SomeD [OF that]
        by (force simp: session_ptrs_def all_pointers_def pointers_def)
      with mini_ok_fresh(3) [OF assms] show ?thesis by auto
    qed
    with None f mini_ok_fresh(1) [OF assms] show ?thesis
      by (auto simp: held_bytes_def received_by_def map_add_def buffered_def split: option.splits)
  qed
  ultimately show ?thesis using f(1) None by (simp add: map_add_def)
qed (simp add: find_conn_def assms)

lemma stream_ptrs_mset:
  "mset (stream_ptrs e) = sum_list (map (\<lambda>(d, c). mset (map (ms_ctx \<circ> snd) (mc_streams c))) (me_conns e))"
proof -
  have "map (map snd \<circ> snd \<circ> snd \<circ> snd) (all_pointers e) = map (\<lambda>(d, c). map (ms_ctx \<circ> snd) (mc_streams c)) (me_conns e)"
    by (auto simp: all_pointers_def pointers_def)
  then have "stream_ptrs e = concat (map (\<lambda>(d, c). map (ms_ctx \<circ> snd) (mc_streams c)) (me_conns e))"
    by (simp add: stream_ptrs_def)
  then show ?thesis by (simp add: mset_concat comp_def case_prod_unfold)
qed

lemma set_update_key:
  "distinct (map fst xs) \<Longrightarrow> set (AList.update k v xs) = insert (k, v) {x \<in> set xs. fst x \<noteq> k}"
  by (induction xs) force+

lemma pointer_keys:
  "map fst (all_pointers e) = map fst (me_conns e)" "session_ptrs e = map (mc_ctx \<circ> snd) (me_conns e)"
  by (auto simp: all_pointers_def session_ptrs_def pointers_def)

lemma mini_ok_keys: "mini_ok e \<Longrightarrow> distinct (map fst (me_conns e))"
  by (simp add: mini_ok_def pointer_keys)

lemma mini_ok_conn: "mini_ok e \<Longrightarrow> (d, c) \<in> set (me_conns e) \<Longrightarrow> conn_ok e (pointers c)"
  by (auto simp: mini_ok_def all_pointers_def)

lemma keys_update: "map_of xs k = Some v0 \<Longrightarrow> map fst (AList.update k v xs) = map fst xs"
  by (induction xs) (auto split: if_splits)

lemma map_snd_update: "map_of xs k = Some v0 \<Longrightarrow> g v = g v0 \<Longrightarrow> map (g \<circ> snd) (AList.update k v xs) = map (g \<circ> snd) xs"
  by (induction xs) (auto split: if_splits)

definition new_stream :: "nat \<Rightarrow> mini_stream" where
  "new_stream ctx = \<lparr>ms_ctx = Some ctx, ms_want_read = False, ms_buf = [], ms_fin = False\<rparr>"

lemma new_stream_sel [simp]: "ms_ctx (new_stream ctx) = Some ctx" "ms_buf (new_stream ctx) = []"
  by (simp_all add: new_stream_def)

lemma mini_ok_new_stream:
  assumes "mini_ok e" "map_of (me_conns e) d = Some c" "map_of (mc_streams c) sid = None"
  shows "mini_ok (put_conn d (put_stream sid (new_stream (me_next e)) c)
    (e\<lparr>me_app_streams := (me_app_streams e)(me_next e := mc_ctx c), me_next := me_next e + 1\<rparr>))"
    (is "mini_ok ?f")
proof -
  let ?n = "me_next e" and ?c = "put_stream sid (new_stream (me_next e)) c"
  have str: "mc_streams ?c = mc_streams c @ [(sid, new_stream ?n)]" using assms(3) by (simp add: put_stream_def update_new)
  have ok: "conn_ok e (pointers c)" using mini_ok_conn [OF assms(1) map_of_SomeD [OF assms(2)]] .
  then obtain a where a: "mc_ctx c = Some a" by (auto simp: conn_ok_def pointers_def)
  have ptrs: "mset (stream_ptrs ?f) = mset (Some ?n # stream_ptrs e)"
    using sum_update [OF assms(2), of "\<lambda>c. mset (map (ms_ctx \<circ> snd) (mc_streams c))" ?c]
    by (simp add: stream_ptrs_mset put_conn_def str)
  have keep: "conn_ok ?f qs" if "conn_ok e qs" for qs
    using that mini_ok_fresh(2) [OF assms(1)] by (fastforce simp: conn_ok_def)
  have "conn_ok ?f (pointers ?c)"
    using keep [OF ok] assms(3) a str by (auto simp: conn_ok_def pointers_def map_of_eq_None_iff rev_image_eqI)
  moreover have "set (me_conns ?f) = insert (d, ?c) {x \<in> set (me_conns e). fst x \<noteq> d}"
    using set_update_key [OF mini_ok_keys [OF assms(1)]] by (simp add: put_conn_def)
  ultimately have "conn_ok ?f (pointers b)" if "(d', b) \<in> set (me_conns ?f)" for d' b
    using that keep [OF mini_ok_conn [OF assms(1)], of d' b] by auto
  then have "\<forall>(d', ps) \<in> set (all_pointers ?f). conn_ok ?f ps" unfolding all_pointers_def by fastforce
  moreover have "map fst (all_pointers ?f) = map fst (all_pointers e)" "session_ptrs ?f = session_ptrs e"
    using keys_update [OF assms(2)] map_snd_update [OF assms(2), of mc_ctx ?c] by (simp_all add: pointer_keys put_conn_def)
  moreover have "distinct (stream_ptrs ?f)" "set (stream_ptrs ?f) = insert (Some ?n) (set (stream_ptrs e))"
    using mset_eq_imp_distinct_iff [OF ptrs] mset_eq_setD [OF ptrs] mini_ok_fresh(4) [OF assms(1)] assms(1)
    by (auto simp: mini_ok_def)
  ultimately show ?thesis using assms(1) a by (auto simp: mini_ok_def less_Suc_eq)
qed

lemma find_stream_effect:
  assumes "mini_ok e" "map_of (me_conns e) d \<noteq> None"
  shows "\<exists>f. find_stream d sid e = Some f \<and> mini_ok f \<and> (\<forall>d'. held_bytes d' f = held_bytes d' e) \<and> (d, sid) \<in> stream_names f"
proof -
  from assms(2) obtain c where c: "map_of (me_conns e) d = Some c" by blast
  show ?thesis
  proof (cases "map_of (mc_streams c) sid")
    case None
    let ?n = "me_next e" and ?c = "put_stream sid (new_stream (me_next e)) c"
    let ?f = "put_conn d ?c (e\<lparr>me_app_streams := (me_app_streams e)(?n := mc_ctx c), me_next := ?n + 1\<rparr>)"
    have "find_stream d sid e = Some ?f" using c None by (simp add: find_stream_def app_on_new_stream_def new_stream_def)
    moreover have "buffered ?c = buffered c" using None by (simp add: buffered_def put_stream_def update_new)
    then have "held_bytes d' ?f = held_bytes d' e" for d'
      using c by (auto simp: held_bytes_def received_by_def split: option.splits)
    ultimately show ?thesis using mini_ok_new_stream [OF assms(1) c None] by (auto simp: stream_names_def)
  next
    case (Some s)
    with c assms(1) show ?thesis by (auto simp: find_stream_def stream_names_def)
  qed
qed

lemma deliver_effect:
  assumes "mini_ok e" "(d, sid) \<in> stream_names e"
  shows "\<exists>f. deliver d sid type payload e = Some f \<and> mini_ok f
    \<and> held_bytes d f = held_bytes d e + (if type = CHR ''D'' then mset payload else {#})
    \<and> (\<forall>d'. d' \<noteq> d \<longrightarrow> held_bytes d' f = held_bytes d' e)"
proof -
  from assms(2) obtain c s where cs: "map_of (me_conns e) d = Some c" "map_of (mc_streams c) sid = Some s"
    by (auto simp: stream_names_def)
  have put: "\<exists>f. (if ms_want_read s then app_on_read d sid g else Some g) = Some f \<and> mini_ok f
      \<and> held_bytes d f = held_bytes d e + mset more \<and> (\<forall>d'. d' \<noteq> d \<longrightarrow> held_bytes d' f = held_bytes d' e)"
    if g: "g = put_conn d (put_stream sid s' c) e" and s': "ms_ctx s' = ms_ctx s" "ms_buf s' = ms_buf s @ more" for g s' more
  proof -
    have "mini_ok g" unfolding g by (rule mini_ok_same [OF assms(1) same_objects_put [OF cs s'(1)]])
    moreover have "buffered (put_stream sid s' c) = buffered c + mset more"
      using buffered_put_stream [OF cs(2), of s'] s'(2) by (simp add: ac_simps)
    then have "held_bytes d g = held_bytes d e + mset more" "\<forall>d'. d' \<noteq> d \<longrightarrow> held_bytes d' g = held_bytes d' e"
      using cs(1) by (simp_all add: g held_bytes_def ac_simps split: option.split)
    moreover have "map_of (me_conns g) d = Some (put_stream sid s' c)" "map_of (mc_streams (put_stream sid s' c)) sid = Some s'"
      by (simp_all add: g)
    note app_on_read_effect [OF \<open>mini_ok g\<close> this]
    ultimately show ?thesis by (cases "ms_want_read s") (auto simp: calm_def intro: mini_ok_same)
  qed
  from put [OF refl, of "s\<lparr>ms_buf := ms_buf s @ payload\<rparr>" payload] put [OF refl, of "s\<lparr>ms_fin := True\<rparr>" "[]"] cs assms(1)
  show ?thesis by (cases "type = CHR ''D'' \<and> payload \<noteq> []"; cases "type = CHR ''F''") (auto simp: deliver_def Let_def)
qed

text \<open>What a packet carries for connection \<open>d\<close>.\<close>

definition payload_for :: "string \<Rightarrow> string \<Rightarrow> char multiset" where
  "payload_for d bytes = (if 6 \<le> length bytes \<and> take 4 bytes = d \<and> bytes ! 5 = CHR ''D'' then mset (drop 6 bytes) else {#})"

lemma packet_in_effect:
  assumes "mini_ok e" "\<forall>f. iterates (order f) f"
  shows "\<exists>rc f. mini_engine_packet_in order bytes e = Some (rc, f) \<and> mini_ok f
    \<and> held_bytes d f = held_bytes d e + payload_for d bytes
    \<and> (6 \<le> length bytes \<longrightarrow> rc = 0 \<and> wanting f = {} \<and> talking f = {})"
proof (cases "length bytes < 6")
  case False
  let ?d = "take 4 bytes" and ?sid = "of_char (bytes ! 4)"
  note fc = find_conn_effect [OF assms(1), of ?d]
  from find_stream_effect [of "find_conn ?d e" ?d ?sid] fc obtain e1 where e1:
    "find_stream ?d ?sid (find_conn ?d e) = Some e1" "mini_ok e1" "\<forall>d'. held_bytes d' e1 = held_bytes d' e"
    "(?d, ?sid) \<in> stream_names e1" by auto
  from deliver_effect [OF e1(2,4), of "bytes ! 5" "drop 6 bytes"] obtain e2 where e2:
    "deliver ?d ?sid (bytes ! 5) (drop 6 bytes) e1 = Some e2" "mini_ok e2"
    "held_bytes ?d e2 = held_bytes ?d e1 + (if bytes ! 5 = CHR ''D'' then mset (drop 6 bytes) else {#})"
    "\<forall>d'. d' \<noteq> ?d \<longrightarrow> held_bytes d' e2 = held_bytes d' e1" by blast
  from process_conns_effect [OF e2(2)] assms(2) obtain f where f:
    "mini_engine_process_conns (order e2) e2 = Some f" "calm e2 f" "wanting f = {}" "talking f = {}" by blast
  have "held_bytes d f = held_bytes d e + payload_for d bytes"
    using f(2) e2(3,4) e1(3) False by (cases "d = ?d") (auto simp: calm_def payload_for_def)
  with f e1(1) e2(1) calm_ok [OF f(2) e2(2)] False show ?thesis by (simp add: mini_engine_packet_in_def Let_def)
qed (use assms in \<open>auto simp: mini_engine_packet_in_def payload_for_def\<close>)

lemma sum_delete:
  fixes g :: "'v \<Rightarrow> 'm multiset"
  shows "distinct (map fst xs) \<Longrightarrow> map_of xs k = Some v \<Longrightarrow>
    sum_list (map (\<lambda>(k, v). g v) xs) = sum_list (map (\<lambda>(k, v). g v) (AList.delete k xs)) + g v"
proof (induction xs)
  case (Cons x xs)
  obtain k' v' where x: "x = (k', v')" by (cases x)
  show ?case
  proof (cases "k' = k")
    case True
    with Cons.prems x have "AList.delete k (x # xs) = xs" by (simp add: delete_id)
    with Cons.prems x True show ?thesis by (simp add: ac_simps)
  qed (use Cons x in \<open>simp add: ac_simps\<close>)
qed simp

lemma session_ptrs_mset: "mset (session_ptrs e) = sum_list (map (\<lambda>(d, c). {#mc_ctx c#}) (me_conns e))"
proof -
  have "mset (map (mc_ctx \<circ> snd) xs) = sum_list (map (\<lambda>(d, c). {#mc_ctx c#}) xs)" for xs :: "(string \<times> mini_conn) list"
    by (induction xs) auto
  then show ?thesis by (simp add: pointer_keys)
qed

lemma fold_delete_ctx:
  "fold (\<lambda>(sid, s). delete_ctx (ms_ctx s)) ss app x =
     (if Some x \<in> set (map (ms_ctx \<circ> snd) ss) then None else app x)"
proof (induction ss arbitrary: app)
  case (Cons s ss)
  obtain sid s' where "s = (sid, s')" by (cases s)
  with Cons show ?case by (auto simp: delete_ctx_def split: option.split)
qed simp

lemma distinct_mset_append:
  "mset zs = mset xs + mset ys \<Longrightarrow> distinct zs \<Longrightarrow> distinct xs \<and> distinct ys \<and> set xs = set zs - set ys"
  using mset_eq_imp_distinct_iff [of zs "xs @ ys"] mset_eq_setD [of zs "xs @ ys"] by auto

lemma conn_ok_cong:
  assumes "conn_ok e ps" "\<And>sid x. (sid, Some x) \<in> set (snd (snd ps)) \<Longrightarrow> me_app_streams f x = me_app_streams e x"
  shows "conn_ok f ps"
proof -
  obtain ctx closed streams where ps: "ps = (ctx, closed, streams)" by (cases ps)
  from assms(1) obtain a where a: "\<not> closed" "distinct (map fst streams)" "ctx = Some a"
    "\<forall>(sid, p) \<in> set streams. \<exists>x. p = Some x \<and> me_app_streams e x = Some a"
    by (auto simp: conn_ok_def ps)
  have "\<exists>x. p = Some x \<and> me_app_streams f x = Some a" if p: "(sid, p) \<in> set streams" for sid p
  proof -
    from a(4) p obtain x where "p = Some x" "me_app_streams e x = Some a" by auto
    with assms(2) [of sid x] p show ?thesis by (simp add: ps)
  qed
  with a show ?thesis by (simp add: conn_ok_def ps) fastforce
qed

lemma close_state:
  assumes "mini_ok e" "map_of (me_conns e) d = Some c"
  shows "\<exists>a. mc_ctx c = Some a \<and> me_conns (mini_conn_close d e) = AList.delete d (me_conns e)
    \<and> me_sessions (mini_conn_close d e) = (me_sessions e)(a := None) \<and> me_next (mini_conn_close d e) = me_next e
    \<and> (\<forall>x. me_app_streams (mini_conn_close d e) x =
          (if Some x \<in> set (map (ms_ctx \<circ> snd) (mc_streams c)) then None else me_app_streams e x))"
proof -
  have "conn_ok e (pointers c)" by (rule mini_ok_conn [OF assms(1) map_of_SomeD [OF assms(2)]])
  then obtain a where "mc_ctx c = Some a" "\<not> mc_closed c" by (auto simp: conn_ok_def pointers_def)
  with assms(2) show ?thesis
    by (simp add: mini_conn_close_def app_on_conn_closed_def fold_delete_ctx) (simp add: delete_ctx_def)
qed

lemma mini_ok_close:
  assumes "mini_ok e" "map_of (me_conns e) d = Some c"
  shows "mini_ok (mini_conn_close d e)" (is "mini_ok ?f")
proof -
  let ?ps = "map (ms_ctx \<circ> snd) (mc_streams c)"
  from close_state [OF assms] obtain a where a: "mc_ctx c = Some a"
    and f: "me_conns ?f = AList.delete d (me_conns e)" "me_sessions ?f = (me_sessions e)(a := None)"
    "me_app_streams ?f x = (if Some x \<in> set ?ps then None else me_app_streams e x)" "me_next ?f = me_next e" for x
    by blast
  note d = mini_ok_keys [OF assms(1)]
  have strs: "distinct (stream_ptrs ?f)" "set (stream_ptrs ?f) = set (stream_ptrs e) - set ?ps"
    using distinct_mset_append [of "stream_ptrs e" "stream_ptrs ?f" ?ps] assms(1)
      sum_delete [OF d assms(2), of "\<lambda>c. mset (map (ms_ctx \<circ> snd) (mc_streams c))"]
    by (simp_all add: stream_ptrs_mset f(1) mini_ok_def)
  have sess: "distinct (session_ptrs ?f)" "set (session_ptrs ?f) = set (session_ptrs e) - {Some a}"
    using distinct_mset_append [of "session_ptrs e" "session_ptrs ?f" "[Some a]"] assms(1) a
      sum_delete [OF d assms(2), of "\<lambda>c. {#mc_ctx c#}"]
    by (simp_all add: session_ptrs_mset f(1) mini_ok_def)
  have "conn_ok ?f (pointers b)" if b: "(d', b) \<in> set (me_conns ?f)" for d' b
  proof (rule conn_ok_cong)
    from b have "(d', b) \<in> set (me_conns e)" by (auto simp: f(1) AList.delete_eq)
    then show "conn_ok e (pointers b)" by (rule mini_ok_conn [OF assms(1)])
    fix sid x
    assume "(sid, Some x) \<in> set (snd (snd (pointers b)))"
    with b have "Some x \<in> set (stream_ptrs ?f)" unfolding stream_ptrs_def all_pointers_def by force
    with strs(2) f(3) show "me_app_streams ?f x = me_app_streams e x" by auto
  qed
  then have "\<forall>(d', ps) \<in> set (all_pointers ?f). conn_ok ?f ps" unfolding all_pointers_def by fastforce
  moreover have "distinct (map fst (me_conns ?f))" using d f(1) by (simp add: distinct_delete)
  moreover have "set (stream_ptrs ?f) = Some ` dom (me_app_streams ?f)" "dom (me_app_streams ?f) \<subseteq> dom (me_app_streams e)"
    using strs(2) f(3) assms(1) by (auto simp: mini_ok_def dom_def split: if_splits)
  moreover from this(2) have "\<forall>x \<in> dom (me_sessions ?f) \<union> dom (me_app_streams ?f). x < me_next ?f"
    using assms(1) f(2,4) unfolding mini_ok_def by (auto simp: subset_iff dom_def)
  ultimately show ?thesis using assms(1) sess strs(1) f(2) by (auto simp: mini_ok_def pointer_keys(1))
qed

lemma close_effect:
  assumes "mini_ok e"
  shows "mini_ok (mini_conn_close d e) \<and> (d' \<noteq> d \<longrightarrow> held_bytes d' (mini_conn_close d e) = held_bytes d' e)"
proof (cases "map_of (me_conns e) d")
  case (Some c)
  from close_state [OF assms Some] obtain a where a: "mc_ctx c = Some a"
    and f: "me_conns (mini_conn_close d e) = AList.delete d (me_conns e)"
      "me_sessions (mini_conn_close d e) = (me_sessions e)(a := None)" by blast
  have "mc_ctx c' \<noteq> Some a" if "map_of (me_conns e) d' = Some c'" "d' \<noteq> d" for c'
    using mini_ok_session_own [OF assms Some that(1)] that(2) a by auto
  with f mini_ok_close [OF assms Some] show ?thesis
    by (auto simp: held_bytes_def received_by_def delete_conv' split: option.splits)
qed (use assms in \<open>simp add: mini_conn_close_def\<close>)

lemma want_read_effect:
  assumes "mini_ok e" "want_read d sid e = Some f"
  shows "calm e f"
proof -
  from assms(2) obtain c s where cs: "map_of (me_conns e) d = Some c" "map_of (mc_streams c) sid = Some s"
    and f: "f = put_conn d (put_stream sid (s\<lparr>ms_want_read := True\<rparr>) c) e"
    by (auto simp: want_read_def mini_stream_wantread_def split: option.splits)
  have "buffered (put_stream sid (s\<lparr>ms_want_read := True\<rparr>) c) = buffered c"
    using buffered_put_stream [OF cs(2), of "s\<lparr>ms_want_read := True\<rparr>"] by simp
  with same_objects_put [OF cs, of "s\<lparr>ms_want_read := True\<rparr>"] cs(1) f show ?thesis
    by (auto simp: calm_def held_bytes_def split: option.split)
qed

section \<open>Runs\<close>

datatype mini_op = Packet_in string | Want_read string "8 word" | Conn_close string

definition mini_exec :: "(mini_engine \<Rightarrow> visits) \<Rightarrow> mini_op \<Rightarrow> mini_engine \<Rightarrow> mini_engine option" where
  "mini_exec order op e = (case op of
       Packet_in bytes \<Rightarrow> map_option snd (mini_engine_packet_in order bytes e)
     | Want_read d sid \<Rightarrow> want_read d sid e
     | Conn_close d \<Rightarrow> Some (mini_conn_close d e))"

fun mini_run :: "(mini_engine \<Rightarrow> visits) \<Rightarrow> mini_op list \<Rightarrow> mini_engine \<Rightarrow> mini_engine option" where
  "mini_run order [] e = Some e"
| "mini_run order (op # ops) e = (case mini_exec order op e of None \<Rightarrow> None | Some f \<Rightarrow> mini_run order ops f)"

definition arrived_for :: "string \<Rightarrow> mini_op \<Rightarrow> char multiset" where
  "arrived_for d op = (case op of Packet_in bytes \<Rightarrow> payload_for d bytes | _ \<Rightarrow> {#})"

inductive mini_step :: "mini_engine \<Rightarrow> mini_engine \<Rightarrow> bool" where
  "\<forall>f. iterates (order f) f \<Longrightarrow> mini_exec order op e = Some f \<Longrightarrow> mini_step e f"

lemma mini_exec_effect:
  assumes "mini_ok e" "\<forall>f. iterates (order f) f" "mini_exec order op e = Some f"
  shows "mini_ok f \<and> (op \<noteq> Conn_close d \<longrightarrow> held_bytes d f = held_bytes d e + arrived_for d op)"
proof (cases op)
  case (Packet_in bytes)
  with packet_in_effect [OF assms(1,2), of bytes d] assms(3) show ?thesis by (auto simp: mini_exec_def arrived_for_def)
next
  case (Want_read d' sid)
  with assms(3) want_read_effect [OF assms(1), of d' sid f] show ?thesis
    by (auto simp: mini_exec_def arrived_for_def calm_ok [OF _ assms(1)] calm_def intro: mini_ok_same [OF assms(1)])
next
  case (Conn_close d')
  with assms(3) close_effect [OF assms(1), of d' d] show ?thesis by (auto simp: mini_exec_def arrived_for_def)
qed

lemma mini_ok_new: "mini_ok mini_new"
  by (simp add: mini_ok_def mini_new_def all_pointers_def session_ptrs_def stream_ptrs_def)

interpretation mini_sys: step_system "\<lambda>e. e = mini_new" mini_step mini_ok
proof
  show "s = mini_new \<Longrightarrow> mini_ok s" for s by (simp add: mini_ok_new)
  show "mini_ok s \<Longrightarrow> mini_step s t \<Longrightarrow> mini_ok t" for s t by (auto elim!: mini_step.cases dest: mini_exec_effect)
qed

lemma mini_run_held:
  assumes "mini_ok e" "\<forall>f. iterates (order f) f" "mini_run order ops e = Some f" "Conn_close d \<notin> set ops"
  shows "held_bytes d f = held_bytes d e + sum_list (map (arrived_for d) ops)"
  using assms
proof (induction ops arbitrary: e)
  case (Cons op ops)
  from Cons.prems(3) obtain g where g: "mini_exec order op e = Some g" "mini_run order ops g = Some f"
    by (auto split: option.splits)
  with Cons.IH [of g] mini_exec_effect [OF Cons.prems(1,2) g(1), of d] Cons.prems show ?case by (auto simp: ac_simps)
qed simp

section \<open>Properties\<close>

text \<open>C32: the miniature engine and its application keep their objects in order.  In every reachable state each
  connection has a session of its own and each stream a context of its own, all of them live, and no other object is
  left allocated: nothing dangles and nothing leaks, also over closes.  A packet is always taken, whatever the
  order in which the hash maps are iterated: no null or deleted object is used; afterwards no stream that wants to
  read has unread data, and no output is left unsent.\<close>

theorem mini_objects_live:
  assumes "reachable (\<lambda>e. e = mini_new) mini_step e" "\<forall>f. iterates (order f) f"
  shows "distinct (session_ptrs e) \<and> set (session_ptrs e) = Some ` dom (me_sessions e)
    \<and> distinct (stream_ptrs e) \<and> set (stream_ptrs e) = Some ` dom (me_app_streams e)
    \<and> (\<exists>rc f. mini_engine_packet_in order bytes e = Some (rc, f)
         \<and> (6 \<le> length bytes \<longrightarrow> rc = 0 \<and> wanting f = {} \<and> talking f = {}))"
proof -
  have ok: "mini_ok e" by (rule mini_sys.reachable_inv [OF assms(1)])
  from packet_in_effect [OF this assms(2), of bytes "[]"] have
    "\<exists>rc f. mini_engine_packet_in order bytes e = Some (rc, f)
       \<and> (6 \<le> length bytes \<longrightarrow> rc = 0 \<and> wanting f = {} \<and> talking f = {})" by blast
  with ok show ?thesis by (simp add: mini_ok_def)
qed


text \<open>The maps iterated in the order of insertion.\<close>

definition ex_order :: "mini_engine \<Rightarrow> visits" where
  "ex_order e = map (\<lambda>d. (d, case map_of (me_conns e) d of None \<Rightarrow> [] | Some c \<Rightarrow> remdups (map fst (mc_streams c))))
     (remdups (map fst (me_conns e)))"

lemma ex_order_iterates: "\<forall>f. iterates (ex_order f) f"
  by (force simp: iterates_def ex_order_def comp_def image_image split: option.splits)

lemma mini_main_result: "mini_main ex_order = Some (1, Some ''other'')"
  by code_simp

theorem mini_objects_live_witness:
  "\<exists>rc f. mini_engine_packet_in ex_order ''ABCD0Dhello'' mini_new = Some (rc, f) \<and> rc = 0 \<and> wanting f = {}"
  using mini_objects_live [OF reach_init ex_order_iterates, of mini_new "''ABCD0Dhello''"] by auto


end
