(* ===== verification/Demux_Demo.thy ===== *)
theory Demux_Demo
  imports Quic_Demux
begin

text \<open>
  The prototype of the demultiplexer in \<^verbatim>\<open>examples/quic_demux_demo.cpp\<close>: a packet whose connection ID is known
  goes to the slot of that ID, a new one is dealt by the hash of the source address.  The library's parse of the
  connection ID is a parameter.  Slots are chosen by ID and not by address for as long as the connection lives,
  and the counters say how many packets each slot received.
\<close>

section \<open>Definitions\<close>

definition make_initial_packet :: "bytes \<Rightarrow> bytes \<Rightarrow> bytes" where
  "make_initial_packet dcid scid = [0xC0, 0x00, 0x00, 0x00, 0x01] @ [word_of_nat (length dcid)] @ dcid
     @ [word_of_nat (length scid)] @ scid"

definition hex_digit :: "nat \<Rightarrow> char" where
  "hex_digit n = ''0123456789abcdef'' ! n"

text \<open>\<^verbatim>\<open>"%02x"\<close> of every byte.\<close>

definition hex :: "bytes \<Rightarrow> string" where
  "hex bs = concat (map (\<lambda>b. [hex_digit (unat b div 16), hex_digit (unat b mod 16)]) bs)"

record demo =
  dm_slots :: nat
  dm_packets :: "nat list"
  dm_cids :: "string \<Rightarrow> nat option"

definition new_demo :: "nat \<Rightarrow> demo" where
  "new_demo n = \<lparr>dm_slots = n, dm_packets = replicate n 0, dm_cids = (\<lambda>_. None)\<rparr>"

definition hash_slot :: "bytes \<Rightarrow> demo \<Rightarrow> nat" where
  "hash_slot key d =
     unat (fold (\<lambda>c h. (h XOR ucast c) * 0x100000001b3) key (0xcbf29ce484222325 :: 64 word)) mod dm_slots d"

definition count_packet :: "nat \<Rightarrow> demo \<Rightarrow> demo" where
  "count_packet slot d = d\<lparr>dm_packets := (dm_packets d)[slot := dm_packets d ! slot + 1]\<rparr>"

text \<open>The result is the slot, \<open>None\<close> for \<^verbatim>\<open>-1\<close>; \<open>dcid\<close> is \<^verbatim>\<open>lsquic_dcid_from_packet\<close>.\<close>

definition demo_route :: "(bytes \<Rightarrow> int \<times> nat) \<Rightarrow> bytes \<Rightarrow> bytes \<Rightarrow> demo \<Rightarrow> nat option \<times> demo" where
  "demo_route dcid buf src_addr d =
     (let (off, cid_len) = dcid buf in
      if off < 0 \<or> cid_len = 0 then (None, d)
      else (let cid = hex (take cid_len (drop (nat off) buf)) in
        case dm_cids d cid of
          Some slot \<Rightarrow> (Some slot, count_packet slot d)
        | None \<Rightarrow>
            (let slot = hash_slot src_addr d in
             (Some slot, count_packet slot (d\<lparr>dm_cids := (dm_cids d)(cid := Some slot)\<rparr>)))))"

definition close_connection :: "string \<Rightarrow> demo \<Rightarrow> demo" where
  "close_connection cid_hex d = d\<lparr>dm_cids := (dm_cids d)(cid_hex := None)\<rparr>"

definition ascii :: "string \<Rightarrow> bytes" where
  "ascii = map of_char"

text \<open>The program: the slots of its five packets and the counters it prints.\<close>

definition demo_main :: "(bytes \<Rightarrow> int \<times> nat) \<Rightarrow> nat option list \<times> nat list" where
  "demo_main dcid =
     (let p1 = make_initial_packet (ascii ''AAAA'') (ascii ''servercid'');
          p2 = make_initial_packet (ascii ''BBBB'') (ascii ''servercid'');
          (s1, d1) = demo_route dcid p1 (ascii ''client1@wifi'') (new_demo 2);
          (s2, d2) = demo_route dcid p1 (ascii ''client1@cell'') d1;
          (s3, d3) = demo_route dcid p2 (ascii ''client2@wifi'') d2;
          (s4, d4) = demo_route dcid p1 (ascii ''client1@cell:different_port'') d3;
          d5 = close_connection ''41414141'' d4;
          (s5, d6) = demo_route dcid p1 (ascii ''client3@wifi'') d5
      in ([s1, s2, s3, s4, s5], dm_packets d6))"

section \<open>Connection IDs as keys\<close>

lemma hex_digit_inject: "m < 16 \<Longrightarrow> n < 16 \<Longrightarrow> hex_digit m = hex_digit n \<longleftrightarrow> m = n"
proof -
  have "distinct ''0123456789abcdef''" "length ''0123456789abcdef'' = 16" by simp_all
  then show "m < 16 \<Longrightarrow> n < 16 \<Longrightarrow> hex_digit m = hex_digit n \<longleftrightarrow> m = n"
    unfolding hex_digit_def using nth_eq_iff_index_eq [of "''0123456789abcdef''" m n] by metis
qed

lemma hex_inject: "hex xs = hex ys \<longleftrightarrow> xs = ys"
proof (induction xs arbitrary: ys)
  case Nil
  then show ?case by (cases ys) (simp_all add: hex_def)
next
  case (Cons x xs)
  have byte: "unat a div 16 = unat b div 16 \<and> unat a mod 16 = unat b mod 16 \<longleftrightarrow> a = b" for a b :: "8 word"
    by (metis div_mult_mod_eq word_unat_eq_iff)
  have less: "unat a div 16 < 16" for a :: "8 word" using unsigned_less [of a, where ?'a = nat] by simp
  show ?case
  proof (cases ys)
    case (Cons y ys')
    with Cons.IH [of ys'] byte [of x y] less [of x] less [of y] show ?thesis
      by (auto simp: hex_def hex_digit_inject)
  qed (simp add: hex_def)
qed

section \<open>Runs\<close>

datatype demo_op = Packet bytes bytes | Closed string

fun demo_run :: "(bytes \<Rightarrow> int \<times> nat) \<Rightarrow> demo_op list \<Rightarrow> demo \<Rightarrow> nat option list \<times> demo" where
  "demo_run dcid [] d = ([], d)"
| "demo_run dcid (Packet buf src # ops) d =
     (let (s, d') = demo_route dcid buf src d; (ss, d'') = demo_run dcid ops d' in (s # ss, d''))"
| "demo_run dcid (Closed h # ops) d = demo_run dcid ops (close_connection h d)"

definition demo_cid :: "(bytes \<Rightarrow> int \<times> nat) \<Rightarrow> bytes \<Rightarrow> bytes option" where
  "demo_cid dcid buf = (let (off, cid_len) = dcid buf in
     if off < 0 \<or> cid_len = 0 then None else Some (take cid_len (drop (nat off) buf)))"

definition demo_ok :: "demo \<Rightarrow> bool" where
  "demo_ok d \<longleftrightarrow> 0 < dm_slots d \<and> length (dm_packets d) = dm_slots d \<and> (\<forall>key slot. dm_cids d key = Some slot \<longrightarrow> slot < dm_slots d)"

lemma hash_slot_less: "0 < dm_slots d \<Longrightarrow> hash_slot key d < dm_slots d"
  by (simp add: hash_slot_def)

lemma demo_route_cases:
  "demo_route dcid buf src d = (case demo_cid dcid buf of
      None \<Rightarrow> (None, d)
    | Some c \<Rightarrow> (case dm_cids d (hex c) of
          Some slot \<Rightarrow> (Some slot, count_packet slot d)
        | None \<Rightarrow> (Some (hash_slot src d),
            count_packet (hash_slot src d) (d\<lparr>dm_cids := (dm_cids d)(hex c := Some (hash_slot src d))\<rparr>))))"
  by (simp add: demo_route_def demo_cid_def Let_def split: prod.split option.split)

lemma demo_ok_route:
  assumes "demo_ok d" "demo_route dcid buf src d = (s, d')"
  shows "demo_ok d' \<and> dm_slots d' = dm_slots d \<and> (\<forall>slot. s = Some slot \<longrightarrow> slot < dm_slots d)
    \<and> (\<forall>i < dm_slots d. dm_packets d' ! i = dm_packets d ! i + (if s = Some i then 1 else 0))"
proof (cases "demo_cid dcid buf")
  case (Some c)
  show ?thesis
  proof (cases "dm_cids d (hex c)")
    case None
    with Some assms hash_slot_less [of d src] show ?thesis
      by (auto simp: demo_route_cases demo_ok_def count_packet_def split: if_splits)
  next
    case (Some slot)
    with assms \<open>demo_cid dcid buf = Some c\<close> have "slot < dm_slots d" by (auto simp: demo_ok_def)
    moreover have "s = Some slot" "d' = count_packet slot d"
      using Some assms(2) \<open>demo_cid dcid buf = Some c\<close> by (simp_all add: demo_route_cases)
    ultimately show ?thesis using assms(1) by (auto simp: demo_ok_def count_packet_def)
  qed
qed (use assms in \<open>auto simp: demo_route_cases\<close>)

lemma demo_ok_close: "demo_ok d \<Longrightarrow> demo_ok (close_connection h d)"
  by (auto simp: demo_ok_def close_connection_def)

lemma demo_run_counts:
  assumes "demo_ok d" "demo_run dcid ops d = (ss, d')"
  shows "demo_ok d' \<and> dm_slots d' = dm_slots d
    \<and> (\<forall>i < dm_slots d. dm_packets d' ! i = dm_packets d ! i + count_list ss (Some i))"
  using assms
proof (induction dcid ops d arbitrary: ss rule: demo_run.induct)
  case (2 dcid buf src ops d)
  obtain s d1 where r: "demo_route dcid buf src d = (s, d1)" by fastforce
  obtain ss' where rest: "demo_run dcid ops d1 = (ss', d')" "ss = s # ss'"
    using "2.prems"(2) r by (auto simp: Let_def split: prod.splits)
  from demo_ok_route [OF "2.prems"(1) r] "2.IH" [OF r [symmetric] refl _ rest(1)] rest(2) show ?case by auto
next
  case (3 dcid h ops d)
  then show ?case using demo_ok_close [of d h] by (auto simp: close_connection_def)
qed auto

lemma demo_run_keeps:
  assumes "dm_cids d (hex c) = Some slot" "Closed (hex c) \<notin> set ops"
  shows "dm_cids (snd (demo_run dcid ops d)) (hex c) = Some slot"
  using assms
proof (induction dcid ops d rule: demo_run.induct)
  case (2 dcid buf src ops d)
  obtain s d1 where r: "demo_route dcid buf src d = (s, d1)" by fastforce
  have "dm_cids d1 (hex c) = Some slot"
    using r "2.prems"(1) by (auto simp: demo_route_cases count_packet_def split: option.splits if_splits)
  with "2.IH" [OF r [symmetric] refl] "2.prems"(2) show ?case by (auto simp: r split: prod.split)
qed (auto simp: close_connection_def)

lemma demo_route_remembers:
  "demo_cid dcid buf = Some c \<Longrightarrow> demo_route dcid buf src d = (s, d') \<Longrightarrow> s \<noteq> None \<and> dm_cids d' (hex c) = s"
  by (cases "dm_cids d (hex c)") (auto simp: demo_route_cases count_packet_def dest: sym)

lemma demo_ok_new: "0 < n \<Longrightarrow> demo_ok (new_demo n)"
  by (auto simp: demo_ok_def new_demo_def)

section \<open>Properties\<close>

text \<open>C33: migration in the prototype.  After any packets and closes, a packet with connection ID \<open>c\<close> goes to one
  of the slots; any later packet with the same ID goes to the same slot, whatever its source address and
  whatever other packets came in between, unless the connection was closed meanwhile.  After a close the ID is
  dealt anew by the source address.  A slot's counter is the number of packets routed to it.\<close>

theorem demo_migration_safe:
  assumes "0 < n" "demo_cid dcid buf = Some c" "demo_cid dcid buf' = Some c" "Closed (hex c) \<notin> set mid"
    and "demo_run dcid pre (new_demo n) = (ss, d)" "demo_route dcid buf src d = (s1, d1)"
    and "demo_run dcid mid d1 = (ss', d2)"
  shows "fst (demo_route dcid buf' src' d2) = s1 \<and> (\<exists>slot < n. s1 = Some slot)
    \<and> fst (demo_route dcid buf src' (close_connection (hex c) d2)) = Some (hash_slot src' d2)
    \<and> (\<forall>i < n. dm_packets d2 ! i = count_list (ss @ s1 # ss') (Some i))"
proof -
  note ok = demo_run_counts [OF demo_ok_new [OF assms(1)] assms(5)]
  note ok1 = demo_ok_route [OF conjunct1 [OF ok] assms(6)]
  note ok2 = demo_run_counts [OF conjunct1 [OF ok1] assms(7)]
  obtain slot where s: "s1 = Some slot" "dm_cids d1 (hex c) = Some slot"
    using demo_route_remembers [OF assms(2,6)] by auto
  with demo_run_keeps [OF s(2) assms(4), of dcid] assms(3,7) have "fst (demo_route dcid buf' src' d2) = s1"
    by (simp add: demo_route_cases)
  moreover have "fst (demo_route dcid buf src' (close_connection (hex c) d2)) = Some (hash_slot src' d2)"
    using assms(2) by (simp add: demo_route_cases close_connection_def hash_slot_def)
  ultimately show ?thesis using ok ok1 ok2 s by (auto simp: new_demo_def)
qed

text \<open>A parser for packets with a long header.\<close>

definition ex_dcid :: "bytes \<Rightarrow> int \<times> nat" where
  "ex_dcid buf = (if 6 < length buf \<and> 6 + unat (buf ! 5) \<le> length buf then (6, unat (buf ! 5)) else (-1, 0))"

lemma demo_main_slots:
  "\<exists>a b. fst (demo_main ex_dcid) = [Some a, Some a, Some b, Some a, Some (hash_slot (ascii ''client3@wifi'') (new_demo 2))]"
proof -
  have a: "demo_cid ex_dcid (make_initial_packet (ascii ''AAAA'') (ascii ''servercid'')) = Some (ascii ''AAAA'')"
    and b: "demo_cid ex_dcid (make_initial_packet (ascii ''BBBB'') (ascii ''servercid'')) = Some (ascii ''BBBB'')"
    and h: "hex (ascii ''AAAA'') = ''41414141''" "hex (ascii ''BBBB'') = ''42424242''"
    by code_simp+
  show ?thesis
    by (simp add: demo_main_def demo_route_cases a b h Let_def new_demo_def count_packet_def close_connection_def
        hash_slot_def)
qed

theorem demo_migration_safe_witness:
  "\<exists>s1 d1 ss' d2. demo_route ex_dcid (make_initial_packet [1, 2] [3]) [10] (new_demo 2) = (s1, d1)
    \<and> demo_run ex_dcid [Packet (make_initial_packet [7] []) [11]] d1 = (ss', d2)
    \<and> fst (demo_route ex_dcid (make_initial_packet [1, 2] [4, 5]) [12] d2) = s1 \<and> (\<exists>slot < 2. s1 = Some slot)"
proof -
  let ?p = "make_initial_packet [1, 2] [3]" and ?q = "make_initial_packet [1, 2] [4, 5]"
  have c: "demo_cid ex_dcid ?p = Some [1, 2]" "demo_cid ex_dcid ?q = Some [1, 2]" by code_simp+
  obtain s1 d1 where r: "demo_route ex_dcid ?p [10] (new_demo 2) = (s1, d1)" by fastforce
  obtain ss' d2 where m: "demo_run ex_dcid [Packet (make_initial_packet [7] []) [11]] d1 = (ss', d2)" by fastforce
  have run: "demo_run ex_dcid [] (new_demo 2) = ([], new_demo 2)" by simp
  have closed: "Closed (hex [1, 2]) \<notin> set [Packet (make_initial_packet [7] []) [11]]" by simp
  from demo_migration_safe [OF _ c closed run r m, of "[12]"] r m show ?thesis by auto
qed

end
