(* ===== verification/H3_Min.thy ===== *)
theory H3_Min
  imports Demux_Demo Quic_Stream
begin

text \<open>
  The stand-alone HTTP/3 server of \<^verbatim>\<open>examples/lsquic_h3_server_min.cpp\<close>: header-set callbacks, the canned
  response, the scan of outgoing packets for their source connection ID, the stream callbacks, packet output and the
  main loop.  What the QUIC, TLS and socket libraries answer are arguments; calls into the QUIC library are recorded.
\<close>

section \<open>Helpers\<close>

definition hexstr :: "bytes \<Rightarrow> string" where
  "hexstr p = concat (map (\<lambda>b. [''0123456789abcdef'' ! unat (drop_bit 4 b), ''0123456789abcdef'' ! unat (and b 15)]) p)"

text \<open>\<open>again\<close>: a header is passed in.  Unlike in the proxy the space asked for is not looked at.\<close>

record hset =
  hm_dec_off :: nat
  hm_have_xhdr :: bool
  hm_dec_size :: nat

definition min_hsi_create :: hset where
  "min_hsi_create = \<lparr>hm_dec_off = 0, hm_have_xhdr = False, hm_dec_size = 0\<rparr>"

definition min_hsi_prepare :: "bool \<Rightarrow> nat \<Rightarrow> hset \<Rightarrow> (nat \<times> nat) option \<times> hset" where
  "min_hsi_prepare again space hs =
     (if again then (None, hs)
      else (let hs1 = (if hm_have_xhdr hs then hs\<lparr>hm_dec_off := hm_dec_off hs + hm_dec_size hs\<rparr>
                       else hs\<lparr>hm_have_xhdr := True\<rparr>)
            in (Some (hm_dec_off hs1, 64 * 1024 - hm_dec_off hs1), hs1)))"

section \<open>The response\<close>

record xhdr =
  xh_name_off :: nat
  xh_name_len :: nat
  xh_val_off :: nat
  xh_val_len :: nat

datatype stream_call =
    Want_read bool
  | Send_headers string "xhdr list"
  | Stream_write string
  | Stream_shutdown_write
  | Stream_flush

text \<open>One round of the loop: name and value go to the end of the buffer, the header refers to them by offset.\<close>

definition add_header :: "string \<times> string \<Rightarrow> string \<times> xhdr list \<times> nat \<Rightarrow> string \<times> xhdr list \<times> nat" where
  "add_header h st = (let (name, val) = h; (nv, arr, off) = st in
     (nv @ name @ val,
      arr @ [\<lparr>xh_name_off = off, xh_name_len = length name, xh_val_off = off + length name, xh_val_len = length val\<rparr>],
      off + length name + length val))"

definition response_headers :: "nat \<Rightarrow> (string \<times> string) list" where
  "response_headers bodylen =
     [('':status'', ''200''), (''content-type'', ''text/plain''), (''content-length'', show_nat bodylen)]"

definition send_response :: "string \<Rightarrow> stream_call list" where
  "send_response body = (let (nv, arr, off) = fold add_header (response_headers (length body)) ([], [], 0) in
     [Send_headers nv arr, Stream_write body, Stream_shutdown_write, Stream_flush])"

section \<open>Outgoing packets\<close>

definition byte_at :: "bytes \<Rightarrow> nat \<Rightarrow> 8 word option" where
  "byte_at p i = (if i < length p then Some (p ! i) else None)"

text \<open>\<^verbatim>\<open>dump_wire_scid\<close>: the outer \<open>None\<close> is a read outside the packet, the inner one an early return, the string what
  is printed.\<close>

definition dump_wire_scid :: "bytes \<Rightarrow> string option option" where
  "dump_wire_scid p =
     (if length p < 7 then Some None
      else case byte_at p 0 of None \<Rightarrow> None | Some b0 \<Rightarrow>
        if and b0 0x80 = 0 then Some None
        else case byte_at p 5 of None \<Rightarrow> None | Some b5 \<Rightarrow>
          (let pos = 6 + unat b5 in
           if pos \<ge> length p then Some None
           else case byte_at p pos of None \<Rightarrow> None | Some bl \<Rightarrow>
             (let sclen = unat bl in
              if sclen > 20 \<or> pos + 1 + sclen > length p then Some None
              else Some (Some (hexstr (take sclen (drop (pos + 1) p)))))))"

text \<open>A batch: address family is IPv4 or not, packet as its parts.  The result is what is logged, what is passed to
  \<^verbatim>\<open>sendmsg\<close> (length of the address, data) and the return value.\<close>

definition min_packets_out :: "(bool \<times> bytes list) list \<Rightarrow> string option option list \<times> (nat \<times> bytes) list \<times> nat" where
  "min_packets_out specs =
     (map (\<lambda>(v4, iov). dump_wire_scid (hd iov)) specs,
      map (\<lambda>(v4, iov). (if v4 then 16 else 28, concat iov)) specs,
      length specs)"

text \<open>The connection IDs that \<^verbatim>\<open>on_new_scids\<close> and \<^verbatim>\<open>on_old_scids\<close> log.\<close>

definition logged_scids :: "bytes list \<Rightarrow> (nat \<times> string) list" where
  "logged_scids cids = map (\<lambda>cid. (length cid, hexstr cid)) cids"

section \<open>Streams\<close>

record min_stream =
  mn_responded :: bool
  mn_discarded :: nat
  mn_calls :: "stream_call list"

definition min_on_new_stream :: min_stream where
  "min_on_new_stream = \<lparr>mn_responded = False, mn_discarded = 0, mn_calls = [Want_read True]\<rparr>"

text \<open>The reading loop over what \<^verbatim>\<open>lsquic_stream_read\<close> returns; \<open>None\<close> when it never stops reading.\<close>

fun drain :: "int list \<Rightarrow> unit option" where
  "drain [] = None"
| "drain (n # ns) = (if n > 0 then drain ns else Some ())"

definition min_on_read :: "bool \<Rightarrow> int list \<Rightarrow> min_stream \<Rightarrow> min_stream option" where
  "min_on_read hset reads s =
     (let s1 = (if hset then s\<lparr>mn_discarded := mn_discarded s + 1\<rparr> else s) in
      case drain reads of None \<Rightarrow> None | Some _ \<Rightarrow>
        if mn_responded s1 then Some s1
        else Some (s1\<lparr>mn_responded := True, mn_calls := mn_calls s1 @ send_response ''handshake-ok''\<rparr>))"

text \<open>\<^verbatim>\<open>on_close\<close> deletes the context of the stream.\<close>

definition min_on_close :: "nat \<Rightarrow> (nat \<Rightarrow> min_stream option) \<Rightarrow> nat \<Rightarrow> min_stream option" where
  "min_on_close st ctxs = ctxs(st := None)"

section \<open>The main program\<close>

record min_lib =
  ml_global_init :: int
  ml_ctx_new :: bool
  ml_use_cert :: "string \<Rightarrow> int"
  ml_use_key :: "string \<Rightarrow> int"
  ml_bind :: "16 word \<Rightarrow> int"
  ml_engine_new :: bool

text \<open>Set-up: an exit code or the port to serve.\<close>

definition min_setup :: "min_lib \<Rightarrow> string list \<Rightarrow> int + 16 word" where
  "min_setup lib argv =
     (let port = (if length argv > 1 then word_of_int (strtol10 (argv ! 1)) else 8443);
          cert = (if length argv > 2 then argv ! 2 else ''certs/cert.pem'');
          key = (if length argv > 3 then argv ! 3 else ''certs/key.pem'') in
      if ml_global_init lib \<noteq> 0 then Inl 1
      else if \<not> ml_ctx_new lib then Inl 1
      else if ml_use_cert lib cert \<noteq> 1 \<or> ml_use_key lib key \<noteq> 1 then Inl 1
      else if ml_bind lib port \<noteq> 0 then Inl 1
      else if \<not> ml_engine_new lib then Inl 1
      else Inr port)"

text \<open>The argument of \<^verbatim>\<open>select\<close>: seconds and microseconds.\<close>

definition select_timeout :: "int \<Rightarrow> int \<times> int" where
  "select_timeout diff = (if diff < 0 then (0, 0) else (diff div 1000, (diff mod 1000) * 1000))"

datatype loop_call = Select int int | Packet_in bytes | Process_conns

text \<open>One round: \<open>diff\<close> from the library, \<open>ready\<close> from \<^verbatim>\<open>select\<close>, \<open>datagram\<close> from \<^verbatim>\<open>recvfrom\<close> (\<open>None\<close> for an error).\<close>

definition loop_round :: "int \<Rightarrow> bool \<Rightarrow> bytes option \<Rightarrow> loop_call list" where
  "loop_round diff ready datagram =
     (let (sec, usec) = select_timeout diff in
      Select sec usec # (case datagram of Some bs \<Rightarrow> if ready \<and> bs \<noteq> [] then [Packet_in bs] else [] | None \<Rightarrow> [])
        @ [Process_conns])"

section \<open>Lemmas\<close>

lemma hexstr_hex: "hexstr p = hex p"
proof -
  have "unat (drop_bit 4 b) = unat b div 16" "unat (and b 15) = unat b mod 16" for b :: "8 word"
  proof -
    show "unat (drop_bit 4 b) = unat b div 16" by (simp add: drop_bit_eq_div unat_div)
    have "(15 :: 8 word) = mask 4" by (simp add: mask_eq_exp_minus_1)
    then have "and b 15 = take_bit 4 b" by (simp add: take_bit_eq_mask)
    then show "unat (and b 15) = unat b mod 16" by (simp add: take_bit_eq_mod unat_mod)
  qed
  then show ?thesis by (simp add: hexstr_def hex_def hex_digit_def)
qed

lemma add_header_fold:
  assumes "fold add_header hs (nv, arr, length nv) = (nv', arr', off')"
  shows "nv' = nv @ concat (map (\<lambda>(n, v). n @ v) hs) \<and> off' = length nv'
    \<and> (\<exists>new. arr' = arr @ new \<and> map (\<lambda>x. (take (xh_name_len x) (drop (xh_name_off x) nv'),
          take (xh_val_len x) (drop (xh_val_off x) nv'))) new = hs)"
  using assms
proof (induction hs arbitrary: nv arr)
  case (Cons h hs)
  obtain n v where h: "h = (n, v)" by (cases h)
  let ?x = "\<lparr>xh_name_off = length nv, xh_name_len = length n, xh_val_off = length nv + length n, xh_val_len = length v\<rparr>"
  from Cons.prems have "fold add_header hs (nv @ n @ v, arr @ [?x], length (nv @ n @ v)) = (nv', arr', off')"
    using add_header_def [of h "(nv, arr, length nv)"] by (simp add: h add.assoc)
  from Cons.IH [OF this] obtain new where "nv' = (nv @ n @ v) @ concat (map (\<lambda>(n, v). n @ v) hs)" "off' = length nv'"
    "arr' = (arr @ [?x]) @ new" "map (\<lambda>x. (take (xh_name_len x) (drop (xh_name_off x) nv'),
          take (xh_val_len x) (drop (xh_val_off x) nv'))) new = hs" by blast
  then show ?case by (auto simp: h intro!: exI [of _ "?x # new"])
qed auto

definition header_list_of :: "string \<Rightarrow> xhdr list \<Rightarrow> (string \<times> string) list" where
  "header_list_of nv arr = map (\<lambda>x. (take (xh_name_len x) (drop (xh_name_off x) nv),
     take (xh_val_len x) (drop (xh_val_off x) nv))) arr"

lemma send_response_headers:
  "\<exists>nv arr. send_response body = [Send_headers nv arr, Stream_write body, Stream_shutdown_write, Stream_flush]
    \<and> header_list_of nv arr = response_headers (length body)
    \<and> length nv = sum_list (map (\<lambda>(n, v). length n + length v) (response_headers (length body)))"
proof -
  obtain nv arr off where f: "fold add_header (response_headers (length body)) ([], [], 0) = (nv, arr, off)"
    by (metis prod_cases3)
  from add_header_fold [of "response_headers (length body)" "[]" "[]"] f
  have "nv = concat (map (\<lambda>(n, v). n @ v) (response_headers (length body)))"
    "header_list_of nv arr = response_headers (length body)" by (auto simp: header_list_of_def)
  with f show ?thesis by (simp add: send_response_def length_concat comp_def case_prod_unfold)
qed

fun reads_run :: "(bool \<times> int list) list \<Rightarrow> min_stream \<Rightarrow> min_stream option" where
  "reads_run [] s = Some s"
| "reads_run ((hset, reads) # evs) s = (case min_on_read hset reads s of None \<Rightarrow> None | Some s' \<Rightarrow> reads_run evs s')"

lemma drain_stops: "(\<exists>n \<in> set ns. n \<le> 0) \<Longrightarrow> drain ns = Some ()"
  by (induction ns) auto

lemma reads_run_responded:
  assumes "mn_responded s" "\<forall>(hset, reads) \<in> set evs. \<exists>n \<in> set reads. n \<le> 0"
  shows "\<exists>s'. reads_run evs s = Some s' \<and> mn_calls s' = mn_calls s"
  using assms
proof (induction evs arbitrary: s)
  case (Cons ev evs)
  obtain hset reads where ev: "ev = (hset, reads)" by (cases ev)
  with Cons.prems drain_stops [of reads] have "\<exists>s1. min_on_read hset reads s = Some s1 \<and> mn_responded s1 \<and> mn_calls s1 = mn_calls s"
    by (auto simp: min_on_read_def Let_def)
  then obtain s1 where s1: "min_on_read hset reads s = Some s1" "mn_responded s1" "mn_calls s1 = mn_calls s" by blast
  with Cons.IH [OF s1(2)] Cons.prems(2) ev show ?case by auto
qed simp

section \<open>Properties\<close>

text \<open>C34: the minimal server answers each stream once.  However often a stream becomes readable and whatever the reads
  bring, as long as each run of reads comes to an end, exactly one response is sent: the header block refers to the
  three fields of the response inside the buffer that was reserved for it, then come body, end of stream and flush.\<close>

theorem min_one_response:
  assumes "evs \<noteq> []" "\<forall>(hset, reads) \<in> set evs. \<exists>n \<in> set reads. n \<le> 0"
  shows "\<exists>s nv arr. reads_run evs min_on_new_stream = Some s
    \<and> mn_calls s = [Want_read True, Send_headers nv arr, Stream_write ''handshake-ok'', Stream_shutdown_write, Stream_flush]
    \<and> header_list_of nv arr = [('':status'', ''200''), (''content-type'', ''text/plain''), (''content-length'', ''12'')]"
proof -
  obtain hset reads rest where evs: "evs = (hset, reads) # rest" using assms(1) by (cases evs) auto
  have d: "drain reads = Some ()" using assms(2) evs by (auto intro: drain_stops)
  obtain nv arr where r: "send_response ''handshake-ok'' =
      [Send_headers nv arr, Stream_write ''handshake-ok'', Stream_shutdown_write, Stream_flush]"
    "header_list_of nv arr = response_headers (length ''handshake-ok'')"
    using send_response_headers [of "''handshake-ok''"] by blast
  have "\<exists>s1. min_on_read hset reads min_on_new_stream = Some s1 \<and> mn_responded s1
      \<and> mn_calls s1 = Want_read True # send_response ''handshake-ok''"
    using d by (simp add: min_on_read_def min_on_new_stream_def Let_def)
  then obtain s1 where s1: "min_on_read hset reads min_on_new_stream = Some s1" "mn_responded s1"
    "mn_calls s1 = Want_read True # send_response ''handshake-ok''" by blast
  moreover have "response_headers (length ''handshake-ok'') =
      [('':status'', ''200''), (''content-type'', ''text/plain''), (''content-length'', ''12'')]" by code_simp
  ultimately show ?thesis using reads_run_responded [OF s1(2), of rest] assms(2) r evs by auto
qed

theorem min_one_response_witness:
  "\<exists>s nv arr. reads_run [(True, [5, 0]), (False, [-1])] min_on_new_stream = Some s
    \<and> mn_calls s = [Want_read True, Send_headers nv arr, Stream_write ''handshake-ok'', Stream_shutdown_write, Stream_flush]
    \<and> header_list_of nv arr = [('':status'', ''200''), (''content-type'', ''text/plain''), (''content-length'', ''12'')]"
  by (rule min_one_response) simp_all

text \<open>The scan for the source connection ID never reads outside the packet, and finds the ID of every long-header
  packet whose ID has at most 20 bytes.\<close>

theorem min_wire_scid:
  assumes "length dcid < 256" "length scid \<le> 20"
  shows "dump_wire_scid p \<noteq> None \<and> dump_wire_scid (make_initial_packet dcid scid @ rest) = Some (Some (hex scid))"
proof -
  let ?p = "make_initial_packet dcid scid @ rest"
  have "unat (word_of_nat (length dcid) :: 8 word) = length dcid" "unat (word_of_nat (length scid) :: 8 word) = length scid"
    using assms by (simp_all add: unsigned_of_nat take_bit_eq_mod)
  moreover have p: "?p = ([0xC0, 0, 0, 0, 1, word_of_nat (length dcid)] @ dcid @ [word_of_nat (length scid)]) @ scid @ rest"
    (is "_ = ?pre @ _") by (simp add: make_initial_packet_def)
  have "length ?pre = 7 + length dcid" by simp
  then have "drop (7 + length dcid) ?p = scid @ rest" unfolding p by (metis append_eq_conv_conj)
  moreover have "?p ! (6 + length dcid) = word_of_nat (length scid)"
    by (simp add: make_initial_packet_def nth_append)
  moreover have "and (0xC0 :: 8 word) 0x80 \<noteq> 0" by simp
  moreover have "?p ! 0 = 0xC0" "?p ! 5 = word_of_nat (length dcid)"
    "length ?p = 7 + length dcid + length scid + length rest" by (simp_all add: make_initial_packet_def)
  ultimately have "dump_wire_scid ?p = Some (Some (hex scid))"
    using assms(2) by (simp add: dump_wire_scid_def byte_at_def Let_def hexstr_hex)
  moreover have "dump_wire_scid p \<noteq> None"
    by (simp add: dump_wire_scid_def byte_at_def Let_def)
  ultimately show ?thesis by blast
qed

theorem min_wire_scid_witness:
  "dump_wire_scid (make_initial_packet [1, 2, 3] [0xAB, 0x0C] @ [9]) = Some (Some ''ab0c'')"
proof -
  have "hex [0xAB, 0x0C] = ''ab0c''" by code_simp
  with min_wire_scid [of "[1, 2, 3]" "[0xAB, 0x0C]" "[]" "[9]"] show ?thesis by simp
qed

text \<open>A header offered to the decoder lies in the buffer, but may be smaller than what it asked for.\<close>

lemma min_hsi_region:
  assumes "min_hsi_prepare False space hs = (Some (off, avail), hs')" "hm_dec_off hs + hm_dec_size hs \<le> 65536"
    and "\<not> hm_have_xhdr hs \<longrightarrow> hm_dec_size hs = 0" "used \<le> avail"
  shows "off + avail = 65536 \<and> hm_dec_off (hs'\<lparr>hm_dec_size := used\<rparr>) + hm_dec_size (hs'\<lparr>hm_dec_size := used\<rparr>) \<le> 65536"
  using assms by (auto simp: min_hsi_prepare_def Let_def split: if_splits)

lemma min_hsi_ignores_space: "min_hsi_prepare again space hs = min_hsi_prepare again space' hs"
  by (simp add: min_hsi_prepare_def)

text \<open>The library counts in microseconds, the loop takes the number for milliseconds.\<close>

lemma select_timeout_late:
  "0 \<le> diff \<Longrightarrow> (let (sec, usec) = select_timeout diff in sec * 1000000 + usec) = 1000 * diff"
proof -
  have "diff div 1000 * 1000000 + diff mod 1000 * 1000 = 1000 * (diff div 1000 * 1000 + diff mod 1000)"
    by (simp only: distrib_left)
  then show "0 \<le> diff \<Longrightarrow> (let (sec, usec) = select_timeout diff in sec * 1000000 + usec) = 1000 * diff"
    unfolding div_mult_mod_eq by (simp add: select_timeout_def)
qed

end
