(* ===== verification/Spec2Isabelle.thy ===== *)
theory Spec2Isabelle
  imports Exchange H3_Codec Quic_Glue Proxy_Server Mini_Quic H3_Min
begin

text \<open>
  A verification development for the reverse proxy under \<^verbatim>\<open>src/\<close>: a multi-threaded server that accepts
  HTTP/1.1 over TCP and HTTP/3 over QUIC and relays each request to a backend.

  \<^bold>\<open>The program.\<close>  \<^verbatim>\<open>main.cpp\<close> loads the configuration and starts a \<^verbatim>\<open>ReverseProxyServer\<close>, which runs one
  \<^verbatim>\<open>ProxyCore\<close> per worker thread, deals accepted TCP connections to the workers in turn and drives the staged
  shutdown.  QUIC datagrams reach the workers through the \<^verbatim>\<open>QuicPacketDemux\<close> or, with the kernel program,
  through per-worker sockets.  A worker wraps a connection in a transport session; each stream of it gets a
  \<^verbatim>\<open>RelaySession\<close>, which parses requests with a codec, picks a backend with the \<^verbatim>\<open>Router\<close>, takes a backend
  stream from the \<^verbatim>\<open>UpstreamPool\<close>, relays the messages and returns the stream.

  \<^bold>\<open>Theories.\<close>  Definitions keep the names of the functions they model; a prefix tells apart functions of
  different classes with one name.

  \<^item> \<open>Prelude\<close>: strings and lines as the standard library handles them, the locale \<open>step_system\<close> (an
    invariant of a transition system).
  \<^item> \<open>Transport\<close> (\<^verbatim>\<open>transport/itransport_*.h\<close>, \<^verbatim>\<open>tcp_transport.cpp\<close>): a stream is the script of what its
    reads and writes will bring together with the bytes written so far.
  \<^item> \<open>Http_Message\<close> (\<^verbatim>\<open>codec/http_message.*\<close>): the header map (locale \<open>header_store\<close>), message heads, body
    sources (locale \<open>body_source_contract\<close>: what a source owes and that reading it to the end delivers that)
    and the body pump.
  \<^item> \<open>H1_Codec\<close>, \<open>H1_Properties\<close> (\<^verbatim>\<open>codec/h1_codec.cpp\<close>): head parsers, reader loops, chunked decoder, body
    selection and serialisers.  The properties hold for every segmentation of the input: round trip of
    heads (locale \<open>head_syntax\<close>), forwarding of requests and responses with their bodies, framing of
    responses, decoding of chunked bodies, failures.
  \<^item> \<open>H3_Codec\<close> (\<^verbatim>\<open>codec/h3_codec.cpp\<close>): variable-length integers, header lists and the four operations;
    round trips of integers and heads, completeness of written messages.
  \<^item> \<open>Config_Router\<close> (\<^verbatim>\<open>config.cpp\<close>, \<^verbatim>\<open>proxy/router.cpp\<close>, \<^verbatim>\<open>proxy/stats.cpp\<close>): the loader over an abstract
    table library, rule precedence, counters as 64-bit words.
  \<^item> \<open>Upstream_Pool\<close> (\<^verbatim>\<open>proxy/upstream_pool.cpp\<close>): the pool as one state with its operations and callbacks;
    invariant of the tables, every callback answered exactly once, order of reuse (locale
    \<open>bounded_fifo\<close>), retry, round robin.
  \<^item> \<open>Relay_Session\<close> (\<^verbatim>\<open>proxy/relay_session.cpp\<close>): the exchange as a state machine.  \<open>ry_waits\<close> are the
    operations in flight, \<open>finish_op\<close> runs the handler of one that completes with any result,
    \<open>ry_log\<close> records what the handlers do to client, backend and pool, \<open>ry_fault\<close> the use of a null
    stream.  Shown: one chain of callbacks, backend held exactly while it is used, accounting of requests,
    termination of an exchange and of a torn down session, draining, the single retry, and the faults that
    completions after an idle timeout cause.
  \<^item> \<open>Quic_Stream\<close> (\<^verbatim>\<open>transport/quic_transport.cpp\<close>, streams, sessions, header sets): the write queue refines a
    byte queue, write callbacks are called once, header decoding stays in its buffer.
  \<^item> \<open>Quic_Demux\<close> (\<^verbatim>\<open>transport/quic_demux.cpp\<close>, the server engine, \<^verbatim>\<open>ebpf/quic_steer.bpf.c\<close>): delivery of
    datagrams, connection IDs that lead back to their worker, batch sending, and the kernel program: no read
    outside the packet, agreement with the demultiplexer.
  \<^item> \<open>Quic_Client\<close> (\<^verbatim>\<open>transport/quic_transport.cpp\<close>, the client engine): receive and timer loops never stop,
    and the engine is the environment that \<open>Upstream_Pool\<close> takes as a parameter.
  \<^item> \<open>Quic_Ingress\<close> (the server engine's drive loop, \<^verbatim>\<open>ebpf/steer_loader.c\<close>): demultiplexer, worker queues and
    engines together deliver every datagram to the engine of its worker, in order; the steering check.
  \<^item> \<open>Quic_Glue\<close> (\<^verbatim>\<open>transport/quic_transport.cpp\<close>): initialisation, TLS contexts, settings of the engines and the table
    of callbacks that drive sessions and streams; the live sessions are exactly the open connections, every stream
    keeps its invariant under any order of callbacks, and the protocol is negotiated as configured.
  \<^item> \<open>Proxy_Core\<close> (\<^verbatim>\<open>proxy/proxy_core.cpp\<close>) and \<open>Proxy_Server\<close> (\<^verbatim>\<open>proxy/reverse_proxy_server.cpp\<close>,
    \<^verbatim>\<open>main.cpp\<close>): the relays of a worker keep the relay invariant and drain on shutdown; the server's
    shutdown reaches every worker in order and ends; connections are dealt in turn.
  \<^item> \<open>Worker\<close>: the relays of a worker composed with the pool they share.  What a handler does with backend streams
    and pool requests (\<open>flow\<close>) gives the two properties that need both: a backend stream has one owner, and the
    pool's callbacks and the waiting relays match.
  \<^item> \<open>Exchange\<close>: the HTTP/1 codec, the relay and the pool together when the client refuses a response: the backend
    connection goes back to the pool with the old body unread.
  \<^item> \<open>Demux_Demo\<close>, \<open>Mini_Quic\<close>, \<open>H3_Min\<close> (\<^verbatim>\<open>examples/\<close>): the prototype of the demultiplexer (connections keep their
    slot when their address changes), the miniature engine (no byte lost, no object dangling or leaked), the minimal
    HTTP/3 server (one response per stream, no read outside a packet).

  \<^bold>\<open>Parameters.\<close>  Code outside the repository is an argument: the answers of sockets, resolver and QUIC library,
  the TLS library, the table lookups of the configuration library, the parse of a connection ID, the iteration
  order of hash maps, the text of the uptime, the
  byte that the line reader of the chunked decoder examines.  Events of several threads are the steps of
  one transition system per component, in any order; posting to a worker appends to that worker's list of jobs.

  \<^bold>\<open>Bounds.\<close>  No definition uses fuel to cut a computation short: the reader loops recurse on the script of the
  stream, which every read shortens, and a loop the code would never leave is the result \<open>None\<close>.  Counters are
  64-bit words, ports 16-bit words, and the claims that need no wrap-around say so.  Six completions bound an
  exchange because its longest path is connect, write, reconnect, write, parse the response, write it.

  \<^bold>\<open>Not modelled.\<close>  The inside of the TLS and QUIC libraries (their answers are arguments), log and console output,
  signal delivery (\<open>main_program\<close> starts from the decision to stop), socket options, creation and joining of
  threads and the mutual exclusion of the mutexes, reference counting beyond the null streams that are modelled and
  the objects of the miniature engine, and the drivers under \<^verbatim>\<open>tests/\<close>, which are not part of the program.  What is
  left of the sources are declarations of interfaces, comments and includes.
\<close>

end
